(* ===== verification/Prelude.thy ===== *)
theory Prelude
  imports Main "HOL-Library.Word"
begin

text \<open>
  Shared vocabulary of the development: the machine integer types of the C code
  (\<^verbatim>\<open>types.h\<close>), the outcome of a kernel routine and the sequencing of routines,
  little-endian access to byte arrays, and the generic lemmas on lists and
  words that the component theories rely on.
\<close>

unbundle bit_operations_syntax

section \<open>Machine integers\<close>

type_synonym u8 = "8 word"
type_synonym u16 = "16 word"
type_synonym u32 = "32 word"

named_theorems monad_simps \<open>symbolic execution of sequenced kernel routines\<close>
named_theorems inv_intros \<open>preservation of component invariants\<close>

section \<open>Outcome of a kernel routine\<close>

text \<open>
  A C routine of the kernel either returns, gives up the processor by calling
  \<^verbatim>\<open>sched()\<close> (the state is what the scheduler sees), spins on a lock that another
  processor holds, or calls \<^verbatim>\<open>panic\<close>, which never returns.
\<close>

datatype ('a, 's) outcome = Ok 'a 's | Switch 's | Spin 's | Panic string

type_synonym ('s, 'a) kernel = "'s \<Rightarrow> ('a, 's) outcome"

definition ret :: "'a \<Rightarrow> ('s, 'a) kernel" where
  "ret a s = Ok a s"

definition panic :: "string \<Rightarrow> ('s, 'a) kernel" where
  "panic msg s = Panic msg"

definition bind :: "('s, 'a) kernel \<Rightarrow> ('a \<Rightarrow> ('s, 'b) kernel) \<Rightarrow> ('s, 'b) kernel" where
  "bind m f s = (case m s of Ok a s' \<Rightarrow> f a s' | Switch s' \<Rightarrow> Switch s'
                           | Spin s' \<Rightarrow> Spin s' | Panic e \<Rightarrow> Panic e)"

definition andthen :: "('s, 'a) kernel \<Rightarrow> ('s, 'b) kernel \<Rightarrow> ('s, 'b) kernel" where
  "andthen m n = bind m (\<lambda>_. n)"

definition gets_st :: "('s \<Rightarrow> 'a) \<Rightarrow> ('s, 'a) kernel" where
  "gets_st f s = Ok (f s) s"

definition modify :: "('s \<Rightarrow> 's) \<Rightarrow> ('s, unit) kernel" where
  "modify f s = Ok () (f s)"

lemma ret_run [simp]: "ret a s = Ok a s"
  by (simp add: ret_def)

lemma panic_run [simp]: "panic e s = Panic e"
  by (simp add: panic_def)

lemma gets_st_run [simp]: "gets_st f s = Ok (f s) s"
  by (simp add: gets_st_def)

lemma modify_run [simp]: "modify f s = Ok () (f s)"
  by (simp add: modify_def)

lemma bind_Ok [simp]: "m s = Ok a s' \<Longrightarrow> bind m f s = f a s'"
  by (simp add: bind_def)

lemma bind_Switch [simp]: "m s = Switch s' \<Longrightarrow> bind m f s = Switch s'"
  by (simp add: bind_def)

lemma bind_Spin [simp]: "m s = Spin s' \<Longrightarrow> bind m f s = Spin s'"
  by (simp add: bind_def)

lemma bind_Panic [simp]: "m s = Panic e \<Longrightarrow> bind m f s = Panic e"
  by (simp add: bind_def)

lemma andthen_run [simp]: "andthen m n s = bind m (\<lambda>_. n) s"
  by (simp add: andthen_def)

lemma bind_eq_Ok:
  "bind m f s = Ok b t \<longleftrightarrow> (\<exists>a s'. m s = Ok a s' \<and> f a s' = Ok b t)"
  by (simp add: bind_def split: outcome.splits)

lemma bind_if: "bind (if c then m else n) f s = (if c then bind m f s else bind n f s)"
  by simp

section \<open>Little-endian bytes\<close>

definition byte_at :: "u8 list \<Rightarrow> nat \<Rightarrow> u8" where
  "byte_at bs i = (if i < length bs then bs ! i else 0)"

end
