(* ===== verification/Grep.thy ===== *)
theory Grep
  imports Prelude
begin

text \<open>
  The regular expression matcher of \<^verbatim>\<open>grep.c\<close>. A C string is the list of its
  characters before the terminating NUL, so \<^verbatim>\<open>*text == '\0'\<close> is \<open>t = []\<close> and
  \<^verbatim>\<open>text+1\<close> is the tail. The matcher is compared with a semantics of the patterns
  as sets of words.
\<close>

section \<open>The matcher\<close>

function (sequential) matchhere :: "string \<Rightarrow> string \<Rightarrow> bool"
  and matchstar :: "char \<Rightarrow> string \<Rightarrow> string \<Rightarrow> bool" where
  "matchhere [] t = True"
| "matchhere (c # re) t =
     (if re \<noteq> [] \<and> hd re = CHR ''*'' then matchstar c (tl re) t
      else if c = CHR ''$'' \<and> re = [] then t = []
      else if t \<noteq> [] \<and> (c = CHR ''.'' \<or> c = hd t) then matchhere re (tl t)
      else False)"
| "matchstar c re t =
     (if matchhere re t then True
      else if t \<noteq> [] \<and> (hd t = c \<or> c = CHR ''.'') then matchstar c re (tl t)
      else False)"
  by pat_completeness auto
termination
  by (relation "measures
       [\<lambda>x. case x of Inl (re, t) \<Rightarrow> length re | Inr (c, re, t) \<Rightarrow> length re,
        \<lambda>x. case x of Inl (re, t) \<Rightarrow> length t | Inr (c, re, t) \<Rightarrow> length t,
        \<lambda>x. case x of Inl _ \<Rightarrow> 0 | Inr _ \<Rightarrow> 1]")
     (auto simp: neq_Nil_conv)

text \<open>The \<^verbatim>\<open>do ... while(*text++ != 0)\<close> loop of \<^verbatim>\<open>match\<close>: the empty suffix is tried too.\<close>

fun match_from :: "string \<Rightarrow> string \<Rightarrow> bool" where
  "match_from re [] = matchhere re []"
| "match_from re (t # ts) = (matchhere re (t # ts) \<or> match_from re ts)"

definition match :: "string \<Rightarrow> string \<Rightarrow> bool" where
  "match re t =
     (if re \<noteq> [] \<and> hd re = CHR ''^'' then matchhere (tl re) t
      else match_from re t)"

declare matchhere.simps(2) [simp del] matchstar.simps [simp del]

section \<open>What a pattern means\<close>

text \<open>
  A pattern is a sequence of atoms; an atom denotes a set of words; the words of a
  sequence are the concatenations, and \<open>Eol\<close> (a final \<^verbatim>\<open>$\<close>) asks that nothing is left.
\<close>

datatype atom = One char | Star char | Eol

fun atoms :: "string \<Rightarrow> atom list" where
  "atoms [] = []"
| "atoms [c] = (if c = CHR ''$'' then [Eol] else [One c])"
| "atoms (c # d # re) = (if d = CHR ''*'' then Star c # atoms re else One c # atoms (d # re))"

definition accepts :: "char \<Rightarrow> char \<Rightarrow> bool" where
  "accepts c x \<longleftrightarrow> c = CHR ''.'' \<or> x = c"

fun matches_prefix :: "atom list \<Rightarrow> string \<Rightarrow> bool" where
  "matches_prefix [] t \<longleftrightarrow> True"
| "matches_prefix (One c # as) t \<longleftrightarrow>
     (\<exists>x rest. t = x # rest \<and> accepts c x \<and> matches_prefix as rest)"
| "matches_prefix (Star c # as) t \<longleftrightarrow>
     (\<exists>w rest. t = w @ rest \<and> (\<forall>x \<in> set w. accepts c x) \<and> matches_prefix as rest)"
| "matches_prefix (Eol # as) t \<longleftrightarrow> t = []"

lemma star_unfold:
  "matches_prefix (Star c # as) t \<longleftrightarrow>
     matches_prefix as t \<or>
     (\<exists>x rest. t = x # rest \<and> accepts c x \<and> matches_prefix (Star c # as) rest)"
  (is "?L \<longleftrightarrow> ?R")
proof
  assume ?L
  then obtain w rest where "t = w @ rest" "\<forall>x \<in> set w. accepts c x" "matches_prefix as rest"
    by auto
  then show ?R by (cases w) auto
next
  assume ?R
  then show ?L
    by (auto intro: exI [of _ "[]"]) (metis append_Cons set_ConsD)
qed

lemma matchhere_star_correct:
  "matchhere re t = matches_prefix (atoms re) t"
  "matchstar c re t = matches_prefix (Star c # atoms re) t"
proof (induction re t and c re t rule: matchhere_matchstar.induct)
  case (1 t)
  then show ?case by simp
next
  case (2 c re t)
  then show ?case
    by (cases re; cases t)
       (auto simp: matchhere.simps(2) accepts_def simp del: matches_prefix.simps(3))
next
  case (3 c re t)
  then show ?case
    by (subst star_unfold, subst matchstar.simps)
       (cases t; auto simp: accepts_def simp del: matches_prefix.simps(3))
qed

lemma match_from_suffix:
  "match_from re t \<longleftrightarrow> (\<exists>skipped rest. t = skipped @ rest \<and> matchhere re rest)"
proof (induction t)
  case Nil
  then show ?case by simp
next
  case (Cons t ts)
  then show ?case
    by (auto simp: Cons_eq_append_conv)
qed

text \<open>
  C8: \<^verbatim>\<open>match\<close> finds a pattern in a line exactly when some suffix of the line (the line
  itself for a pattern that starts with a caret) begins with a word of the pattern.
\<close>

theorem match_correct:
  "match re t \<longleftrightarrow>
     (if re \<noteq> [] \<and> hd re = CHR ''^'' then matches_prefix (atoms (tl re)) t
      else \<exists>skipped rest. t = skipped @ rest \<and> matches_prefix (atoms re) rest)"
  by (simp add: match_def match_from_suffix matchhere_star_correct)

end
