(* ===== verification/Umalloc.thy ===== *)
theory Umalloc
  imports Prelude
begin

text \<open>
  The user-level allocator of \<^verbatim>\<open>umalloc.c\<close>: a circular list of free blocks ordered by
  address, with a zero-sized sentinel \<^verbatim>\<open>base\<close>. Addresses are byte addresses of the
  process (which lie below \<^verbatim>\<open>KERNBASE\<close>, so they are naturals here); a header is
  eight bytes. Sizes handed to the kernel and the request size keep their
  32-bit wrap-around.
\<close>

section \<open>State and operations\<close>

record umalloc =
  h_ptr :: "nat \<Rightarrow> nat"    \<comment> \<open>\<^verbatim>\<open>s.ptr\<close> of the header at an address\<close>
  h_size :: "nat \<Rightarrow> nat"   \<comment> \<open>\<^verbatim>\<open>s.size\<close> of the header at an address, in headers\<close>
  base :: nat             \<comment> \<open>address of the static sentinel\<close>
  freep :: nat            \<comment> \<open>0 before the first call\<close>
  brk :: nat              \<comment> \<open>process size, what \<^verbatim>\<open>sbrk\<close> returns\<close>
  brk_max :: nat          \<comment> \<open>size beyond which the kernel has no page left\<close>

text \<open>
  \<^verbatim>\<open>sys_sbrk\<close> over \<^verbatim>\<open>growproc\<close>: the old size, or -1 when the kernel cannot grow the
  process. A negative argument shrinks it; \<^verbatim>\<open>deallocuvm\<close> leaves a size alone that
  wraps around to a larger one, and size 0 counts as a failure.
\<close>

definition sbrk :: "int \<Rightarrow> umalloc \<Rightarrow> umalloc \<times> int" where
  "sbrk n u =
     (if n > 0 then
        (if brk u + nat n \<le> brk_max u then (u\<lparr>brk := brk u + nat n\<rparr>, int (brk u)) else (u, -1))
      else if n < 0 then
        (let sz = nat ((int (brk u) + n) mod 2 ^ 32) in
         if sz \<ge> brk u then (if brk u = 0 then (u, -1) else (u, int (brk u)))
         else if sz = 0 then (u, -1)
         else (u\<lparr>brk := sz\<rparr>, int (brk u)))
      else (u, int (brk u)))"

text \<open>The search loop of \<^verbatim>\<open>free\<close>: \<open>None\<close> would be a loop that never ends.\<close>

partial_function (option) free_find :: "umalloc \<Rightarrow> nat \<Rightarrow> nat \<Rightarrow> nat option" where
  "free_find u bp p =
     (if bp > p \<and> bp < h_ptr u p then Some p
      else if p \<ge> h_ptr u p \<and> (bp > p \<or> bp < h_ptr u p) then Some p
      else free_find u bp (h_ptr u p))"

definition free_at :: "umalloc \<Rightarrow> nat \<Rightarrow> nat \<Rightarrow> umalloc" where
  "free_at u bp p =
     (let nxt = h_ptr u p;
          u1 = (if bp + 8 * h_size u bp = nxt
                then u\<lparr>h_size := (h_size u)(bp := h_size u bp + h_size u nxt),
                       h_ptr := (h_ptr u)(bp := h_ptr u nxt)\<rparr>
                else u\<lparr>h_ptr := (h_ptr u)(bp := nxt)\<rparr>);
          u2 = (if p + 8 * h_size u1 p = bp
                then u1\<lparr>h_size := (h_size u1)(p := h_size u1 p + h_size u1 bp),
                        h_ptr := (h_ptr u1)(p := h_ptr u1 bp)\<rparr>
                else u1\<lparr>h_ptr := (h_ptr u1)(p := bp)\<rparr>)
      in u2\<lparr>freep := p\<rparr>)"

definition free :: "umalloc \<Rightarrow> nat \<Rightarrow> umalloc option" where
  "free u ap = (let bp = ap - 8 in map_option (free_at u bp) (free_find u bp (freep u)))"

text \<open>The result 0 is the null pointer.\<close>

definition morecore :: "umalloc \<Rightarrow> nat \<Rightarrow> (umalloc \<times> nat) option" where
  "morecore u nu =
     (let nu = (if nu < 4096 then 4096 else nu);
          (u1, p) = sbrk (sint (of_nat nu * 8 :: u32)) u
      in if p = -1 then Some (u1, 0)
         else let hp = nat p;
                  u2 = u1\<lparr>h_size := (h_size u1)(hp := nu)\<rparr>
              in map_option (\<lambda>u3. (u3, freep u3)) (free u2 (hp + 8)))"

definition take_block :: "umalloc \<Rightarrow> nat \<Rightarrow> nat \<Rightarrow> nat \<Rightarrow> umalloc \<times> nat" where
  "take_block u nunits prevp p =
     (if h_size u p = nunits
      then (u\<lparr>h_ptr := (h_ptr u)(prevp := h_ptr u p), freep := prevp\<rparr>, p + 8)
      else let q = p + 8 * (h_size u p - nunits)
           in (u\<lparr>h_size := (h_size u)(p := h_size u p - nunits, q := nunits), freep := prevp\<rparr>,
               q + 8))"

partial_function (option) malloc_loop ::
    "umalloc \<Rightarrow> nat \<Rightarrow> nat \<Rightarrow> nat \<Rightarrow> (umalloc \<times> nat) option" where
  "malloc_loop u nunits prevp p =
     (if h_size u p \<ge> nunits then Some (take_block u nunits prevp p)
      else if p = freep u then
        Option.bind (morecore u nunits) (\<lambda>(u', p').
          if p' = 0 then Some (u', 0) else malloc_loop u' nunits p' (h_ptr u' p'))
      else malloc_loop u nunits p (h_ptr u p))"

definition malloc_units :: "u32 \<Rightarrow> nat" where
  "malloc_units nbytes = unat ((nbytes + 8 - 1) div 8 + 1)"

definition malloc :: "umalloc \<Rightarrow> u32 \<Rightarrow> (umalloc \<times> nat) option" where
  "malloc u nbytes =
     (let nunits = malloc_units nbytes;
          u1 = (if freep u = 0
                then u\<lparr>h_ptr := (h_ptr u)(base u := base u),
                       h_size := (h_size u)(base u := 0), freep := base u\<rparr>
                else u)
      in malloc_loop u1 nunits (freep u1) (h_ptr u1 (freep u1)))"

section \<open>The circular list\<close>

text \<open>Following the pointers from \<open>x\<close> visits \<open>ns\<close> and arrives at \<open>y\<close>.\<close>

primrec chain :: "(nat \<Rightarrow> nat) \<Rightarrow> nat \<Rightarrow> nat list \<Rightarrow> nat \<Rightarrow> bool" where
  "chain f x [] y \<longleftrightarrow> x = y"
| "chain f x (n # ns) y \<longleftrightarrow> x = n \<and> chain f (f n) ns y"

lemma chain_append [simp]:
  "chain f x (xs @ ys) y \<longleftrightarrow> (\<exists>z. chain f x xs z \<and> chain f z ys y)"
  by (induction xs arbitrary: x) auto

lemma chain_upd [simp]: "a \<notin> set ns \<Longrightarrow> chain (f(a := v)) x ns y = chain f x ns y"
  by (induction ns arbitrary: x) auto

lemma chain_fun: "chain f x ns y \<Longrightarrow> chain f x ns z \<Longrightarrow> y = z"
  by (induction ns arbitrary: x) auto

text \<open>
  A block \<open>x\<close> occupies \<open>8 * size x\<close> bytes. In the list each free block ends strictly
  before the next one begins: it is ordered by address and fully coalesced.
\<close>

definition ends_before :: "umalloc \<Rightarrow> nat \<Rightarrow> nat \<Rightarrow> bool" where
  "ends_before u a b \<longleftrightarrow> a + 8 * h_size u a < b"

definition extent :: "umalloc \<Rightarrow> nat \<Rightarrow> nat set" where
  "extent u x = {x ..< x + 8 * h_size u x}"

text \<open>The blocks \<open>B\<close> are non-empty, lie in the heap and do not overlap.\<close>

definition blocks_ok :: "umalloc \<Rightarrow> nat set \<Rightarrow> bool" where
  "blocks_ok u B \<longleftrightarrow>
     (\<forall>x \<in> B. 1 \<le> h_size u x \<and> base u + 8 \<le> x \<and> x + 8 * h_size u x \<le> brk u) \<and>
     (\<forall>x \<in> B. \<forall>y \<in> B. x \<noteq> y \<longrightarrow> extent u x \<inter> extent u y = {})"

text \<open>
  \<open>heap_wf u as bs\<close>: the free list is the sentinel followed by the blocks \<open>as\<close>, and the
  headers \<open>bs\<close> are the blocks in use.
\<close>

definition heap_wf :: "umalloc \<Rightarrow> nat list \<Rightarrow> nat set \<Rightarrow> bool" where
  "heap_wf u as bs \<longleftrightarrow>
     chain (h_ptr u) (base u) (base u # as) (base u) \<and>
     h_size u (base u) = 0 \<and> 0 < base u \<and> base u + 8 \<le> brk u \<and>
     freep u \<in> set (base u # as) \<and>
     successively (ends_before u) (base u # as) \<and>
     set as \<inter> bs = {} \<and> blocks_ok u (set as \<union> bs)"

definition stops :: "umalloc \<Rightarrow> nat \<Rightarrow> nat \<Rightarrow> bool" where
  "stops u bp n \<longleftrightarrow> (bp > n \<and> bp < h_ptr u n) \<or> (n \<ge> h_ptr u n \<and> (bp > n \<or> bp < h_ptr u n))"

lemma free_find_stop: "stops u bp p \<Longrightarrow> free_find u bp p = Some p"
  by (subst free_find.simps) (auto simp: stops_def)

lemma free_find_step: "\<not> stops u bp p \<Longrightarrow> free_find u bp p = free_find u bp (h_ptr u p)"
  by (subst free_find.simps) (auto simp: stops_def)

lemma free_find_skip:
  "chain (h_ptr u) x ns y \<Longrightarrow> \<forall>n \<in> set ns. \<not> stops u bp n \<Longrightarrow> free_find u bp x = free_find u bp y"
  by (induction ns arbitrary: x) (auto simp: free_find_step)

lemma chain_next:
  "chain f x (ns @ n # ms) y \<Longrightarrow> f n = hd (ms @ [y])"
  by (cases ms) auto

lemma ends_before_sorted:
  assumes "successively (ends_before u) ns" shows "sorted_wrt (<) ns"
proof -
  have "successively (<) ns"
    using assms by (rule successively_mono) (auto simp: ends_before_def)
  then show ?thesis
    by (simp add: successively_conv_sorted_wrt)
qed

lemma chain_up_no_stop:
  assumes c: "chain (h_ptr u) x (ns @ [p]) y" and s: "sorted_wrt (<) (ns @ [p])"
    and le: "\<forall>n \<in> set (ns @ [p]). n < bp" and n: "n \<in> set ns"
  shows "\<not> stops u bp n"
proof -
  obtain as cs where ns: "ns = as @ n # cs" using split_list [OF n] by blast
  have "chain (h_ptr u) x (as @ n # (cs @ [p])) y"
    using c by (simp only: ns append_assoc append_Cons)
  then have "h_ptr u n = hd ((cs @ [p]) @ [y])" by (rule chain_next)
  then have "h_ptr u n = hd (cs @ [p])" by (cases cs) simp_all
  moreover have "hd (cs @ [p]) \<in> set (cs @ [p])" by (rule hd_in_set) simp
  ultimately have "n < h_ptr u n" "h_ptr u n < bp" "n < bp"
    using s le by (auto simp: ns sorted_wrt_append)
  then show ?thesis by (auto simp: stops_def)
qed

lemma chain_down_no_stop:
  assumes c: "chain (h_ptr u) x ys b" and s: "sorted_wrt (<) ys"
    and ge: "\<forall>n \<in> set ys. bp < n" and b: "b < bp" and n: "n \<in> set ys"
  shows "\<not> stops u bp n"
proof -
  obtain as cs where ys: "ys = as @ n # cs" using split_list [OF n] by blast
  have h: "h_ptr u n = hd (cs @ [b])"
    using c unfolding ys by (rule chain_next)
  show ?thesis
  proof (cases cs)
    case Nil
    with h ge b show ?thesis by (auto simp: stops_def ys)
  next
    case (Cons c cs')
    with h s ge show ?thesis by (auto simp: stops_def ys sorted_wrt_append)
  qed
qed

lemma free_find_pred:
  assumes c: "chain (h_ptr u) b (b # xs @ ys) b" and s: "sorted_wrt (<) (b # xs @ ys)"
    and lo: "\<forall>n \<in> set xs. n < bp" and hi: "\<forall>n \<in> set ys. bp < n" and b: "b < bp"
    and start: "p \<in> set (b # xs @ ys)"
  shows "free_find u bp p = Some (last (b # xs))"
proof -
  define ls q where "ls = butlast (b # xs)" and "q = last (b # xs)"
  have ls: "b # xs = ls @ [q]" by (simp add: ls_def q_def)
  from c obtain z where c1: "chain (h_ptr u) b (b # xs) z" and c2: "chain (h_ptr u) z ys b"
    by auto
  have zq: "h_ptr u q = z" using c1 unfolding ls by simp
  have qs: "q < bp" using lo b by (auto simp: q_def)
  have "stops u bp q"
  proof (cases ys)
    case Nil
    with c2 have "z = b" by simp
    moreover have "b \<le> q" using s by (cases xs rule: rev_cases) (auto simp: q_def sorted_wrt_append)
    ultimately show ?thesis using qs zq by (simp add: stops_def)
  next
    case (Cons y ys')
    with c2 hi have "bp < z" by simp
    then show ?thesis using qs zq by (simp add: stops_def)
  qed
  then have fq: "free_find u bp q = Some q" by (rule free_find_stop)
  have up: "\<forall>n \<in> set ls. \<not> stops u bp n"
    using chain_up_no_stop [of u b ls q z bp] c1 s lo b ls
    by (metis set_ConsD sorted_wrt_append append_Cons)
  have down: "\<forall>n \<in> set ys. \<not> stops u bp n"
    using chain_down_no_stop [OF c2] s hi b by (auto simp: sorted_wrt_append)
  have fromL: "free_find u bp n = Some q" if "n \<in> set (b # xs)" for n
  proof (cases "n = q")
    case True
    then show ?thesis by (simp add: fq)
  next
    case False
    with that ls have "n \<in> set ls" by (metis Un_iff empty_iff insert_iff list.set set_append)
    then obtain as cs where lsn: "ls = as @ n # cs" by (meson split_list)
    have "chain (h_ptr u) n (n # cs) q"
      using c1 unfolding ls lsn by auto
    then have "free_find u bp n = free_find u bp q"
      by (rule free_find_skip) (use up lsn in auto)
    then show ?thesis by (simp add: fq)
  qed
  show ?thesis
  proof (cases "p \<in> set (b # xs)")
    case True
    then show ?thesis using fromL by (simp add: q_def)
  next
    case False
    with start have "p \<in> set ys" by auto
    then obtain as cs where ysn: "ys = as @ p # cs" by (meson split_list)
    have "chain (h_ptr u) p (p # cs) b"
      using c2 unfolding ysn by auto
    then have "free_find u bp p = free_find u bp b"
      by (rule free_find_skip) (use down ysn in auto)
    then show ?thesis using fromL [of b] by (simp add: q_def)
  qed
qed

section \<open>Merging and splitting blocks\<close>

lemma blocks_ok_le:
  assumes "blocks_ok u B" "x \<in> B" "y \<in> B" "x < y"
  shows "x + 8 * h_size u x \<le> y"
proof (rule ccontr)
  assume "\<not> ?thesis"
  with assms(4) have "y \<in> extent u x" by (simp add: extent_def)
  moreover have "y \<in> extent u y" using assms by (auto simp: extent_def blocks_ok_def)
  moreover have "extent u x \<inter> extent u y = {}" using assms by (simp add: blocks_ok_def)
  ultimately show False by blast
qed

text \<open>A block \<open>x\<close> that swallows its neighbour \<open>y\<close>.\<close>

lemma blocks_ok_absorb:
  assumes B: "blocks_ok u B" and x: "x \<in> B" and y: "y \<in> B" and "x < y"
    and adj: "x + 8 * h_size u x = y"
    and sz: "h_size u' = (h_size u)(x := h_size u x + h_size u y)"
    and "base u' = base u" and "brk u' = brk u"
  shows "blocks_ok u' (B - {y})"
proof -
  have ex: "extent u' x = extent u x \<union> extent u y"
    using adj sz by (auto simp: extent_def)
  have eo: "extent u' z = extent u z" if "z \<noteq> x" for z
    using that sz by (simp add: extent_def)
  have sizes: "\<forall>z \<in> B. 1 \<le> h_size u z \<and> base u + 8 \<le> z \<and> z + 8 * h_size u z \<le> brk u"
    and disj: "\<And>a b. a \<in> B \<Longrightarrow> b \<in> B \<Longrightarrow> a \<noteq> b \<Longrightarrow> extent u a \<inter> extent u b = {}"
    using B by (auto simp: blocks_ok_def)
  have "extent u' a \<inter> extent u' b = {}" if "a \<in> B - {y}" "b \<in> B - {y}" "a \<noteq> b" for a b
    using that disj [of a b] disj [of a y] disj [of b y] x y
    by (cases "a = x"; cases "b = x") (auto simp: ex eo)
  moreover have "1 \<le> h_size u' z \<and> base u' + 8 \<le> z \<and> z + 8 * h_size u' z \<le> brk u'"
    if "z \<in> B - {y}" for z
  proof (cases "z = x")
    case True
    have "y + 8 * h_size u y \<le> brk u" using sizes y by blast
    with True sizes x show ?thesis using sz adj assms(7,8) by auto
  next
    case False
    with that sizes show ?thesis using sz assms(7,8) by auto
  qed
  ultimately show ?thesis by (auto simp: blocks_ok_def)
qed

text \<open>A block \<open>x\<close> cut in two, the second part \<open>y\<close> of \<open>n\<close> headers.\<close>

lemma blocks_ok_split:
  assumes B: "blocks_ok u B" and x: "x \<in> B" and n: "1 \<le> n" "n < h_size u x"
    and y: "y = x + 8 * (h_size u x - n)"
    and sz: "h_size u' = (h_size u)(x := h_size u x - n, y := n)"
    and "base u' = base u" and "brk u' = brk u"
  shows "blocks_ok u' (insert y B)" "y \<notin> B"
proof -
  have sizes: "\<forall>z \<in> B. 1 \<le> h_size u z \<and> base u + 8 \<le> z \<and> z + 8 * h_size u z \<le> brk u"
    and disj: "\<And>a b. a \<in> B \<Longrightarrow> b \<in> B \<Longrightarrow> a \<noteq> b \<Longrightarrow> extent u a \<inter> extent u b = {}"
    using B by (auto simp: blocks_ok_def)
  have yx: "x < y" "y + 8 * n = x + 8 * h_size u x" using n y by (auto simp: algebra_simps)
  then have "y \<in> extent u x" using n by (auto simp: extent_def)
  then show yB: "y \<notin> B" using disj [of x y] x yx sizes by (fastforce simp: extent_def)
  have ex: "extent u' x \<subseteq> extent u x" "extent u' y \<subseteq> extent u x" "extent u' x \<inter> extent u' y = {}"
    using n y yx sz by (auto simp: extent_def)
  have eo: "extent u' z = extent u z" if "z \<noteq> x" "z \<noteq> y" for z
    using that sz by (simp add: extent_def)
  have "extent u' a \<inter> extent u' b = {}" if "a \<in> insert y B" "b \<in> insert y B" "a \<noteq> b" for a b
  proof -
    consider "a = x" "b = y" | "a = y" "b = x" | "a \<in> {x, y}" "b \<notin> {x, y}"
      | "a \<notin> {x, y}" "b \<in> {x, y}" | "a \<notin> {x, y}" "b \<notin> {x, y}"
      using \<open>a \<noteq> b\<close> by auto
    then show ?thesis
    proof cases
      case 3
      then have "extent u' a \<subseteq> extent u x" "extent u x \<inter> extent u b = {}"
        using ex disj [of x b] x that by auto
      with eo [of b] 3 show ?thesis by auto
    next
      case 4
      then have "extent u' b \<subseteq> extent u x" "extent u x \<inter> extent u a = {}"
        using ex disj [of x a] x that by auto
      with eo [of a] 4 show ?thesis by auto
    next
      case 5
      with eo [of a] eo [of b] disj [of a b] that show ?thesis by auto
    qed (use ex in auto)
  qed
  moreover have "1 \<le> h_size u' z \<and> base u' + 8 \<le> z \<and> z + 8 * h_size u' z \<le> brk u'"
    if "z \<in> insert y B" for z
    using that sizes x n y yx sz assms(7,8) by (auto split: if_splits)
  ultimately show "blocks_ok u' (insert y B)" by (auto simp: blocks_ok_def)
qed

section \<open>free\<close>

lemma blocks_ok_cong:
  "h_size u' = h_size u \<Longrightarrow> base u' = base u \<Longrightarrow> brk u' = brk u \<Longrightarrow> blocks_ok u' B = blocks_ok u B"
  by (simp add: blocks_ok_def extent_def)

lemma blocks_ok_low: "blocks_ok u B \<Longrightarrow> x \<in> B \<Longrightarrow> base u + 8 \<le> x"
  by (simp add: blocks_ok_def)

definition free_bytes :: "umalloc \<Rightarrow> nat list \<Rightarrow> nat set" where
  "free_bytes u as = (\<Union>x \<in> set as. extent u x)"

lemma free_bytes_absorb:
  assumes "p \<in> set ns" "extent u2 p = extent u p \<union> E" "\<And>x. x \<noteq> p \<Longrightarrow> extent u2 x = extent u x"
  shows "free_bytes u2 ns = free_bytes u ns \<union> E"
proof -
  have u2: "extent u2 x = (if x = p then extent u p \<union> E else extent u x)" for x
    using assms(2,3) by simp
  show ?thesis unfolding free_bytes_def u2 using assms(1) by (auto split: if_splits)
qed

lemma succ_ends_cong:
  assumes "\<forall>x \<in> set ns. h_size u' x = h_size u x"
  shows "successively (ends_before u') ns = successively (ends_before u) ns"
  using assms by (intro successively_cong) (auto simp: ends_before_def)

text \<open>
  The state of \<^verbatim>\<open>free\<close> after its first conditional: the list up to the predecessor \<open>p\<close>,
  and the freed block \<open>bp\<close> already linked to what follows.
\<close>

definition half_linked ::
    "umalloc \<Rightarrow> nat list \<Rightarrow> nat \<Rightarrow> nat \<Rightarrow> nat list \<Rightarrow> nat set \<Rightarrow> bool" where
  "half_linked u ls p bp ys bs \<longleftrightarrow>
     chain (h_ptr u) (base u) ls p \<and> chain (h_ptr u) bp (bp # ys) (base u) \<and>
     successively (ends_before u) (ls @ [p]) \<and> successively (ends_before u) (bp # ys) \<and>
     p + 8 * h_size u p \<le> bp \<and> distinct (ls @ p # bp # ys) \<and>
     (set (ls @ p # bp # ys) - {base u}) \<inter> bs = {} \<and>
     blocks_ok u ((set (ls @ p # bp # ys) - {base u}) \<union> bs)"

lemma free_link_right:
  assumes c: "chain (h_ptr u) (base u) (ls @ p # ys) (base u)"
    and s: "successively (ends_before u) (ls @ p # ys)"
    and p: "p + 8 * h_size u p \<le> bp" and ys: "\<forall>y \<in> set ys. bp < y" and b: "base u < bp"
    and d: "distinct (ls @ p # bp # ys)"
    and dj: "(set (ls @ p # bp # ys) - {base u}) \<inter> bs = {}"
    and B: "blocks_ok u ((set (ls @ p # bp # ys) - {base u}) \<union> bs)"
    and u1: "u1 = (if bp + 8 * h_size u bp = h_ptr u p
                then u\<lparr>h_size := (h_size u)(bp := h_size u bp + h_size u (h_ptr u p)),
                       h_ptr := (h_ptr u)(bp := h_ptr u (h_ptr u p))\<rparr>
                else u\<lparr>h_ptr := (h_ptr u)(bp := h_ptr u p)\<rparr>)"
  obtains ys' where "half_linked u1 ls p bp ys' bs"
    "free_bytes u1 (bp # ys') = free_bytes u (bp # ys)" "extent u bp \<subseteq> extent u1 bp"
proof (cases "bp + 8 * h_size u bp = h_ptr u p")
  case True
  define nxt where "nxt = h_ptr u p"
  have cy: "chain (h_ptr u) nxt ys (base u)" using c by (auto simp: nxt_def)
  have "bp \<in> (set (ls @ p # bp # ys) - {base u}) \<union> bs" using b by auto
  then have s1: "1 \<le> h_size u bp" using B unfolding blocks_ok_def by blast
  with True b have "nxt \<noteq> base u" by (auto simp: nxt_def)
  with cy obtain ys' where ys': "ys = nxt # ys'" and cy': "chain (h_ptr u) (h_ptr u nxt) ys' (base u)"
    by (cases ys) auto
  have nb: "bp < nxt" using ys ys' by simp
  have u1': "u1 = u\<lparr>h_size := (h_size u)(bp := h_size u bp + h_size u nxt),
                    h_ptr := (h_ptr u)(bp := h_ptr u nxt)\<rparr>"
    using True u1 by (simp add: nxt_def)
  have bok: "blocks_ok u1 (((set (ls @ p # bp # ys) - {base u}) \<union> bs) - {nxt})"
    using B \<open>nxt \<noteq> base u\<close> b ys' True nb
    by (intro blocks_ok_absorb [where u = u and x = bp and y = nxt]) (auto simp: u1' nxt_def)
  have set_eq: "((set (ls @ p # bp # ys) - {base u}) \<union> bs) - {nxt} =
                (set (ls @ p # bp # ys') - {base u}) \<union> bs"
    using d dj ys' \<open>nxt \<noteq> base u\<close> by auto
  have sy: "successively (ends_before u) (nxt # ys')"
    using s ys' by (auto simp: successively_append_iff successively_Cons)
  have "successively (ends_before u1) ys'"
    using sy succ_ends_cong [of ys' u1 u] d ys' by (auto simp: successively_Cons u1')
  moreover have "ys' = [] \<or> ends_before u1 bp (hd ys')"
    using sy True by (auto simp: successively_Cons ends_before_def u1' nxt_def)
  ultimately have eb: "successively (ends_before u1) (bp # ys')"
    by (simp add: successively_Cons)
  have ch: "chain (h_ptr u1) (base u) ls p" "chain (h_ptr u1) bp (bp # ys') (base u)"
    using c d cy' ys' by (auto simp: u1')
  have "successively (ends_before u) (ls @ [p])"
    using s by (auto simp: successively_append_iff)
  then have sl: "successively (ends_before u1) (ls @ [p])"
    using succ_ends_cong [of "ls @ [p]" u1 u] d by (auto simp: u1')
  have pz: "p + 8 * h_size u1 p \<le> bp" using p d by (simp add: u1')
  have dd: "distinct (ls @ p # bp # ys')" "(set (ls @ p # bp # ys') - {base u}) \<inter> bs = {}"
    using d dj ys' by auto
  have half: "half_linked u1 ls p bp ys' bs"
    unfolding half_linked_def using ch eb sl pz dd bok set_eq by (simp add: u1')
  have ex: "extent u1 bp = extent u bp \<union> extent u nxt"
    using True by (auto simp: extent_def u1' nxt_def)
  moreover have "extent u1 x = extent u x" if "x \<in> set ys'" for x
    using that d ys' by (auto simp: extent_def u1')
  then have "(\<Union>x \<in> set ys'. extent u1 x) = (\<Union>x \<in> set ys'. extent u x)"
    by (intro SUP_cong) auto
  ultimately have "free_bytes u1 (bp # ys') = free_bytes u (bp # ys)"
    by (simp add: free_bytes_def ys' Un_assoc)
  with half ex show ?thesis by (intro that [of ys']) auto
next
  case False
  have u1': "u1 = u\<lparr>h_ptr := (h_ptr u)(bp := h_ptr u p)\<rparr>" using False u1 by simp
  have cy: "chain (h_ptr u) (h_ptr u p) ys (base u)" using c by auto
  have sz: "h_size u1 = h_size u" "base u1 = base u" "brk u1 = brk u" by (simp_all add: u1')
  have "bp + 8 * h_size u bp < hd ys" if "ys \<noteq> []"
  proof -
    from that cy have hd: "hd ys = h_ptr u p" by (cases ys) auto
    have "bp + 8 * h_size u bp \<le> hd ys"
      using blocks_ok_le [OF B, of bp "hd ys"] that ys b d by (cases ys) fastforce+
    with hd False show ?thesis by auto
  qed
  then have eb: "successively (ends_before u1) (bp # ys)"
    using succ_ends_cong [of ys u1 u] s sz
    by (cases ys) (auto simp: successively_append_iff successively_Cons ends_before_def)
  have "blocks_ok u1 ((set (ls @ p # bp # ys) - {base u}) \<union> bs)"
    using B by (simp add: blocks_ok_def extent_def sz)
  then have half: "half_linked u1 ls p bp ys bs"
    unfolding half_linked_def
    using eb d dj c cy p s succ_ends_cong [of "ls @ [p]" u1 u] sz
    by (auto simp: u1' successively_append_iff successively_Cons)
  moreover have "free_bytes u1 (bp # ys) = free_bytes u (bp # ys)"
    by (simp add: free_bytes_def extent_def sz)
  ultimately show ?thesis by (intro that [of ys]) (auto simp: extent_def sz)
qed

lemma free_link_left:
  assumes h: "half_linked u ls p bp ys bs" and base: "h_size u (base u) = 0" "base u < bp"
    and lp: "ls @ [p] = base u # xs"
    and u2: "u2 = (if p + 8 * h_size u p = bp
                then u\<lparr>h_size := (h_size u)(p := h_size u p + h_size u bp),
                       h_ptr := (h_ptr u)(p := h_ptr u bp)\<rparr>
                else u\<lparr>h_ptr := (h_ptr u)(p := bp)\<rparr>)"
    and pos: "0 < base u" "base u + 8 \<le> brk u"
  obtains as' where "heap_wf (u2\<lparr>freep := p\<rparr>) as' bs"
    "free_bytes (u2\<lparr>freep := p\<rparr>) as' = free_bytes u (xs @ bp # ys)"
    "\<exists>r \<in> set as'. extent u bp \<subseteq> extent (u2\<lparr>freep := p\<rparr>) r"
proof -
  have hc: "chain (h_ptr u) (base u) ls p" "chain (h_ptr u) (h_ptr u bp) ys (base u)"
    and hs: "successively (ends_before u) (ls @ [p])" "successively (ends_before u) (bp # ys)"
    and hp: "p + 8 * h_size u p \<le> bp"
    and hd: "distinct (ls @ p # bp # ys)" "(set (ls @ p # bp # ys) - {base u}) \<inter> bs = {}"
    and hb: "blocks_ok u ((set (ls @ p # bp # ys) - {base u}) \<union> bs)"
    using h by (simp_all add: half_linked_def)
  have eq: "ls @ p # bp # ys = base u # xs @ bp # ys"
    using lp by (metis append_Cons append_Nil append_assoc)
  have d: "distinct (base u # xs @ bp # ys)" using hd(1) unfolding eq .
  have dj: "set (xs @ bp # ys) \<inter> bs = {}" using hd(2) d unfolding eq by auto
  have hb': "blocks_ok u (set (xs @ bp # ys) \<union> bs)"
    using hb d unfolding eq by (simp add: insert_Diff_if)
  show ?thesis
  proof (cases "p + 8 * h_size u p = bp")
  case True
  then have pb: "p \<noteq> base u" using base by auto
  with lp have px: "p \<in> set xs" by (cases ls) auto
  have u2': "u2 = u\<lparr>h_size := (h_size u)(p := h_size u p + h_size u bp),
                    h_ptr := (h_ptr u)(p := h_ptr u bp)\<rparr>"
    using True u2 by simp
  have "p < bp" using True hp hd(1) by auto
  have "blocks_ok u2 ((set (xs @ bp # ys) \<union> bs) - {bp})"
    using hb' True px \<open>p < bp\<close>
    by (intro blocks_ok_absorb [where u = u and x = p and y = bp]) (auto simp: u2')
  moreover have "(set (xs @ bp # ys) \<union> bs) - {bp} = set (xs @ ys) \<union> bs"
    using d dj by auto
  ultimately have bok: "blocks_ok u2 (set (xs @ ys) \<union> bs)" by simp
  have "chain (h_ptr u2) (base u) (ls @ [p]) (h_ptr u bp)" "chain (h_ptr u2) (h_ptr u bp) ys (base u)"
    using hc hd by (auto simp: u2')
  then have ch: "chain (h_ptr u2) (base u) (base u # xs @ ys) (base u)"
    unfolding lp by auto
  have "successively (ends_before u2) ls"
    using hs hd succ_ends_cong [of ls u2 u] by (auto simp: successively_append_iff u2')
  moreover have "ls = [] \<or> ends_before u2 (last ls) p"
    using hs(1) hd by (cases ls rule: rev_cases)
      (auto simp: successively_append_iff ends_before_def u2')
  ultimately have "successively (ends_before u2) (ls @ [p])"
    by (simp add: successively_append_iff)
  moreover have "successively (ends_before u2) ys"
  proof -
    have "\<forall>x \<in> set ys. h_size u2 x = h_size u x" using hd(1) by (auto simp: u2')
    moreover have "successively (ends_before u) ys" using hs(2) by (cases ys) simp_all
    ultimately show ?thesis using succ_ends_cong by blast
  qed
  moreover have "ys = [] \<or> ends_before u2 p (hd ys)"
    using hs(2) True by (auto simp: successively_Cons ends_before_def u2')
  ultimately have "successively (ends_before u2) ((ls @ [p]) @ ys)"
    by (simp add: successively_append_iff successively_Cons)
  then have su: "successively (ends_before u2) (base u # xs @ ys)"
    unfolding lp by simp
  have z: "h_size u2 (base u) = 0" using base pb by (simp add: u2')
  have "heap_wf u2' (xs @ ys) bs" if "u2' = u2\<lparr>freep := p\<rparr>" for u2'
    unfolding heap_wf_def
    using ch z bok px pos d dj su that succ_ends_cong [of "base u # xs @ ys" u2' u2]
      blocks_ok_cong [of u2' u2]
    by (simp add: u2' Int_Un_distrib2)
  then have "heap_wf (u2\<lparr>freep := p\<rparr>) (xs @ ys) bs" by blast
  moreover have "free_bytes (u2\<lparr>freep := p\<rparr>) (xs @ ys) = free_bytes u (xs @ ys) \<union> extent u bp"
    using px True by (intro free_bytes_absorb [where p = p]) (auto simp: extent_def u2')
  then have "free_bytes (u2\<lparr>freep := p\<rparr>) (xs @ ys) = free_bytes u (xs @ bp # ys)"
    by (auto simp: free_bytes_def)
  moreover have "\<exists>r \<in> set (xs @ ys). extent u bp \<subseteq> extent (u2\<lparr>freep := p\<rparr>) r"
    using px True by (intro bexI [of _ p]) (auto simp: extent_def u2')
  ultimately show ?thesis by (rule that)
next
  case False
  have u2': "u2 = u\<lparr>h_ptr := (h_ptr u)(p := bp)\<rparr>" using False u2 by simp
  have px: "p \<in> set (base u # xs)" using lp by (metis in_set_conv_decomp)
  have "chain (h_ptr u2) (base u) (ls @ [p]) bp" "chain (h_ptr u2) bp (bp # ys) (base u)"
    using hc hd by (auto simp: u2')
  then have ch: "chain (h_ptr u2) (base u) (base u # xs @ bp # ys) (base u)"
    unfolding lp by auto
  have "successively (ends_before u) ((ls @ [p]) @ bp # ys)"
    using hs hp False by (simp add: successively_append_iff ends_before_def)
  then have su: "successively (ends_before u2) (base u # xs @ bp # ys)"
    unfolding lp using succ_ends_cong [of "base u # xs @ bp # ys" u2 u] by (simp add: u2')
  have "heap_wf u2' (xs @ bp # ys) bs" if "u2' = u2\<lparr>freep := p\<rparr>" for u2'
    unfolding heap_wf_def
    using ch hb' px pos dj su base that succ_ends_cong [of "base u # xs @ bp # ys" u2' u2]
      blocks_ok_cong [of u2' u]
    by (simp add: u2' Int_Un_distrib2) blast
  then have "heap_wf (u2\<lparr>freep := p\<rparr>) (xs @ bp # ys) bs" by blast
  moreover have "free_bytes (u2\<lparr>freep := p\<rparr>) (xs @ bp # ys) = free_bytes u (xs @ bp # ys)"
    by (simp add: free_bytes_def extent_def u2')
  moreover have "\<exists>r \<in> set (xs @ bp # ys). extent u bp \<subseteq> extent (u2\<lparr>freep := p\<rparr>) r"
    by (intro bexI [of _ bp]) (auto simp: extent_def u2')
  ultimately show ?thesis by (rule that)
  qed
qed

lemma heap_wf_free:
  assumes wf: "heap_wf u as bs" and bp: "bp \<in> bs"
  obtains u' as' where "free u (bp + 8) = Some u'" "heap_wf u' as' (bs - {bp})"
    "free_bytes u' as' = free_bytes u as \<union> extent u bp"
    "\<exists>r \<in> set as'. extent u bp \<subseteq> extent u' r" "\<forall>x \<in> bs - {bp}. h_size u' x = h_size u x"
    "brk u' = brk u" "base u' = base u" "brk_max u' = brk_max u"
proof -
  let ?b = "base u"
  from wf have c: "chain (h_ptr u) ?b (?b # as) ?b" and s: "successively (ends_before u) (?b # as)"
    and B: "blocks_ok u (set as \<union> bs)" and z: "h_size u ?b = 0" and fp: "freep u \<in> set (?b # as)"
    and dj: "set as \<inter> bs = {}" and pos: "0 < ?b" "?b + 8 \<le> brk u"
    by (auto simp: heap_wf_def)
  have so: "sorted_wrt (<) (?b # as)" using s by (rule ends_before_sorted)
  have bb: "?b < bp" using blocks_ok_low [OF B, of bp] bp by simp
  have nb: "bp \<notin> set as" using bp dj by auto
  define xs ys where "xs = takeWhile (\<lambda>n. n < bp) as" and "ys = dropWhile (\<lambda>n. n < bp) as"
  have as: "as = xs @ ys" by (simp add: xs_def ys_def)
  have lo: "\<forall>n \<in> set xs. n < bp" by (auto simp: xs_def dest: set_takeWhileD)
  have hi: "\<forall>n \<in> set ys. bp < n"
  proof (cases ys)
    case (Cons y ys')
    then have "\<not> y < bp" unfolding ys_def by (metis hd_dropWhile list.distinct(1) list.sel(1))
    moreover have "y \<noteq> bp" using nb as Cons by auto
    ultimately show ?thesis using so as Cons by (auto simp: sorted_wrt_append)
  qed simp
  define ls p where "ls = butlast (?b # xs)" and "p = last (?b # xs)"
  have lp: "ls @ [p] = ?b # xs" by (simp add: ls_def p_def)
  have ff: "free_find u bp (freep u) = Some p"
    unfolding p_def using c so lo hi bb fp unfolding as by (intro free_find_pred) auto
  have lpys: "ls @ p # ys = ?b # as" using lp as by (metis append_Cons append_Nil append_assoc)
  have pz: "p + 8 * h_size u p \<le> bp"
  proof (cases "p = ?b")
    case True
    then show ?thesis using z bb by simp
  next
    case False
    then have "p \<in> set xs" by (auto simp: p_def split: if_splits)
    then show ?thesis using blocks_ok_le [OF B, of p bp] lo bp as by auto
  qed
  have ins: "ls @ p # bp # ys = ?b # xs @ bp # ys" using lp by (metis append_Cons append_Nil append_assoc)
  have db: "distinct (?b # as)" using so by (auto simp: strict_sorted_iff)
  then have d: "distinct (ls @ p # bp # ys)"
    unfolding ins using as nb bb by auto
  have eqs: "(set (ls @ p # bp # ys) - {?b}) \<union> (bs - {bp}) = set as \<union> bs"
    unfolding ins using as db bp bb by auto
  define u1 where "u1 = (if bp + 8 * h_size u bp = h_ptr u p
        then u\<lparr>h_size := (h_size u)(bp := h_size u bp + h_size u (h_ptr u p)),
               h_ptr := (h_ptr u)(bp := h_ptr u (h_ptr u p))\<rparr>
        else u\<lparr>h_ptr := (h_ptr u)(bp := h_ptr u p)\<rparr>)"
  obtain ys' where half: "half_linked u1 ls p bp ys' (bs - {bp})"
    and fb: "free_bytes u1 (bp # ys') = free_bytes u (bp # ys)"
    and ex1: "extent u bp \<subseteq> extent u1 bp"
  proof (rule free_link_right [OF _ _ pz hi bb d _ _ u1_def])
    show "chain (h_ptr u) ?b (ls @ p # ys) ?b" "successively (ends_before u) (ls @ p # ys)"
      unfolding lpys by fact+
    show "(set (ls @ p # bp # ys) - {?b}) \<inter> (bs - {bp}) = {}"
      unfolding ins using dj as by auto
    show "blocks_ok u ((set (ls @ p # bp # ys) - {?b}) \<union> (bs - {bp}))"
      unfolding eqs by fact
  qed
  have bu1: "base u1 = ?b" "brk u1 = brk u" "h_size u1 ?b = 0" "\<forall>x \<in> set xs. h_size u1 x = h_size u x"
    using z bb lo by (auto simp: u1_def)
  obtain as' where hw: "heap_wf (free_at u bp p) as' (bs - {bp})"
    and fb2: "free_bytes (free_at u bp p) as' = free_bytes u1 (xs @ bp # ys')"
    and ex2: "\<exists>r \<in> set as'. extent u1 bp \<subseteq> extent (free_at u bp p) r"
    unfolding free_at_def Let_def u1_def [symmetric]
    by (rule free_link_left [OF half _ _ _ refl]) (use bu1 bb lp pos in auto)
  have "free_bytes u1 (xs @ bp # ys') = free_bytes u xs \<union> free_bytes u1 (bp # ys')"
    using bu1(4) by (auto simp: free_bytes_def extent_def)
  also have "\<dots> = free_bytes u as \<union> extent u bp"
    unfolding fb as by (auto simp: free_bytes_def)
  finally have fb3: "free_bytes (free_at u bp p) as' = free_bytes u as \<union> extent u bp"
    using fb2 by simp
  have "p \<notin> bs"
  proof
    assume "p \<in> bs"
    moreover have "p \<in> set (?b # as)" using lpys by (metis in_set_conv_decomp)
    ultimately show False using dj blocks_ok_low [OF B, of ?b] by auto
  qed
  then have sizes: "\<forall>x \<in> bs - {bp}. h_size (free_at u bp p) x = h_size u x"
    by (auto simp: free_at_def Let_def)
  have ex3: "\<exists>r \<in> set as'. extent u bp \<subseteq> extent (free_at u bp p) r" using ex1 ex2 by blast
  have same: "brk (free_at u bp p) = brk u" "base (free_at u bp p) = ?b"
      "brk_max (free_at u bp p) = brk_max u"
    by (simp_all add: free_at_def Let_def)
  have fr: "free u (bp + 8) = Some (free_at u bp p)" by (simp add: free_def ff)
  show ?thesis by (rule that [OF fr hw fb3 ex3 sizes same])
qed

section \<open>malloc\<close>

text \<open>From \<open>p\<close> the loop visits \<open>rest\<close>, which ends with \<^verbatim>\<open>freep\<close>, and takes the first fit.\<close>

lemma malloc_loop_search:
  assumes "chain (h_ptr u) p rest (h_ptr u (freep u))" "rest \<noteq> []" "last rest = freep u"
    "freep u \<notin> set (butlast rest)" "h_ptr u prev = p"
  shows "(\<exists>q r. q \<in> set (prev # rest) \<and> r \<in> set rest \<and> h_ptr u q = r \<and> n \<le> h_size u r \<and>
              malloc_loop u n prev p = Some (take_block u n q r)) \<or>
         ((\<forall>r \<in> set rest. h_size u r < n) \<and>
          malloc_loop u n prev p =
            Option.bind (morecore u n) (\<lambda>(u', p').
              if p' = 0 then Some (u', 0) else malloc_loop u' n p' (h_ptr u' p')))"
  using assms
proof (induction rest arbitrary: prev p)
  case Nil
  then show ?case by simp
next
  case (Cons a rest)
  then have pa: "p = a" by simp
  show ?case
  proof (cases "n \<le> h_size u a")
    case True
    then show ?thesis using Cons.prems pa
      by (subst malloc_loop.simps, subst (2) malloc_loop.simps) auto
  next
    case False
    show ?thesis
    proof (cases "rest = []")
      case True
      then show ?thesis using False Cons.prems pa
        by (subst malloc_loop.simps, subst (2) malloc_loop.simps) auto
    next
      case ne: False
      then have "a \<noteq> freep u" using Cons.prems by auto
      then have step: "malloc_loop u n prev p = malloc_loop u n a (h_ptr u a)"
        using False pa by (subst malloc_loop.simps) simp
      show ?thesis
        using Cons.IH [of "h_ptr u a" a] Cons.prems ne False unfolding step by auto
    qed
  qed
qed

lemma ring_rotate:
  assumes "chain f b ns b" "a \<in> set ns" "distinct ns"
  obtains rest where "chain f (f a) rest (f a)" "rest \<noteq> []" "last rest = a"
    "a \<notin> set (butlast rest)" "set rest = set ns"
proof -
  from assms(2) obtain xs ys where ns: "ns = xs @ a # ys" by (meson split_list)
  have "chain f (f a) ys b" "chain f b xs a" using assms(1) unfolding ns by auto
  then have "chain f (f a) (ys @ xs @ [a]) (f a)" by auto
  moreover have "a \<notin> set (butlast (ys @ xs @ [a]))" "set (ys @ xs @ [a]) = set ns"
    using assms(3) by (auto simp: ns butlast_append)
  ultimately show ?thesis by (intro that [of "ys @ xs @ [a]"]) auto
qed

lemma chain_map: "chain f x ns y \<Longrightarrow> ns \<noteq> [] \<Longrightarrow> map f ns = tl ns @ [y]"
proof (induction ns arbitrary: x)
  case (Cons n ns)
  then show ?case by (cases ns) auto
qed simp

lemma ring_pred:
  assumes c: "chain f b (b # as) b" and d: "distinct (b # as)"
    and as: "as = xs @ r # ys" and q: "q \<in> set (b # as)" "f q = r"
  shows "q = last (b # xs)"
proof -
  have "map f (b # as) = as @ [b]" using chain_map [OF c] by simp
  then have "distinct (map f (b # as))" using d by simp
  then have inj: "inj_on f (set (b # as))" using distinct_map by blast
  have "chain f b ((butlast (b # xs)) @ last (b # xs) # (r # ys)) b"
    using c unfolding as by (metis append_Cons append_Nil append_assoc append_butlast_last_id list.distinct(1))
  then have "f (last (b # xs)) = r" using chain_next by fastforce
  moreover have "last (b # xs) \<in> set (b # as)" unfolding as by simp
  ultimately show ?thesis using inj_onD [OF inj] q by blast
qed

lemma heap_wf_take:
  assumes wf: "heap_wf u (xs @ p # ys) bs" and n: "1 \<le> n" "n \<le> h_size u p"
    and t: "take_block u n (last (base u # xs)) p = (u', r)"
  obtains as' where "heap_wf u' as' (insert (r - 8) bs)" "r - 8 \<notin> bs" "8 < r"
    "h_size u' (r - 8) = n" "\<forall>x \<in> bs. h_size u' x = h_size u x" "base u' = base u"
    "brk_max u' = brk_max u" "brk u' = brk u"
    "free_bytes u (xs @ p # ys) = free_bytes u' as' \<union> extent u' (r - 8)"
proof -
  let ?b = "base u" and ?q = "last (base u # xs)"
  from wf have c: "chain (h_ptr u) ?b (?b # xs @ p # ys) ?b"
    and s: "successively (ends_before u) (?b # xs @ p # ys)"
    and B: "blocks_ok u (set (xs @ p # ys) \<union> bs)" and z: "h_size u ?b = 0"
    and dj: "set (xs @ p # ys) \<inter> bs = {}" and pos: "0 < ?b" "?b + 8 \<le> brk u"
    by (auto simp: heap_wf_def)
  have so: "sorted_wrt (<) (?b # xs @ p # ys)" using s by (rule ends_before_sorted)
  then have d: "distinct (?b # xs @ p # ys)" by (auto simp: strict_sorted_iff)
  have qx: "?q \<in> set (?b # xs)" by (simp only: last_in_set list.distinct not_False_eq_True)
  have pb: "?b < p" using so by simp
  have s3: "successively (ends_before u) (?b # xs)" "ends_before u ?q p"
      "successively (ends_before u) (p # ys)"
    using s successively_append_iff [of "ends_before u" "?b # xs" "p # ys"] by simp_all
  define ls where "ls = butlast (?b # xs)"
  have ls: "?b # xs = ls @ [?q]" by (simp add: ls_def)
  have c1: "chain (h_ptr u) ?b ls ?q" "h_ptr u ?q = p" "chain (h_ptr u) (h_ptr u p) ys ?b"
  proof -
    have "chain (h_ptr u) ?b ((ls @ [?q]) @ p # ys) ?b" using c unfolding ls [symmetric] by simp
    then show "chain (h_ptr u) ?b ls ?q" "h_ptr u ?q = p" "chain (h_ptr u) (h_ptr u p) ys ?b"
      by auto
  qed
  have "distinct ((ls @ [?q]) @ p # ys)" using d unfolding ls [symmetric] by simp
  then have dq: "?q \<notin> set ls" "?q \<notin> set ys" "?q \<noteq> p" by auto
  show ?thesis
  proof (cases "h_size u p = n")
    case True
    with t have u': "u' = u\<lparr>h_ptr := (h_ptr u)(?q := h_ptr u p), freep := ?q\<rparr>" and r: "r = p + 8"
      by (auto simp: take_block_def)
    have "chain (h_ptr u') ?b ((ls @ [?q]) @ ys) ?b"
      using c1 dq by (auto simp: u')
    then have ch: "chain (h_ptr u') ?b (?b # xs @ ys) ?b" unfolding ls [symmetric] by simp
    have "ys = [] \<or> ends_before u ?q (hd ys)" "successively (ends_before u) ys"
      using s3(2,3) by (auto simp: successively_Cons ends_before_def)
    then have "successively (ends_before u) ((?b # xs) @ ys)"
      using s3(1) unfolding successively_append_iff by blast
    then have su: "successively (ends_before u') (?b # xs @ ys)"
      using succ_ends_cong [of "?b # xs @ ys" u' u] by (simp add: u')
    have "set (xs @ ys) \<union> insert p bs = set (xs @ p # ys) \<union> bs" by auto
    then have "blocks_ok u' (set (xs @ ys) \<union> insert p bs)"
      using B blocks_ok_cong [of u' u] by (simp add: u')
    then have "heap_wf u' (xs @ ys) (insert p bs)"
      using ch su z qx d dj pos unfolding heap_wf_def by (auto simp: u')
    then show ?thesis
      using True dj pb by (intro that [of "xs @ ys"]) (auto simp: r u' free_bytes_def extent_def)
  next
    case False
    then have lt: "n < h_size u p" using n by simp
    define q where "q = p + 8 * (h_size u p - n)"
    with False t have u': "u' = u\<lparr>h_size := (h_size u)(p := h_size u p - n, q := n), freep := ?q\<rparr>"
      and r: "r = q + 8" by (auto simp: take_block_def Let_def)
    have bq: "blocks_ok u' (insert q (set (xs @ p # ys) \<union> bs))" "q \<notin> set (xs @ p # ys) \<union> bs"
      using blocks_ok_split [OF B _ n(1) lt q_def, of u'] by (auto simp: u')
    have qp: "p < q" using lt by (simp add: q_def)
    have qb: "q \<noteq> ?b" using pb qp by simp
    have sz: "h_size u' x = h_size u x" if "x \<in> set (?b # xs) \<union> set ys \<union> bs" for x
      using that bq(2) d dj qb by (auto simp: u')
    have su: "successively (ends_before u') (?b # xs @ p # ys)"
    proof -
      have "successively (ends_before u') (?b # xs)" "successively (ends_before u') ys"
        using s3 sz succ_ends_cong [of "?b # xs" u' u] succ_ends_cong [of ys u' u]
        by (auto simp: successively_Cons)
      moreover have "ends_before u' ?q p"
        using s3(2) sz [of ?q] qx by (auto simp: ends_before_def)
      moreover have "ys = [] \<or> ends_before u' p (hd ys)"
        using s3(3) qp by (auto simp: successively_Cons ends_before_def u')
      ultimately have "successively (ends_before u') ((?b # xs) @ p # ys)"
        unfolding successively_append_iff successively_Cons by simp
      then show ?thesis by simp
    qed
    have hw: "heap_wf u' (xs @ p # ys) (insert q bs)"
      using c su z qx d dj pos bq qb sz [of ?b] unfolding heap_wf_def by (auto simp: u' insert_commute)
    have "extent u p = extent u' p \<union> extent u' q"
      using lt by (auto simp: extent_def u' q_def)
    moreover have "extent u' x = extent u x" if "x \<in> set (xs @ ys)" for x
      using that sz by (auto simp: extent_def)
    ultimately have "free_bytes u (xs @ p # ys) = free_bytes u' (xs @ p # ys) \<union> extent u' q"
      by (auto simp: free_bytes_def)
    then show ?thesis
      using hw bq qp pb sz by (intro that [of "xs @ p # ys"]) (auto simp: r u')
  qed
qed

lemma sint_units: "nu < 2 ^ 28 \<Longrightarrow> sint (of_nat nu * 8 :: u32) = 8 * int nu"
proof -
  assume a: "nu < 2 ^ 28"
  have "(of_nat nu * 8 :: u32) = of_int (8 * int nu)" by simp
  moreover have "sint (of_int (8 * int nu) :: u32) = 8 * int nu"
    unfolding signed_of_int using signed_take_bit_int_eq_self [of 31 "8 * int nu"] a by simp
  ultimately show ?thesis by (simp only:)
qed

lemma heap_wf_grow:
  assumes wf: "heap_wf u as bs" and nu: "1 \<le> nu"
    and u2: "u2 = u\<lparr>brk := brk u + 8 * nu, h_size := (h_size u)(brk u := nu)\<rparr>"
  shows "heap_wf u2 as (insert (brk u) bs)" "brk u \<notin> bs"
    "\<forall>x \<in> bs. h_size u2 x = h_size u x" "extent u2 (brk u) = {brk u ..< brk u + 8 * nu}"
proof -
  from wf have B: "blocks_ok u (set as \<union> bs)" by (simp add: heap_wf_def)
  have lt: "x + 8 * h_size u x \<le> brk u" "1 \<le> h_size u x" "base u + 8 \<le> x"
    if "x \<in> set as \<union> bs" for x
    using B that unfolding blocks_ok_def by blast+
  have nin: "brk u \<notin> set as \<union> bs" using lt by force
  then show nb: "brk u \<notin> bs" by simp
  have bb: "brk u \<noteq> base u" using wf by (auto simp: heap_wf_def)
  have sz: "h_size u2 x = h_size u x" if "x \<in> set as \<union> bs \<union> {base u}" for x
    using that nin bb by (auto simp: u2)
  show "\<forall>x \<in> bs. h_size u2 x = h_size u x" using sz by blast
  show ext: "extent u2 (brk u) = {brk u ..< brk u + 8 * nu}" by (simp add: extent_def u2)
  have ex: "extent u2 x = extent u x" if "x \<in> set as \<union> bs" for x
    using that sz by (auto simp: extent_def)
  have ds: "extent u x \<inter> {brk u ..< brk u + 8 * nu} = {}" if "x \<in> set as \<union> bs" for x
    using lt [OF that] by (auto simp: extent_def)
  have old: "extent u x \<inter> extent u y = {}" if "x \<in> set as \<union> bs" "y \<in> set as \<union> bs" "x \<noteq> y" for x y
    using B that unfolding blocks_ok_def by blast
  have "extent u2 x \<inter> extent u2 y = {}"
    if "x \<in> insert (brk u) (set as \<union> bs)" "y \<in> insert (brk u) (set as \<union> bs)" "x \<noteq> y" for x y
    using that ex ds [of x] ds [of y] old [of x y] ext nin
    by (cases "x = brk u"; cases "y = brk u") (simp_all add: Int_commute)
  moreover have "1 \<le> h_size u2 x \<and> base u2 + 8 \<le> x \<and> x + 8 * h_size u2 x \<le> brk u2"
    if "x \<in> insert (brk u) (set as \<union> bs)" for x
  proof (cases "x = brk u")
    case True
    then show ?thesis using nu wf by (simp add: u2 heap_wf_def)
  next
    case False
    then have "x \<in> set as \<union> bs" using that by simp
    then show ?thesis using lt [of x] sz [of x] by (simp add: u2)
  qed
  ultimately have "blocks_ok u2 (insert (brk u) (set as \<union> bs))"
    unfolding blocks_ok_def by blast
  moreover have "successively (ends_before u2) (base u # as)"
  proof -
    have "\<forall>x \<in> set (base u # as). h_size u2 x = h_size u x" using sz by auto
    moreover have "successively (ends_before u) (base u # as)" using wf by (simp add: heap_wf_def)
    ultimately show ?thesis using succ_ends_cong by blast
  qed
  moreover have "chain (h_ptr u2) (base u) (base u # as) (base u)" "0 < base u" "base u + 8 \<le> brk u"
    "freep u2 \<in> set (base u # as)" "h_size u2 (base u) = 0" "set as \<inter> bs = {}"
    using wf bb by (simp_all add: heap_wf_def u2)
  ultimately show "heap_wf u2 as (insert (brk u) bs)"
    unfolding heap_wf_def using nin by (simp add: u2)
qed

lemma heap_wf_freep:
  assumes wf: "heap_wf u as bs"
  shows "freep u \<noteq> 0"
proof -
  have "\<forall>x \<in> set as. base u + 8 \<le> x" "0 < base u" "freep u \<in> insert (base u) (set as)"
    using wf by (auto simp: heap_wf_def blocks_ok_def)
  then show ?thesis by auto
qed

lemma morecore_spec:
  assumes wf: "heap_wf u as bs" and n: "n < 2 ^ 28"
  obtains (none) "morecore u n = Some (u, 0)"
  | (more) u' as' where "morecore u n = Some (u', freep u')" "freep u' \<noteq> 0" "heap_wf u' as' bs"
      "\<exists>r \<in> set as'. n \<le> h_size u' r" "\<forall>x \<in> bs. h_size u' x = h_size u x" "base u' = base u"
proof -
  define nu where "nu = (if n < 4096 then 4096 else n)"
  have nu: "1 \<le> nu" "n \<le> nu" "nu < 2 ^ 28" using n by (auto simp: nu_def)
  show ?thesis
  proof (cases "brk u + 8 * nu \<le> brk_max u")
    case False
    have "sbrk (sint (of_nat nu * 8 :: u32)) u = (u, -1)"
      using False nu unfolding sint_units [OF nu(3)] by (simp add: sbrk_def nat_mult_distrib)
    then have "morecore u n = Some (u, 0)"
      by (simp add: morecore_def Let_def nu_def [symmetric])
    then show ?thesis by (rule none)
  next
    case True
    have sb: "sbrk (sint (of_nat nu * 8 :: u32)) u = (u\<lparr>brk := brk u + 8 * nu\<rparr>, int (brk u))"
      using True nu unfolding sint_units [OF nu(3)] by (simp add: sbrk_def nat_mult_distrib)
    define u2 where "u2 = u\<lparr>brk := brk u + 8 * nu, h_size := (h_size u)(brk u := nu)\<rparr>"
    note grow = heap_wf_grow [OF wf nu(1) u2_def]
    obtain u3 as3 where fr: "free u2 (brk u + 8) = Some u3"
      and hw: "heap_wf u3 as3 (insert (brk u) bs - {brk u})"
      and ex: "\<exists>r \<in> set as3. extent u2 (brk u) \<subseteq> extent u3 r"
      and sz: "\<forall>x \<in> insert (brk u) bs - {brk u}. h_size u3 x = h_size u2 x"
      and bs3: "base u3 = base u2"
      by (rule heap_wf_free [OF grow(1) insertI1], rule that; assumption)
    have hw3: "heap_wf u3 as3 bs" using hw grow(2) by (simp add: Diff_insert_absorb)
    obtain r where r: "r \<in> set as3" "{brk u ..< brk u + 8 * nu} \<subseteq> {r ..< r + 8 * h_size u3 r}"
      using ex grow(4) by (auto simp: extent_def)
    have "nu \<le> h_size u3 r" using r(2) nu(1) by (simp add: ivl_subset)
    then have big: "\<exists>r \<in> set as3. n \<le> h_size u3 r" using r(1) nu(2) by (meson le_trans)
    have mc: "morecore u n = Some (u3, freep u3)"
      using sb fr by (simp add: morecore_def Let_def nu_def [symmetric] u2_def)
    have "\<forall>x \<in> bs. h_size u3 x = h_size u x"
      using sz grow(2,3) by auto
    moreover have "base u3 = base u" using bs3 by (simp add: u2_def)
    ultimately show ?thesis by (rule more [OF mc heap_wf_freep [OF hw3] hw3 big])
  qed
qed


section \<open>The contract of malloc and free\<close>

text \<open>
  \<open>heap_ok u bs\<close>: \<open>bs\<close> are the headers of the blocks in use; the list is well formed or
  not yet set up by a first call.
\<close>

definition heap_ok :: "umalloc \<Rightarrow> nat set \<Rightarrow> bool" where
  "heap_ok u bs \<longleftrightarrow>
     (freep u = 0 \<and> bs = {} \<and> 0 < base u \<and> base u + 8 \<le> brk u) \<or> (\<exists>as. heap_wf u as bs)"

lemma heap_ok_start:
  assumes "heap_ok u bs"
  obtains as where "heap_wf (if freep u = 0
      then u\<lparr>h_ptr := (h_ptr u)(base u := base u), h_size := (h_size u)(base u := 0),
             freep := base u\<rparr> else u) as bs"
proof (cases "freep u = 0")
  case True
  have "\<nexists>as. heap_wf u as bs"
    using True heap_wf_freep by blast
  then have "bs = {}" "0 < base u" "base u + 8 \<le> brk u" using assms by (auto simp: heap_ok_def)
  with True show ?thesis
    by (intro that [of "[]"]) (auto simp: heap_wf_def blocks_ok_def)
next
  case False
  with assms that show ?thesis by (auto simp: heap_ok_def)
qed

lemma malloc_units_eq:
  assumes "unat nbytes < 2 ^ 31 - 16"
  shows "malloc_units nbytes = (unat nbytes + 7) div 8 + 1"
proof -
  have a: "unat (nbytes + 8 - 1) = unat nbytes + 7"
  proof -
    have "nbytes + 8 - 1 = nbytes + (7 :: u32)" by simp
    then show ?thesis using assms by (simp add: unat_word_ariths)
  qed
  then have "unat ((nbytes + 8 - 1) div 8) = (unat nbytes + 7) div 8"
    by (simp add: unat_div)
  then show ?thesis using assms by (simp add: malloc_units_def unat_word_ariths)
qed

lemma malloc_search:
  assumes wf: "heap_wf u as bs" and n: "1 \<le> n"
  shows "(\<exists>xs p ys. as = xs @ p # ys \<and> n \<le> h_size u p \<and>
            malloc_loop u n (freep u) (h_ptr u (freep u)) =
              Some (take_block u n (last (base u # xs)) p)) \<or>
         ((\<forall>r \<in> set as. h_size u r < n) \<and>
          malloc_loop u n (freep u) (h_ptr u (freep u)) =
            Option.bind (morecore u n) (\<lambda>(u', p').
              if p' = 0 then Some (u', 0) else malloc_loop u' n p' (h_ptr u' p')))"
proof -
  have c: "chain (h_ptr u) (base u) (base u # as) (base u)" and f: "freep u \<in> set (base u # as)"
    and z: "h_size u (base u) = 0" using wf by (auto simp: heap_wf_def)
  have "successively (ends_before u) (base u # as)" using wf by (simp add: heap_wf_def)
  then have d: "distinct (base u # as)"
    using ends_before_sorted strict_sorted_iff by blast
  obtain rest where rest: "chain (h_ptr u) (h_ptr u (freep u)) rest (h_ptr u (freep u))" "rest \<noteq> []"
      "last rest = freep u" "freep u \<notin> set (butlast rest)" and sr: "set rest = set (base u # as)"
    by (rule ring_rotate [OF c f d])
  from malloc_loop_search [OF rest refl, of n] show ?thesis
  proof (elim disjE exE conjE)
    fix q r
    assume q: "q \<in> set (freep u # rest)" and r: "r \<in> set rest" "h_ptr u q = r" "n \<le> h_size u r"
      and m: "malloc_loop u n (freep u) (h_ptr u (freep u)) = Some (take_block u n q r)"
    have "r \<noteq> base u" using r n z by auto
    then have "r \<in> set as" using r sr by auto
    then obtain xs ys where as: "as = xs @ r # ys" by (meson split_list)
    have "q \<in> set (base u # as)" using q f sr by auto
    then have "q = last (base u # xs)" using ring_pred [OF c d as] r by blast
    then show ?thesis using as m r by blast
  next
    assume "\<forall>r \<in> set rest. h_size u r < n"
    then have "\<forall>r \<in> set as. h_size u r < n" using sr by auto
    then show ?thesis
      if "malloc_loop u n (freep u) (h_ptr u (freep u)) =
            Option.bind (morecore u n) (\<lambda>(u', p').
              if p' = 0 then Some (u', 0) else malloc_loop u' n p' (h_ptr u' p'))"
      using that by blast
  qed
qed

lemma malloc_take:
  assumes wf: "heap_wf u as bs" and n: "1 \<le> n" and as: "as = xs @ p # ys" "n \<le> h_size u p"
  shows "\<exists>u' r. take_block u n (last (base u # xs)) p = (u', r) \<and> 8 < r \<and> r - 8 \<notin> bs \<and>
     heap_ok u' (insert (r - 8) bs) \<and> h_size u' (r - 8) = n \<and>
     (\<forall>x \<in> bs. h_size u' x = h_size u x)"
proof -
  obtain u' r where t: "take_block u n (last (base u # xs)) p = (u', r)" by fastforce
  obtain as' where "heap_wf u' as' (insert (r - 8) bs)" "r - 8 \<notin> bs" "8 < r"
    "h_size u' (r - 8) = n" "\<forall>x \<in> bs. h_size u' x = h_size u x"
    by (rule heap_wf_take [OF wf [unfolded as(1)] n as(2) t], rule that; assumption)
  then show ?thesis using t by (auto simp: heap_ok_def)
qed

lemma malloc_loop_spec:
  assumes wf: "heap_wf u as bs" and n: "1 \<le> n" "n < 2 ^ 28"
  shows "\<exists>u' r. malloc_loop u n (freep u) (h_ptr u (freep u)) = Some (u', r) \<and>
     (r = 0 \<longrightarrow> heap_ok u' bs) \<and>
     (r \<noteq> 0 \<longrightarrow> 8 < r \<and> r - 8 \<notin> bs \<and> heap_ok u' (insert (r - 8) bs) \<and> h_size u' (r - 8) = n) \<and>
     (\<forall>x \<in> bs. h_size u' x = h_size u x)"
  using malloc_search [OF wf n(1)]
proof (elim disjE exE conjE)
  fix xs p ys
  assume "as = xs @ p # ys" "n \<le> h_size u p"
    and "malloc_loop u n (freep u) (h_ptr u (freep u)) = Some (take_block u n (last (base u # xs)) p)"
  then show ?thesis using malloc_take [OF wf n(1)] by fastforce
next
  assume m: "malloc_loop u n (freep u) (h_ptr u (freep u)) =
      Option.bind (morecore u n) (\<lambda>(u', p').
        if p' = 0 then Some (u', 0) else malloc_loop u' n p' (h_ptr u' p'))"
  show ?thesis
  proof (rule morecore_spec [OF wf n(2)])
    assume "morecore u n = Some (u, 0)"
    then show ?thesis using m wf by (auto simp: heap_ok_def)
  next
    fix u1 as1
    assume mc: "morecore u n = Some (u1, freep u1)" and fp: "freep u1 \<noteq> 0" and wf1: "heap_wf u1 as1 bs"
      and big: "\<exists>r \<in> set as1. n \<le> h_size u1 r" and sz: "\<forall>x \<in> bs. h_size u1 x = h_size u x"
    have eq: "malloc_loop u n (freep u) (h_ptr u (freep u)) =
        malloc_loop u1 n (freep u1) (h_ptr u1 (freep u1))"
      using m mc fp by simp
    from malloc_search [OF wf1 n(1)] big obtain xs p ys where "as1 = xs @ p # ys" "n \<le> h_size u1 p"
      "malloc_loop u1 n (freep u1) (h_ptr u1 (freep u1)) =
         Some (take_block u1 n (last (base u1 # xs)) p)"
      by fastforce
    then show ?thesis using malloc_take [OF wf1 n(1)] sz unfolding eq by fastforce
  qed
qed

lemma malloc_spec:
  assumes "heap_ok u bs" and "unat nbytes < 2 ^ 31 - 16"
  shows "\<exists>u' p. malloc u nbytes = Some (u', p) \<and>
     (p = 0 \<longrightarrow> heap_ok u' bs) \<and>
     (p \<noteq> 0 \<longrightarrow> 8 < p \<and> p - 8 \<notin> bs \<and> heap_ok u' (insert (p - 8) bs) \<and>
        unat nbytes \<le> 8 * (h_size u' (p - 8) - 1)) \<and>
     (\<forall>x \<in> bs. h_size u' x = h_size u x)"
proof -
  define n where "n = malloc_units nbytes"
  have n: "1 \<le> n" "n < 2 ^ 28" "unat nbytes \<le> 8 * (n - 1)"
    using malloc_units_eq [OF assms(2)] assms(2) by (simp_all add: n_def)
  define u1 where "u1 = (if freep u = 0
      then u\<lparr>h_ptr := (h_ptr u)(base u := base u), h_size := (h_size u)(base u := 0),
             freep := base u\<rparr> else u)"
  obtain as where wf: "heap_wf u1 as bs"
    unfolding u1_def by (rule heap_ok_start [OF assms(1)])
  have sz: "\<forall>x \<in> bs. h_size u1 x = h_size u x"
    using assms(1) by (auto simp: u1_def heap_ok_def heap_wf_def blocks_ok_def)
  have "malloc u nbytes = malloc_loop u1 n (freep u1) (h_ptr u1 (freep u1))"
    by (simp add: malloc_def Let_def u1_def n_def)
  then show ?thesis using malloc_loop_spec [OF wf n(1,2)] sz n(3) by fastforce
qed

lemma free_spec:
  assumes "heap_ok u bs" and "bp \<in> bs"
  shows "\<exists>u'. free u (bp + 8) = Some u' \<and> heap_ok u' (bs - {bp})"
proof -
  obtain as where "heap_wf u as bs" using assms by (auto simp: heap_ok_def)
  from this assms(2) show ?thesis
  proof (rule heap_wf_free)
    fix u' as'
    assume "free u (bp + 8) = Some u'" "heap_wf u' as' (bs - {bp})"
    then show ?thesis by (auto simp: heap_ok_def)
  qed
qed

lemma heap_ok_low:
  assumes "heap_ok u bs" and "b \<in> bs"
  shows "8 < b" "1 \<le> h_size u b" "b + 8 * h_size u b \<le> brk u"
proof -
  obtain as where "heap_wf u as bs" using assms by (auto simp: heap_ok_def)
  then have "0 < base u" "\<forall>x \<in> set as \<union> bs. base u + 8 \<le> x \<and> 1 \<le> h_size u x \<and> x + 8 * h_size u x \<le> brk u"
    by (simp_all add: heap_wf_def blocks_ok_def)
  then have "0 < base u \<and> base u + 8 \<le> b \<and> 1 \<le> h_size u b \<and> b + 8 * h_size u b \<le> brk u"
    using assms(2) by blast
  then show "8 < b" "1 \<le> h_size u b" "b + 8 * h_size u b \<le> brk u" by linarith+
qed

lemma heap_ok_disjoint:
  assumes "heap_ok u bs" and "a \<in> bs" and "b \<in> bs" and "a \<noteq> b"
  shows "extent u a \<inter> extent u b = {}"
proof -
  obtain as where "heap_wf u as bs" using assms by (auto simp: heap_ok_def)
  then have "\<forall>x \<in> set as \<union> bs. \<forall>y \<in> set as \<union> bs. x \<noteq> y \<longrightarrow> extent u x \<inter> extent u y = {}"
    by (simp add: heap_wf_def blocks_ok_def)
  then show ?thesis using assms by blast
qed

section \<open>The allocator interface\<close>

text \<open>
  What a client of \<^verbatim>\<open>malloc\<close> and \<^verbatim>\<open>free\<close> relies on: \<open>ok h L\<close> says that the heap \<open>h\<close> is sound
  and \<open>L\<close> are the pointers handed out and not yet freed.
\<close>

locale allocator =
  fixes mal :: "'h \<Rightarrow> u32 \<Rightarrow> ('h \<times> nat) option"
    and fr :: "'h \<Rightarrow> nat \<Rightarrow> 'h option"
    and ok :: "'h \<Rightarrow> nat set \<Rightarrow> bool"
  assumes mal_ok: "ok h L \<Longrightarrow> unat n < 2 ^ 31 - 16 \<Longrightarrow>
      \<exists>h' p. mal h n = Some (h', p) \<and> (p = 0 \<longrightarrow> ok h' L) \<and> (p \<noteq> 0 \<longrightarrow> p \<notin> L \<and> ok h' (insert p L))"
    and fr_ok: "ok h L \<Longrightarrow> p \<in> L \<Longrightarrow> \<exists>h'. fr h p = Some h' \<and> ok h' (L - {p})"
    and null_free: "ok h L \<Longrightarrow> 0 \<notin> L"

definition in_use :: "umalloc \<Rightarrow> nat set \<Rightarrow> bool" where
  "in_use u L \<longleftrightarrow> heap_ok u ((\<lambda>p. p - 8) ` L) \<and> (\<forall>p \<in> L. 8 \<le> p)"

lemma in_use_inj: "\<forall>p \<in> L. 8 \<le> p \<Longrightarrow> inj_on (\<lambda>p :: nat. p - 8) L"
  by (rule inj_onI) (metis le_add_diff_inverse)

interpretation heap: allocator malloc free in_use
proof unfold_locales
  fix u L and n :: u32
  assume a: "in_use u L" and n: "unat n < 2 ^ 31 - 16"
  obtain u' p where m: "malloc u n = Some (u', p)"
    and z: "p = 0 \<longrightarrow> heap_ok u' ((\<lambda>p. p - 8) ` L)"
    and nz: "p \<noteq> 0 \<longrightarrow> 8 < p \<and> p - 8 \<notin> (\<lambda>p. p - 8) ` L \<and> heap_ok u' (insert (p - 8) ((\<lambda>p. p - 8) ` L))"
    using malloc_spec [OF _ n] a unfolding in_use_def by blast
  show "\<exists>u' p. malloc u n = Some (u', p) \<and> (p = 0 \<longrightarrow> in_use u' L) \<and>
      (p \<noteq> 0 \<longrightarrow> p \<notin> L \<and> in_use u' (insert p L))"
    using m z nz a by (auto simp: in_use_def)
next
  fix u L p
  assume a: "in_use u L" and p: "p \<in> L"
  have "p - 8 + 8 = p" and inj: "inj_on (\<lambda>p. p - 8) L" using a p in_use_inj by (auto simp: in_use_def)
  then obtain u' where "free u p = Some u'" "heap_ok u' ((\<lambda>p. p - 8) ` L - {p - 8})"
    using free_spec [of u "(\<lambda>p. p - 8) ` L" "p - 8"] a p by (auto simp: in_use_def)
  moreover have "(\<lambda>p. p - 8) ` L - {p - 8} = (\<lambda>p. p - 8) ` (L - {p})"
    using inj_on_image_set_diff [OF inj, of L "{p}"] p by simp
  ultimately show "\<exists>u'. free u p = Some u' \<and> in_use u' (L - {p})"
    using a by (auto simp: in_use_def)
next
  fix u L
  assume "in_use u L"
  then show "0 \<notin> L" by (auto simp: in_use_def)
qed

section \<open>Properties\<close>

text \<open>
  C6: on a well-formed heap \<^verbatim>\<open>malloc\<close> returns (the search loop ends after at most one
  \<^verbatim>\<open>morecore\<close>). A null result leaves the blocks in use as they were; otherwise the
  bytes asked for lie inside the process, overlap no block in use nor its header,
  and the heap is well formed with the new block added.
\<close>

theorem malloc_correct:
  assumes "heap_ok u bs" and "unat nbytes < 2 ^ 31 - 16"
  shows "\<exists>u' p. malloc u nbytes = Some (u', p) \<and>
     (p = 0 \<longrightarrow> heap_ok u' bs) \<and>
     (p \<noteq> 0 \<longrightarrow> heap_ok u' (insert (p - 8) bs) \<and> p + unat nbytes \<le> brk u' \<and>
        (\<forall>x \<in> bs. {p ..< p + unat nbytes} \<inter> extent u x = {})) \<and>
     (\<forall>x \<in> bs. h_size u' x = h_size u x)"
proof -
  obtain u' p where m: "malloc u nbytes = Some (u', p)" and z: "p = 0 \<longrightarrow> heap_ok u' bs"
    and nz: "p \<noteq> 0 \<longrightarrow> 8 < p \<and> p - 8 \<notin> bs \<and> heap_ok u' (insert (p - 8) bs) \<and>
        unat nbytes \<le> 8 * (h_size u' (p - 8) - 1)"
    and sz: "\<forall>x \<in> bs. h_size u' x = h_size u x"
    using malloc_spec [OF assms] by blast
  have "p + unat nbytes \<le> brk u' \<and> (\<forall>x \<in> bs. {p ..< p + unat nbytes} \<inter> extent u x = {})"
    if "p \<noteq> 0"
  proof -
    from that nz have 8: "8 < p" and ok: "heap_ok u' (insert (p - 8) bs)"
      and le: "unat nbytes \<le> 8 * (h_size u' (p - 8) - 1)" and new: "p - 8 \<notin> bs" by auto
    note low = heap_ok_low [OF ok insertI1]
    have sub: "p + unat nbytes \<le> p - 8 + 8 * h_size u' (p - 8)" using low(2) le 8 by linarith
    then have "{p ..< p + unat nbytes} \<subseteq> extent u' (p - 8)" by (auto simp: extent_def)
    moreover have "extent u' (p - 8) \<inter> extent u x = {}" if x: "x \<in> bs" for x
    proof -
      have "extent u x = extent u' x" using sz x by (simp add: extent_def)
      then show ?thesis using heap_ok_disjoint [OF ok insertI1 insertI2 [OF x]] x new by auto
    qed
    ultimately show ?thesis using sub low(3) by fastforce
  qed
  then show ?thesis using m z nz sz by blast
qed

theorem malloc_correct_witness:
  "\<exists>u' p. malloc \<lparr>h_ptr = \<lambda>_. 0, h_size = \<lambda>_. 0, base = 4096, freep = 0, brk = 12288,
                  brk_max = 200000\<rparr> 100 = Some (u', p) \<and>
     (p = 0 \<longrightarrow> heap_ok u' {}) \<and>
     (p \<noteq> 0 \<longrightarrow> heap_ok u' (insert (p - 8) {}) \<and> p + 100 \<le> brk u')"
  using malloc_correct [of "\<lparr>h_ptr = \<lambda>_. 0, h_size = \<lambda>_. 0, base = 4096, freep = 0, brk = 12288,
                  brk_max = 200000\<rparr>" "{}" 100]
  by (simp add: heap_ok_def)

text \<open>
  C7: \<^verbatim>\<open>free\<close> of a block in use returns (its search loop ends); the heap stays well formed
  and coalesced without that block, exactly the bytes of the block become free, and
  every other block in use keeps its header.
\<close>

theorem free_correct:
  assumes "heap_wf u as bs" and "bp \<in> bs"
  shows "\<exists>u' as'. free u (bp + 8) = Some u' \<and> heap_wf u' as' (bs - {bp}) \<and>
     free_bytes u' as' = free_bytes u as \<union> extent u bp \<and>
     (\<forall>x \<in> bs - {bp}. h_size u' x = h_size u x)"
  by (rule heap_wf_free [OF assms]) blast

theorem free_correct_witness:
  "\<exists>u' as'. free \<lparr>h_ptr = \<lambda>_. 4096, h_size = (\<lambda>_. 0)(12288 := 2), base = 4096, freep = 4096,
                  brk = 12304, brk_max = 200000\<rparr> (12288 + 8) = Some u' \<and>
     heap_wf u' as' ({12288} - {12288}) \<and>
     free_bytes u' as' = free_bytes \<lparr>h_ptr = \<lambda>_. 4096, h_size = (\<lambda>_. 0)(12288 := 2), base = 4096,
        freep = 4096, brk = 12304, brk_max = 200000\<rparr> [] \<union> {12288 ..< 12304}"
  using free_correct [of "\<lparr>h_ptr = \<lambda>_. 4096, h_size = (\<lambda>_. 0)(12288 := 2), base = 4096,
        freep = 4096, brk = 12304, brk_max = 200000\<rparr>" "[]" "{12288}" 12288]
  by (simp add: heap_wf_def blocks_ok_def extent_def)


end
