(* ===== verification/Uthread.thy ===== *)
theory Uthread
  imports Umalloc
begin

text \<open>
  The user-level threads of \<^verbatim>\<open>uthread.c\<close> and \<^verbatim>\<open>uthread.h\<close>: the thread table, creation, the
  two scheduling policies, the stack switch of \<^verbatim>\<open>uthread_yield\<close> and \<^verbatim>\<open>uthread_exit\<close>. The
  operations take the allocator they call as arguments; the last section runs them
  on \<^verbatim>\<open>umalloc.c\<close>. Thread control blocks live at the addresses \<^verbatim>\<open>malloc\<close> returned. An
  access to \<^verbatim>\<open>ut_table.threads\<close> outside its 64 entries and the dereference of a null
  entry are undefined in C and are \<open>Panic\<close> here; a loop that never ends is \<open>Spin\<close>.
\<close>

section \<open>State\<close>

datatype sched_policy = ROUND_ROBIN | PRIORITY_BASED

record uthread_t =
  tid :: int
  ss_sp :: nat
  ss_esp :: nat
  ss_ebp :: nat
  priority :: int
  entryfunc :: nat
  virgin :: bool

text \<open>What the macros \<^verbatim>\<open>PUSH\<close> and \<^verbatim>\<open>CALL\<close> leave on a stack.\<close>

datatype stack_word = Arg nat | RetYield | RetExit | RetStart

record 'h ut_state =
  heap :: 'h
  first_uthread :: bool
  cur_threads :: int
  highest_p :: int
  threads :: "nat list"
  running_tid :: int
  tcb :: "nat \<Rightarrow> uthread_t"
  esp :: nat
  ebp :: nat
  stack :: "nat \<Rightarrow> stack_word"
  s_self :: nat
  s_next :: nat
  s_self_tid :: int

text \<open>Where control goes when a routine leaves: back to its caller, into the saved frame of a
  thread, into \<^verbatim>\<open>wrap_function\<close> with an entry function, or out of the process.\<close>

datatype control = Returns int | Resumes | Enters nat | Exits

abbreviation (input) MAX_UTHREADS :: nat where "MAX_UTHREADS \<equiv> 64"
abbreviation (input) UTHREAD_STACK_SIZE :: nat where "UTHREAD_STACK_SIZE \<equiv> 4000"

section \<open>Operations\<close>

text \<open>The \<^verbatim>\<open>for\<close> loop of \<^verbatim>\<open>uthread_create\<close>: first empty entry, or the length of the table.\<close>

primrec find_slot :: "nat list \<Rightarrow> nat" where
  "find_slot [] = 0"
| "find_slot (p # ps) = (if p = 0 then 0 else Suc (find_slot ps))"

definition ut_table_init :: "'h ut_state \<Rightarrow> 'h ut_state" where
  "ut_table_init st =
     (if first_uthread st
      then st\<lparr>cur_threads := 0, highest_p := 9, running_tid := -1,
              threads := replicate MAX_UTHREADS 0, first_uthread := False\<rparr>
      else st)"

text \<open>The assignments once both blocks are allocated.\<close>

definition ut_enter :: "nat \<Rightarrow> nat \<Rightarrow> nat \<Rightarrow> int \<Rightarrow> nat \<Rightarrow> 'h ut_state \<Rightarrow> 'h ut_state" where
  "ut_enter start_func p sp prio ut_id st =
     st\<lparr>tcb := (tcb st)(p := \<lparr>tid = int ut_id, ss_sp = sp, ss_esp = sp + (UTHREAD_STACK_SIZE - 4),
                              ss_ebp = sp + (UTHREAD_STACK_SIZE - 4), priority = prio,
                              entryfunc = start_func, virgin = True\<rparr>),
        cur_threads := cur_threads st + 1,
        highest_p := (if highest_p st > prio then prio else highest_p st)\<rparr>"

definition uthread_create ::
  "('h \<Rightarrow> u32 \<Rightarrow> ('h \<times> nat) option) \<Rightarrow> ('h \<Rightarrow> nat \<Rightarrow> 'h option) \<Rightarrow> nat \<Rightarrow> int \<Rightarrow> ('h ut_state, int) kernel" where
  "uthread_create mal fr start_func prio st0 =
     (let st = ut_table_init st0 in
      if cur_threads st = int MAX_UTHREADS then Ok (-1) st
      else let ut_id = find_slot (threads st) in
        if ut_id \<ge> MAX_UTHREADS then Panic ''threads[MAX_UTHREADS]''
        else case mal (heap st) 28 of None \<Rightarrow> Spin st | Some (h, p) \<Rightarrow>
          let st1 = st\<lparr>heap := h, threads := (threads st)[ut_id := p]\<rparr> in
          if p = 0 then Ok (-1) st1
          else case mal h (of_nat UTHREAD_STACK_SIZE) of None \<Rightarrow> Spin st1 | Some (h', sp) \<Rightarrow>
            let st2 = st1\<lparr>heap := h', tcb := (tcb st1)(p := (tcb st1 p)\<lparr>ss_sp := sp\<rparr>)\<rparr> in
            if sp = 0 then
              (case fr h' p of None \<Rightarrow> Spin st2 | Some h'' \<Rightarrow> Ok (-1) (st2\<lparr>heap := h''\<rparr>))
            else Ok (int ut_id) (ut_enter start_func p sp prio ut_id st2))"

partial_function (option) next_thread :: "sched_policy \<Rightarrow> 'h ut_state \<Rightarrow> nat \<Rightarrow> nat option" where
  "next_thread sched st start =
     (let nxt = threads st ! start in
      if nxt \<noteq> 0 \<and> (sched = ROUND_ROBIN \<or> priority (tcb st nxt) = highest_p st) then Some nxt
      else next_thread sched st ((start + 1) mod MAX_UTHREADS))"

text \<open>\<^verbatim>\<open>ut_table.threads[ut_table.running_tid]\<close>, dereferenced.\<close>

definition running :: "('h ut_state, nat) kernel" where
  "running st =
     (if running_tid st < 0 \<or> running_tid st \<ge> int MAX_UTHREADS then Panic ''threads[running_tid]''
      else if threads st ! nat (running_tid st) = 0 then Panic ''null thread''
      else Ok (threads st ! nat (running_tid st)) st)"

definition uthread_self :: "('h ut_state, uthread_t) kernel" where
  "uthread_self st = bind running (\<lambda>p. gets_st (\<lambda>st. tcb st p)) st"

text \<open>\<^verbatim>\<open>PUSH\<close> and \<^verbatim>\<open>CALL(wrap_function)\<close> on the stack that \<^verbatim>\<open>LOAD_ESP\<close> installed.\<close>

definition PUSH :: "stack_word \<Rightarrow> 'h ut_state \<Rightarrow> 'h ut_state" where
  "PUSH w st = st\<lparr>esp := esp st - 4, stack := (stack st)(esp st - 4 := w)\<rparr>"

definition call_wrap :: "stack_word \<Rightarrow> nat \<Rightarrow> 'h ut_state \<Rightarrow> 'h ut_state" where
  "call_wrap ra nxt st =
     PUSH ra (PUSH (Arg (entryfunc (tcb st nxt)))
       (st\<lparr>tcb := (tcb st)(nxt := (tcb st nxt)\<lparr>virgin := False\<rparr>)\<rparr>))"

text \<open>From the choice of the next thread to the end of \<^verbatim>\<open>uthread_yield\<close> and \<^verbatim>\<open>uthread_exit\<close>.\<close>

definition switch_to :: "sched_policy \<Rightarrow> stack_word \<Rightarrow> nat \<Rightarrow> ('h ut_state, control) kernel" where
  "switch_to sched ra start st =
     (case next_thread sched st start of None \<Rightarrow> Spin st | Some nxt \<Rightarrow>
        let st1 = st\<lparr>s_next := nxt, running_tid := tid (tcb st nxt),
                     esp := ss_esp (tcb st nxt), ebp := ss_ebp (tcb st nxt)\<rparr> in
        if virgin (tcb st nxt) then Ok (Enters (entryfunc (tcb st nxt))) (call_wrap ra nxt st1)
        else Ok Resumes st1)"

definition uthread_yield :: "sched_policy \<Rightarrow> ('h ut_state, control) kernel" where
  "uthread_yield sched st =
     bind uthread_self (\<lambda>self st.
       let me = threads st ! nat (tid self);
           st1 = st\<lparr>s_self := me,
                    tcb := (tcb st)(me := (tcb st me)\<lparr>ss_esp := esp st, ss_ebp := ebp st\<rparr>)\<rparr>
       in switch_to sched RetYield ((nat (tid (tcb st1 me)) + 1) mod MAX_UTHREADS) st1) st"

text \<open>The loop of \<^verbatim>\<open>get_highest_p\<close> over the table entries.\<close>

fun get_highest_p_from :: "(nat \<Rightarrow> uthread_t) \<Rightarrow> nat list \<Rightarrow> int \<Rightarrow> int" where
  "get_highest_p_from ts [] cur_max = cur_max"
| "get_highest_p_from ts (p # ps) cur_max =
     get_highest_p_from ts ps
       (if p \<noteq> 0 \<and> priority (ts p) < cur_max then priority (ts p) else cur_max)"

definition get_highest_p :: "'h ut_state \<Rightarrow> int" where
  "get_highest_p st = get_highest_p_from (tcb st) (threads st) 9"

text \<open>
  \<^verbatim>\<open>uthread_exit\<close>. The thread's blocks are freed before \<^verbatim>\<open>s_self->tid\<close> is read again;
  \<^verbatim>\<open>free\<close> writes headers only, so the control block still holds its values there.
\<close>

definition uthread_exit ::
  "('h \<Rightarrow> nat \<Rightarrow> 'h option) \<Rightarrow> sched_policy \<Rightarrow> ('h ut_state, control) kernel" where
  "uthread_exit fr sched st0 =
     bind uthread_self (\<lambda>self st.
       let me = threads st ! nat (tid self); mytid = tid (tcb st me) in
       case fr (heap st) (ss_sp (tcb st me)) of None \<Rightarrow> Spin st | Some h \<Rightarrow>
       case fr h (threads st ! nat mytid) of None \<Rightarrow> Spin st | Some h' \<Rightarrow>
         let st1 = st\<lparr>heap := h', s_self := me, s_self_tid := mytid,
                      threads := (threads st)[nat (tid (tcb st me)) := 0],
                      cur_threads := cur_threads st - 1\<rparr>;
             st2 = st1\<lparr>highest_p := get_highest_p st1\<rparr>
         in if cur_threads st2 = 0 then Ok Exits st2
            else switch_to sched RetExit ((nat mytid + 1) mod MAX_UTHREADS) st2) st0"

definition uthread_start_all :: "sched_policy \<Rightarrow> ('h ut_state, control) kernel" where
  "uthread_start_all sched st =
     (if first_uthread st then Ok (Returns (-1)) st
      else if cur_threads st = 0 then Ok (Returns (-1)) st
      else if running_tid st \<noteq> -1 then Ok (Returns (-1)) st
      else case next_thread sched st 0 of None \<Rightarrow> Spin st | Some nxt \<Rightarrow>
        Ok (Enters (entryfunc (tcb st nxt)))
           (call_wrap RetStart nxt
             (st\<lparr>s_next := nxt, running_tid := tid (tcb st nxt),
                 esp := ss_esp (tcb st nxt), ebp := ss_ebp (tcb st nxt)\<rparr>)))"

definition uthread_setpr :: "int \<Rightarrow> ('h ut_state, int) kernel" where
  "uthread_setpr prio st0 =
     bind running (\<lambda>p st. Ok (priority (tcb st p))
       (st\<lparr>tcb := (tcb st)(p := (tcb st p)\<lparr>priority := prio\<rparr>)\<rparr>)) st0"

definition uthread_getpr :: "('h ut_state, int) kernel" where
  "uthread_getpr st = bind running (\<lambda>p. gets_st (\<lambda>st. priority (tcb st p))) st"

text \<open>
  \<^verbatim>\<open>wrap_function\<close> runs the entry function, given as what it does to the state, and
  then ends the thread.
\<close>

definition wrap_function ::
  "('h \<Rightarrow> nat \<Rightarrow> 'h option) \<Rightarrow> sched_policy \<Rightarrow> ('h ut_state, unit) kernel \<Rightarrow> ('h ut_state, control) kernel" where
  "wrap_function fr sched entry = bind entry (\<lambda>_. uthread_exit fr sched)"

section \<open>The scheduling loop\<close>

definition eligible :: "sched_policy \<Rightarrow> 'h ut_state \<Rightarrow> nat \<Rightarrow> bool" where
  "eligible sched st i \<longleftrightarrow> threads st ! i \<noteq> 0 \<and>
     (sched = ROUND_ROBIN \<or> priority (tcb st (threads st ! i)) = highest_p st)"

definition ready :: "sched_policy \<Rightarrow> 'h ut_state \<Rightarrow> nat list" where
  "ready sched st = filter (eligible sched st) [0..<MAX_UTHREADS]"

lemma next_thread_step:
  "next_thread sched st i =
     (if eligible sched st i then Some (threads st ! i)
      else next_thread sched st ((i + 1) mod MAX_UTHREADS))"
  by (subst next_thread.simps) (simp add: eligible_def Let_def)

lemma next_thread_skip:
  assumes "i \<le> j" "j < MAX_UTHREADS" "eligible sched st j" "\<And>k. i \<le> k \<Longrightarrow> k < j \<Longrightarrow> \<not> eligible sched st k"
  shows "next_thread sched st i = Some (threads st ! j)"
  using assms
proof (induction "j - i" arbitrary: i)
  case 0
  then show ?case by (simp add: next_thread_step)
next
  case (Suc d)
  then have "\<not> eligible sched st i" "(i + 1) mod MAX_UTHREADS = i + 1" by auto
  then have "next_thread sched st i = next_thread sched st (i + 1)"
    by (subst next_thread_step) simp
  then show ?case using Suc by simp
qed

lemma next_thread_wrap:
  assumes "i < MAX_UTHREADS" "\<And>k. i \<le> k \<Longrightarrow> k < MAX_UTHREADS \<Longrightarrow> \<not> eligible sched st k"
  shows "next_thread sched st i = next_thread sched st 0"
  using assms
proof (induction "MAX_UTHREADS - i" arbitrary: i)
  case (Suc d)
  then have ne: "\<not> eligible sched st i" by simp
  show ?case
  proof (cases "i = 63")
    case True
    then show ?thesis using ne by (subst next_thread_step) simp
  next
    case False
    then have "(i + 1) mod MAX_UTHREADS = i + 1" using Suc by simp
    then have "next_thread sched st i = next_thread sched st (i + 1)"
      using ne by (subst next_thread_step) simp
    then show ?thesis using Suc False by simp
  qed
qed simp

text \<open>Consecutive members of a filtered range have no other member between them.\<close>

lemma filter_upt_gap:
  assumes es: "es = filter P [0..<n]" and k: "k < n" "P k"
  obtains b where "b < length es" "es ! b = k" "\<And>a. a < length es \<Longrightarrow> es ! a < k \<longleftrightarrow> a < b"
proof -
  have "k \<in> set es" using k by (simp add: es)
  then obtain b where b: "b < length es" "es ! b = k" by (auto simp: in_set_conv_nth)
  have so: "sorted_wrt (<) es" unfolding es by (simp add: sorted_wrt_filter)
  have "es ! a < k \<longleftrightarrow> a < b" if "a < length es" for a
    using sorted_wrt_nth_less [OF so] b that by (metis linorder_neqE_nat not_less_iff_gr_or_eq)
  with b show ?thesis by (rule that)
qed

lemma filter_upt_between:
  assumes es: "es = filter P [0..<n]" and a: "a + 1 < length es" and k: "es ! a < k" "k < es ! (a + 1)"
  shows "\<not> P k"
proof
  assume P: "P k"
  have "es ! (a + 1) < n" using nth_mem [OF a] by (auto simp: es)
  then have "k < n" using k by simp
  then obtain b where b: "es ! b = k" "\<And>a. a < length es \<Longrightarrow> es ! a < k \<longleftrightarrow> a < b" "b < length es"
    using filter_upt_gap [OF es _ P] by metis
  have "a < b" using b(2) [of a] a k(1) by simp
  moreover have "\<not> a + 1 < b" using b(2) [OF a] k(2) by (meson less_asym)
  ultimately have "b = a + 1" by simp
  then show False using b(1) k(2) by simp
qed

lemma filter_upt_before:
  assumes es: "es = filter P [0..<n]" and a: "0 < length es" and k: "k < es ! 0"
  shows "\<not> P k"
proof
  assume P: "P k"
  have "es ! 0 < n" using nth_mem [OF a] by (auto simp: es)
  then have "k < n" using k by simp
  then obtain b where b: "es ! b = k" "\<And>a. a < length es \<Longrightarrow> es ! a < k \<longleftrightarrow> a < b" "b < length es"
    using filter_upt_gap [OF es _ P] by metis
  have "\<not> 0 < b" using b(2) [OF a] k by (meson less_asym)
  then show False using b(1) k by simp
qed

lemma filter_upt_after:
  assumes es: "es = filter P [0..<n]" and a: "a + 1 = length es" and k: "es ! a < k" "k < n"
  shows "\<not> P k"
proof
  assume P: "P k"
  obtain b where b: "es ! b = k" "\<And>a. a < length es \<Longrightarrow> es ! a < k \<longleftrightarrow> a < b" "b < length es"
    using filter_upt_gap [OF es k(2) P] by metis
  then show False using a k b(2) [of a] by auto
qed

lemma ready_nth:
  assumes "a < length (ready sched st)"
  shows "ready sched st ! a < MAX_UTHREADS" "eligible sched st (ready sched st ! a)"
  using nth_mem [OF assms] by (auto simp: ready_def)

lemma next_thread_first:
  assumes "ready sched st \<noteq> []"
  shows "next_thread sched st 0 = Some (threads st ! (ready sched st ! 0))"
proof (rule next_thread_skip)
  have z: "0 < length (ready sched st)" using assms by simp
  show "ready sched st ! 0 < MAX_UTHREADS" "eligible sched st (ready sched st ! 0)"
    using ready_nth [OF z] .
  show "\<not> eligible sched st k" if "k < ready sched st ! 0" for k
    using filter_upt_before [OF ready_def z that] .
qed simp

text \<open>
  Started behind a member of the ready list, the loop finds the next member, cyclically.
\<close>

lemma next_thread_cyclic:
  assumes a: "a < length (ready sched st)"
  shows "next_thread sched st ((ready sched st ! a + 1) mod MAX_UTHREADS) =
     Some (threads st ! (ready sched st ! ((a + 1) mod length (ready sched st))))"
proof (cases "a + 1 < length (ready sched st)")
  case True
  let ?es = "ready sched st"
  have lt: "?es ! a < ?es ! (a + 1)"
    using sorted_wrt_nth_less [of "(<)" ?es a "a + 1"] True
    by (simp add: ready_def sorted_wrt_filter)
  note nx = ready_nth [OF True]
  have "next_thread sched st (?es ! a + 1) = Some (threads st ! (?es ! (a + 1)))"
    by (rule next_thread_skip [OF _ nx])
       (use lt filter_upt_between [OF ready_def True] in auto)
  moreover have "(?es ! a + 1) mod MAX_UTHREADS = ?es ! a + 1" using lt nx by simp
  ultimately show ?thesis using True by simp
next
  case False
  let ?es = "ready sched st"
  have a1: "a + 1 = length ?es" using False a by simp
  have "next_thread sched st ((?es ! a + 1) mod MAX_UTHREADS) = next_thread sched st 0"
  proof (cases "?es ! a + 1 < MAX_UTHREADS")
    case True
    have "next_thread sched st (?es ! a + 1) = next_thread sched st 0"
      by (rule next_thread_wrap [OF True]) (use filter_upt_after [OF ready_def a1] in auto)
    then show ?thesis using True by simp
  next
    case False
    then have "?es ! a + 1 = MAX_UTHREADS" using ready_nth(1) [OF a] by simp
    then show ?thesis by simp
  qed
  moreover have "?es \<noteq> []" using a by auto
  ultimately show ?thesis using next_thread_first a1 by fastforce
qed

text \<open>What the loop returns is an eligible entry, so without one it never returns.\<close>

lemma next_thread_found:
  assumes "next_thread sched st i = Some y"
  shows "i < MAX_UTHREADS \<longrightarrow> (\<exists>k < MAX_UTHREADS. eligible sched st k \<and> y = threads st ! k)"
proof (rule next_thread.raw_induct [OF _ assms, where P = "\<lambda>sched st i y. i < MAX_UTHREADS \<longrightarrow>
    (\<exists>k < MAX_UTHREADS. eligible sched st k \<and> y = threads st ! k)"])
  fix nt and sched and st :: "'a ut_state" and i y
  assume IH: "\<And>sched st i y. nt sched st i = Some y \<Longrightarrow> i < MAX_UTHREADS \<longrightarrow>
      (\<exists>k < MAX_UTHREADS. eligible sched st k \<and> y = threads st ! k)"
    and eq: "(let nxt = threads st ! i in
      if nxt \<noteq> 0 \<and> (sched = ROUND_ROBIN \<or> priority (tcb st nxt) = highest_p st) then Some nxt
      else nt sched st ((i + 1) mod MAX_UTHREADS)) = Some y"
  have "(if eligible sched st i then Some (threads st ! i)
         else nt sched st ((i + 1) mod MAX_UTHREADS)) = Some y"
    using eq unfolding eligible_def Let_def .
  then show "i < MAX_UTHREADS \<longrightarrow> (\<exists>k < MAX_UTHREADS. eligible sched st k \<and> y = threads st ! k)"
    using IH [of sched st "(i + 1) mod MAX_UTHREADS" y] by (auto split: if_splits)
qed

lemma next_thread_stuck:
  assumes "ready sched st = []" "i < MAX_UTHREADS"
  shows "next_thread sched st i = None"
proof (rule ccontr)
  assume "next_thread sched st i \<noteq> None"
  then obtain y where "next_thread sched st i = Some y" by auto
  then obtain k where "k < MAX_UTHREADS" "eligible sched st k"
    using next_thread_found assms(2) by blast
  then show False using assms(1) by (auto simp: ready_def filter_empty_conv)
qed

section \<open>Invariant\<close>

definition tcb_blocks :: "'h ut_state \<Rightarrow> nat list" where
  "tcb_blocks st = filter (\<lambda>p. p \<noteq> 0) (threads st)"

definition ut_blocks :: "'h ut_state \<Rightarrow> nat list" where
  "ut_blocks st = tcb_blocks st @ map (\<lambda>p. ss_sp (tcb st p)) (tcb_blocks st)"

definition occupied :: "'h ut_state \<Rightarrow> int \<Rightarrow> bool" where
  "occupied st i \<longleftrightarrow> 0 \<le> i \<and> i < int MAX_UTHREADS \<and> threads st ! nat i \<noteq> 0"

definition table_ok :: "'h ut_state \<Rightarrow> bool" where
  "table_ok st \<longleftrightarrow>
     length (threads st) = MAX_UTHREADS \<and> cur_threads st = int (length (tcb_blocks st)) \<and>
     (\<forall>i < MAX_UTHREADS. threads st ! i \<noteq> 0 \<longrightarrow> tid (tcb st (threads st ! i)) = int i) \<and>
     (\<forall>p \<in> set (tcb_blocks st). virgin (tcb st p) \<longrightarrow>
        ss_esp (tcb st p) = ss_sp (tcb st p) + (UTHREAD_STACK_SIZE - 4) \<and>
        ss_ebp (tcb st p) = ss_sp (tcb st p) + (UTHREAD_STACK_SIZE - 4)) \<and>
     (running_tid st = -1 \<or> occupied st (running_tid st) \<and>
        \<not> virgin (tcb st (threads st ! nat (running_tid st))))"

text \<open>
  \<open>ut_inv ok M st\<close>: the table is consistent, and the blocks it refers to are allocated, all
  different, and apart from the blocks \<open>M\<close> the rest of the program holds.
\<close>

definition ut_inv :: "('h \<Rightarrow> nat set \<Rightarrow> bool) \<Rightarrow> nat set \<Rightarrow> 'h ut_state \<Rightarrow> bool" where
  "ut_inv ok M st \<longleftrightarrow>
     (if first_uthread st then ok (heap st) M
      else table_ok st \<and> distinct (ut_blocks st) \<and> M \<inter> set (ut_blocks st) = {} \<and>
           ok (heap st) (M \<union> set (ut_blocks st)))"

lemma nth_split:
  assumes "i < length xs"
  obtains as bs where "xs = as @ xs ! i # bs" "length as = i" "\<And>y. xs[i := y] = as @ y # bs"
  using that [of "take i xs" "drop (Suc i) xs"] id_take_nth_drop [OF assms] upd_conv_take_nth_drop [OF assms]
    assms by simp

lemma tcb_blocks_update:
  assumes "i < length (threads st)"
  obtains as bs where "tcb_blocks st = as @ (if threads st ! i = 0 then [] else [threads st ! i]) @ bs"
    "\<And>y. filter (\<lambda>p. p \<noteq> 0) ((threads st)[i := y]) = as @ (if y = 0 then [] else [y]) @ bs"
proof -
  obtain as bs where ts: "threads st = as @ threads st ! i # bs" "\<And>y. (threads st)[i := y] = as @ y # bs"
    using nth_split [OF assms] by metis
  show ?thesis
  proof (rule that)
    show "tcb_blocks st = filter (\<lambda>p. p \<noteq> 0) as @ (if threads st ! i = 0 then [] else [threads st ! i]) @ filter (\<lambda>p. p \<noteq> 0) bs"
      unfolding tcb_blocks_def by (subst ts(1)) simp
  qed (simp add: ts(2))
qed

lemma find_slot_empty:
  assumes "0 \<in> set ts"
  shows "find_slot ts < length ts" "ts ! find_slot ts = 0" "\<forall>j < find_slot ts. ts ! j \<noteq> 0"
proof -
  have "find_slot ts < length ts \<and> ts ! find_slot ts = 0 \<and> (\<forall>j < find_slot ts. ts ! j \<noteq> 0)"
    using assms by (induction ts) (auto simp: nth_Cons split: nat.split)
  then show "find_slot ts < length ts" "ts ! find_slot ts = 0" "\<forall>j < find_slot ts. ts ! j \<noteq> 0" by auto
qed

lemma find_slot_full: "0 \<notin> set ts \<Longrightarrow> find_slot ts = length ts"
  by (induction ts) auto

lemma table_room:
  assumes "table_ok st" "cur_threads st \<noteq> int MAX_UTHREADS"
  shows "0 \<in> set (threads st)"
proof (rule ccontr)
  assume "0 \<notin> set (threads st)"
  then have "tcb_blocks st = threads st" 
    by (metis (mono_tags, lifting) filter_id_conv tcb_blocks_def)
  then show False using assms by (simp add: table_ok_def)
qed

lemma ut_inv_init:
  assumes "ut_inv ok M st"
  shows "ut_inv ok M (ut_table_init st)" "\<not> first_uthread (ut_table_init st)"
proof -
  show "\<not> first_uthread (ut_table_init st)" by (simp add: ut_table_init_def)
  show "ut_inv ok M (ut_table_init st)"
  proof (cases "first_uthread st")
    case True
    have "tcb_blocks (ut_table_init st) = []" using True by (simp add: tcb_blocks_def ut_table_init_def)
    then show ?thesis using True assms
      by (simp add: ut_inv_def ut_blocks_def table_ok_def) (simp add: ut_table_init_def)
  next
    case False
    then show ?thesis using assms by (simp add: ut_table_init_def)
  qed
qed

lemma ready_blocks:
  assumes "length (threads st) = MAX_UTHREADS"
  shows "map (\<lambda>i. threads st ! i) (ready ROUND_ROBIN st) = tcb_blocks st"
proof -
  have "threads st = map (\<lambda>i. threads st ! i) [0..<MAX_UTHREADS]"
    using map_nth [of "threads st"] assms by simp
  then have "tcb_blocks st = filter (\<lambda>p. p \<noteq> 0) (map (\<lambda>i. threads st ! i) [0..<MAX_UTHREADS])"
    by (simp add: tcb_blocks_def)
  moreover have "eligible ROUND_ROBIN st = (\<lambda>i. threads st ! i \<noteq> 0)"
    by (simp add: eligible_def fun_eq_iff)
  ultimately show ?thesis by (simp only: ready_def filter_map comp_def)
qed

lemma ready_length:
  "table_ok st \<Longrightarrow> int (length (ready ROUND_ROBIN st)) = cur_threads st"
  using ready_blocks [of st] by (metis length_map table_ok_def)

lemma occupied_block:
  assumes "occupied st i" "length (threads st) = MAX_UTHREADS"
  shows "threads st ! nat i \<in> set (tcb_blocks st)"
proof -
  have "nat i < length (threads st)" "threads st ! nat i \<noteq> 0" using assms by (auto simp: occupied_def)
  then show ?thesis by (simp add: tcb_blocks_def)
qed

text \<open>Entering a freshly allocated thread keeps the invariant.\<close>

lemma ut_inv_enter:
  assumes inv: "ut_inv ok M st" and nf: "\<not> first_uthread st" and i: "i < MAX_UTHREADS" "threads st ! i = 0"
    and new: "p \<noteq> 0" "p \<notin> M \<union> set (ut_blocks st)" "sp \<notin> insert p (M \<union> set (ut_blocks st))"
    and ok: "ok h (insert sp (insert p (M \<union> set (ut_blocks st))))"
    and st': "st' = ut_enter f p sp prio i (st\<lparr>heap := h, threads := (threads st)[i := p]\<rparr>)"
  shows "ut_inv ok M st'"
proof -
  from inv nf have t: "table_ok st" and d: "distinct (ut_blocks st)"
    and M: "M \<inter> set (ut_blocks st) = {}" by (auto simp: ut_inv_def)
  have len: "length (threads st) = MAX_UTHREADS" using t by (simp add: table_ok_def)
  obtain as bs where old: "tcb_blocks st = as @ bs"
    and up: "\<And>y. filter (\<lambda>p. p \<noteq> 0) ((threads st)[i := y]) = as @ (if y = 0 then [] else [y]) @ bs"
    using tcb_blocks_update [of i st] i len by auto
  have nw: "tcb_blocks st' = as @ p # bs"
    using up [of p] new(1) by (simp add: tcb_blocks_def st' ut_enter_def)
  have pn: "p \<notin> set (tcb_blocks st)" using new(2) by (auto simp: ut_blocks_def)
  have same: "\<forall>x \<in> set (tcb_blocks st). tcb st' x = tcb st x"
    using pn by (auto simp: st' ut_enter_def)
  define sa sb where sab: "sa = map (\<lambda>p. ss_sp (tcb st p)) as" "sb = map (\<lambda>p. ss_sp (tcb st p)) bs"
  have ob: "ut_blocks st = as @ bs @ sa @ sb" by (simp add: ut_blocks_def old sab)
  have "map (\<lambda>p. ss_sp (tcb st' p)) as = sa" "map (\<lambda>p. ss_sp (tcb st' p)) bs = sb" "ss_sp (tcb st' p) = sp"
    using same unfolding old by (auto simp: st' ut_enter_def sab)
  then have nb: "ut_blocks st' = as @ p # bs @ sa @ sp # sb" by (simp add: ut_blocks_def nw)
  have set': "set (ut_blocks st') = insert sp (insert p (set (ut_blocks st)))" by (auto simp: nb ob)
  have "distinct (ut_blocks st')" using d new(2,3) by (auto simp: nb ob)
  moreover have "table_ok st'"
  proof -
    have "tid (tcb st' (threads st' ! j)) = int j" if "j < MAX_UTHREADS" "threads st' ! j \<noteq> 0" for j
    proof (cases "j = i")
      case True
      then show ?thesis using that len by (simp add: st' ut_enter_def)
    next
      case False
      then have "threads st' ! j = threads st ! j" by (simp add: st' ut_enter_def)
      moreover from this have "threads st ! j \<in> set (tcb_blocks st)" using that len by (simp add: tcb_blocks_def)
      ultimately show ?thesis using t that same by (simp add: table_ok_def)
    qed
    moreover have "\<forall>q \<in> set (tcb_blocks st'). virgin (tcb st' q) \<longrightarrow>
        ss_esp (tcb st' q) = ss_sp (tcb st' q) + (UTHREAD_STACK_SIZE - 4) \<and>
        ss_ebp (tcb st' q) = ss_sp (tcb st' q) + (UTHREAD_STACK_SIZE - 4)"
    proof -
      have "set (tcb_blocks st') = insert p (set (tcb_blocks st))" unfolding old nw by auto
      then show ?thesis using t same by (auto simp: table_ok_def) (auto simp: st' ut_enter_def)
    qed
    moreover have "cur_threads st' = int (length (tcb_blocks st'))"
      using t unfolding nw by (simp add: table_ok_def old) (simp add: st' ut_enter_def)
    moreover have "running_tid st' = -1 \<or> occupied st' (running_tid st') \<and>
        \<not> virgin (tcb st' (threads st' ! nat (running_tid st')))"
    proof (cases "running_tid st = -1")
      case True
      then show ?thesis by (simp add: st' ut_enter_def)
    next
      case False
      then have o: "occupied st (running_tid st)" "\<not> virgin (tcb st (threads st ! nat (running_tid st)))"
        using t by (auto simp: table_ok_def)
      then have "nat (running_tid st) \<noteq> i" using i(2) by (auto simp: occupied_def)
      then have th: "threads st' ! nat (running_tid st) = threads st ! nat (running_tid st)"
        by (simp add: st' ut_enter_def)
      moreover have "threads st ! nat (running_tid st) \<in> set (tcb_blocks st)"
        using occupied_block [OF o(1) len] .
      moreover have "running_tid st' = running_tid st" by (simp add: st' ut_enter_def)
      ultimately show ?thesis using o same by (simp add: occupied_def)
    qed
    moreover have "length (threads st') = MAX_UTHREADS" using len by (simp add: st' ut_enter_def)
    ultimately show ?thesis unfolding table_ok_def by blast
  qed
  moreover have "M \<inter> set (ut_blocks st') = {}" using M new(2,3) unfolding set' by auto
  moreover have "ok (heap st') (M \<union> set (ut_blocks st'))"
    using ok unfolding set' by (simp add: st' ut_enter_def)
  moreover have "\<not> first_uthread st'" using nf by (simp add: st' ut_enter_def)
  ultimately show ?thesis by (simp add: ut_inv_def)
qed


text \<open>The invariant reads the control blocks in the table only, and of them a few fields.\<close>

lemma ut_inv_cong:
  assumes inv: "ut_inv ok M st" and nf: "\<not> first_uthread st"
    and same: "\<not> first_uthread st'" "heap st' = heap st" "cur_threads st' = cur_threads st" "threads st' = threads st"
    and tc: "\<forall>p \<in> set (tcb_blocks st). tid (tcb st' p) = tid (tcb st p) \<and> ss_sp (tcb st' p) = ss_sp (tcb st p) \<and>
       (virgin (tcb st' p) \<longrightarrow> virgin (tcb st p) \<and> ss_esp (tcb st' p) = ss_esp (tcb st p) \<and>
          ss_ebp (tcb st' p) = ss_ebp (tcb st p))"
    and run: "running_tid st' = -1 \<or> occupied st (running_tid st') \<and>
        \<not> virgin (tcb st' (threads st ! nat (running_tid st')))"
  shows "ut_inv ok M st'"
proof -
  from inv nf have t: "table_ok st" and rest: "distinct (ut_blocks st)" "M \<inter> set (ut_blocks st) = {}"
    "ok (heap st) (M \<union> set (ut_blocks st))" by (auto simp: ut_inv_def)
  have tb: "tcb_blocks st' = tcb_blocks st" by (simp add: tcb_blocks_def same)
  have ub: "ut_blocks st' = ut_blocks st" using tc by (simp add: ut_blocks_def tb)
  have "threads st ! i \<in> set (tcb_blocks st)" if "i < MAX_UTHREADS" "threads st ! i \<noteq> 0" for i
    using that t by (simp add: tcb_blocks_def table_ok_def)
  then have "\<forall>i < MAX_UTHREADS. threads st' ! i \<noteq> 0 \<longrightarrow> tid (tcb st' (threads st' ! i)) = int i"
    using t tc same(4) by (simp add: table_ok_def)
  moreover have "occupied st' (running_tid st') \<longleftrightarrow> occupied st (running_tid st')"
    by (simp add: occupied_def same)
  ultimately have "table_ok st'"
    using t tc run unfolding table_ok_def tb by (auto simp: same)
  then show ?thesis using rest by (simp add: ut_inv_def ub same)
qed

text \<open>Taking the running thread out of the table and freeing its blocks.\<close>

lemma ut_inv_remove:
  assumes inv: "ut_inv ok M st" and nf: "\<not> first_uthread st" and i: "i < MAX_UTHREADS" "threads st ! i \<noteq> 0"
    and ok: "ok h (M \<union> set (ut_blocks st) - {ss_sp (tcb st (threads st ! i))} - {threads st ! i})"
    and st': "threads st' = (threads st)[i := 0]" "heap st' = h" "cur_threads st' = cur_threads st - 1"
      "tcb st' = tcb st" "running_tid st' = -1" "\<not> first_uthread st'"
  shows "ut_inv ok M st'"
proof -
  let ?p = "threads st ! i"
  from inv nf have t: "table_ok st" and d: "distinct (ut_blocks st)"
    and M: "M \<inter> set (ut_blocks st) = {}" by (auto simp: ut_inv_def)
  have len: "length (threads st) = MAX_UTHREADS" using t by (simp add: table_ok_def)
  obtain as bs where old: "tcb_blocks st = as @ ?p # bs"
    and up: "\<And>y. filter (\<lambda>p. p \<noteq> 0) ((threads st)[i := y]) = as @ (if y = 0 then [] else [y]) @ bs"
    using tcb_blocks_update [of i st] i len by auto
  have nw: "tcb_blocks st' = as @ bs" using up [of 0] by (simp add: tcb_blocks_def st')
  define sa sb where sab: "sa = map (\<lambda>p. ss_sp (tcb st p)) as" "sb = map (\<lambda>p. ss_sp (tcb st p)) bs"
  have ob: "ut_blocks st = as @ ?p # bs @ sa @ ss_sp (tcb st ?p) # sb"
    by (simp add: ut_blocks_def old sab)
  have nb: "ut_blocks st' = as @ bs @ sa @ sb" by (simp add: ut_blocks_def nw sab st')
  have set': "M \<union> set (ut_blocks st') = M \<union> set (ut_blocks st) - {ss_sp (tcb st ?p)} - {?p}"
    using d M by (auto simp: nb ob)
  have "table_ok st'"
  proof -
    have "tid (tcb st' (threads st' ! j)) = int j" if "j < MAX_UTHREADS" "threads st' ! j \<noteq> 0" for j
      using that t by (cases "j = i") (simp_all add: st' table_ok_def)
    moreover have "set (tcb_blocks st') \<subseteq> set (tcb_blocks st)" by (auto simp: nw old)
    moreover have "cur_threads st' = int (length (tcb_blocks st'))"
      using t by (simp add: table_ok_def old nw st')
    ultimately show ?thesis using t len unfolding table_ok_def by (auto simp: st')
  qed
  moreover have "distinct (ut_blocks st')" using d by (simp add: nb ob)
  moreover have "M \<inter> set (ut_blocks st') = {}" using M by (auto simp: nb ob)
  ultimately show ?thesis using ok set' st' by (simp add: ut_inv_def)
qed

section \<open>The operations keep the invariant\<close>

lemma next_thread_total:
  assumes "ready sched st \<noteq> []" "i < MAX_UTHREADS"
  obtains j where "j < MAX_UTHREADS" "eligible sched st j" "next_thread sched st i = Some (threads st ! j)"
proof (cases "\<exists>k \<ge> i. k < MAX_UTHREADS \<and> eligible sched st k")
  case True
  define j where "j = (LEAST k. i \<le> k \<and> eligible sched st k)"
  have "i \<le> j \<and> eligible sched st j" unfolding j_def by (rule LeastI_ex) (use True in blast)
  moreover have "\<not> eligible sched st k" if "i \<le> k" "k < j" for k
    using that not_less_Least [of k] unfolding j_def by blast
  moreover have "j < MAX_UTHREADS"
    using True Least_le [of "\<lambda>k. i \<le> k \<and> eligible sched st k"] unfolding j_def by (meson le_less_trans)
  ultimately show ?thesis by (intro that [of j] next_thread_skip) auto
next
  case False
  then have "next_thread sched st i = next_thread sched st 0"
    by (intro next_thread_wrap [OF assms(2)]) auto
  then show ?thesis
    using next_thread_first [OF assms(1)] ready_nth [of 0 sched st] assms(1)
    by (intro that [of "ready sched st ! 0"]) auto
qed

text \<open>The second half of a context switch, once the next thread is known.\<close>

lemma switch_to_spec:
  assumes inv: "ut_inv ok M (st\<lparr>running_tid := -1\<rparr>)" and nf: "\<not> first_uthread st"
    and j: "j < MAX_UTHREADS" "threads st ! j \<noteq> 0" and nx: "next_thread sched st start = Some (threads st ! j)"
  defines "p \<equiv> threads st ! j"
  shows "\<exists>c st'. switch_to sched ra start st = Ok c st' \<and> ut_inv ok M st' \<and> \<not> first_uthread st' \<and>
    running_tid st' = int j \<and> threads st' = threads st \<and>
    tcb st' = (tcb st)(p := (tcb st p)\<lparr>virgin := False\<rparr>) \<and>
    (if virgin (tcb st p)
     then c = Enters (entryfunc (tcb st p)) \<and> esp st' = ss_sp (tcb st p) + 3988 \<and>
          stack st' (esp st' + 4) = Arg (entryfunc (tcb st p))
     else c = Resumes \<and> esp st' = ss_esp (tcb st p) \<and> stack st' = stack st) \<and>
    ebp st' = ss_ebp (tcb st p)"
proof -
  let ?s0 = "st\<lparr>running_tid := -1\<rparr>"
  have t: "table_ok ?s0" using inv nf by (simp add: ut_inv_def)
  have pb: "p \<in> set (tcb_blocks ?s0)" using j t by (simp add: tcb_blocks_def table_ok_def p_def)
  have tid: "tid (tcb st p) = int j" using t j by (simp add: table_ok_def p_def)
  have vir: "virgin (tcb st p) \<Longrightarrow> ss_esp (tcb st p) = ss_sp (tcb st p) + 3996"
    using t pb by (simp add: table_ok_def)
  define st' where "st' = (if virgin (tcb st p)
     then call_wrap ra p (st\<lparr>s_next := p, running_tid := int j, esp := ss_esp (tcb st p), ebp := ss_ebp (tcb st p)\<rparr>)
     else st\<lparr>s_next := p, running_tid := int j, esp := ss_esp (tcb st p), ebp := ss_ebp (tcb st p)\<rparr>)"
  have sw: "switch_to sched ra start st =
      Ok (if virgin (tcb st p) then Enters (entryfunc (tcb st p)) else Resumes) st'"
    using nx tid by (simp add: switch_to_def p_def [symmetric] st'_def)
  have tcb': "tcb st' = (tcb st)(p := (tcb st p)\<lparr>virgin := False\<rparr>)"
  proof -
    have "\<not> virgin (tcb st p) \<Longrightarrow> (tcb st p)\<lparr>virgin := False\<rparr> = tcb st p" by (cases "tcb st p") simp
    then show ?thesis by (simp add: st'_def call_wrap_def PUSH_def fun_eq_iff)
  qed
  have same: "first_uthread st' = first_uthread st" "heap st' = heap st" "cur_threads st' = cur_threads st"
     "threads st' = threads st" "running_tid st' = int j" "ebp st' = ss_ebp (tcb st p)"
    by (simp_all add: st'_def call_wrap_def PUSH_def)
  have "ut_inv ok M st'"
    by (rule ut_inv_cong [OF inv])
       (use nf j in \<open>simp_all add: same tcb' occupied_def p_def\<close>)
  moreover have "virgin (tcb st p) \<Longrightarrow> esp st' = ss_sp (tcb st p) + 3988 \<and>
      stack st' (esp st' + 4) = Arg (entryfunc (tcb st p))"
    using vir by (simp add: st'_def call_wrap_def PUSH_def)
  moreover have "\<not> virgin (tcb st p) \<Longrightarrow> esp st' = ss_esp (tcb st p) \<and> stack st' = stack st"
    by (simp add: st'_def)
  ultimately show ?thesis using sw tcb' same nf by auto
qed

lemma running_run:
  assumes "occupied st (running_tid st)"
  shows "running st = Ok (threads st ! nat (running_tid st)) st"
  using assms by (auto simp: running_def occupied_def)

lemma uthread_self_run:
  assumes "occupied st (running_tid st)"
  shows "uthread_self st = Ok (tcb st (threads st ! nat (running_tid st))) st"
  using running_run [OF assms] by (simp add: uthread_self_def)

lemma ready_rr_mem:
  "occupied st (int i) \<longleftrightarrow> i \<in> set (ready ROUND_ROBIN st)"
  by (auto simp: ready_def eligible_def occupied_def)

lemma ready_not_empty:
  assumes "table_ok st" "cur_threads st \<noteq> 0"
  shows "ready ROUND_ROBIN st \<noteq> []"
  using ready_length [OF assms(1)] assms(2) by auto

text \<open>
  \<open>saved st\<close> is the state after \<^verbatim>\<open>STORE_ESP\<close> and \<^verbatim>\<open>STORE_EBP\<close> of \<^verbatim>\<open>uthread_yield\<close>.
\<close>

definition saved :: "'h ut_state \<Rightarrow> 'h ut_state" where
  "saved st = (let me = threads st ! nat (running_tid st) in
     st\<lparr>s_self := me, tcb := (tcb st)(me := (tcb st me)\<lparr>ss_esp := esp st, ss_ebp := ebp st\<rparr>)\<rparr>)"

lemma uthread_yield_run:
  assumes "table_ok st" "occupied st (running_tid st)"
  shows "uthread_yield sched st =
    switch_to sched RetYield ((nat (running_tid st) + 1) mod MAX_UTHREADS) (saved st)"
proof -
  have "tid (tcb st (threads st ! nat (running_tid st))) = running_tid st"
  proof -
    have "nat (running_tid st) < MAX_UTHREADS" "threads st ! nat (running_tid st) \<noteq> 0"
      and z: "0 \<le> running_tid st"
      using assms(2) by (auto simp: occupied_def)
    then have "tid (tcb st (threads st ! nat (running_tid st))) = int (nat (running_tid st))"
      using assms(1) by (auto simp: table_ok_def)
    then show ?thesis using z by simp
  qed
  then show ?thesis using uthread_self_run [OF assms(2)]
    by (simp add: uthread_yield_def saved_def Let_def)
qed

lemma ut_inv_saved:
  assumes inv: "ut_inv ok M st" and nf: "\<not> first_uthread st" and o: "occupied st (running_tid st)"
  shows "ut_inv ok M (saved st)" "ut_inv ok M ((saved st)\<lparr>running_tid := -1\<rparr>)"
proof -
  have nv: "\<not> virgin (tcb st (threads st ! nat (running_tid st)))"
    using inv nf o by (auto simp: ut_inv_def table_ok_def occupied_def)
  have *: "ut_inv ok M ((saved st)\<lparr>running_tid := r\<rparr>)" if "r = -1 \<or> r = running_tid st" for r
    by (rule ut_inv_cong [OF inv nf])
       (use nf o nv that in \<open>auto simp: saved_def Let_def\<close>)
  have "(saved st)\<lparr>running_tid := running_tid st\<rparr> = saved st" by (simp add: saved_def Let_def)
  then show "ut_inv ok M (saved st)" using * [of "running_tid st"] by simp
  show "ut_inv ok M ((saved st)\<lparr>running_tid := -1\<rparr>)" using * by simp
qed

lemma ready_cong:
  assumes "threads st' = threads st"
  shows "ready ROUND_ROBIN st' = ready ROUND_ROBIN st"
  by (simp add: ready_def eligible_def [abs_def] assms)

text \<open>
  One \<^verbatim>\<open>uthread_yield\<close> under round robin, seen from the list of occupied entries: the
  entry behind the current one, cyclically, runs next.
\<close>

lemma uthread_yield_rr:
  assumes inv: "ut_inv ok M st" and nf: "\<not> first_uthread st"
    and a: "a < length (ready ROUND_ROBIN st)" "running_tid st = int (ready ROUND_ROBIN st ! a)"
  defines "j \<equiv> ready ROUND_ROBIN st ! ((a + 1) mod length (ready ROUND_ROBIN st))"
  defines "p \<equiv> threads st ! j" and "me \<equiv> threads st ! (ready ROUND_ROBIN st ! a)"
  shows "\<exists>c st'. uthread_yield ROUND_ROBIN st = Ok c st' \<and> ut_inv ok M st' \<and> \<not> first_uthread st' \<and>
    running_tid st' = int j \<and> threads st' = threads st \<and>
    tcb st' = (tcb (saved st))(p := (tcb (saved st) p)\<lparr>virgin := False\<rparr>) \<and>
    (if virgin (tcb (saved st) p)
     then c = Enters (entryfunc (tcb st p)) \<and> esp st' = ss_sp (tcb st p) + 3988 \<and>
          stack st' (esp st' + 4) = Arg (entryfunc (tcb st p))
     else c = Resumes \<and> esp st' = ss_esp (tcb (saved st) p) \<and> stack st' = stack st) \<and>
    ebp st' = ss_ebp (tcb (saved st) p)"
proof -
  let ?r = "ready ROUND_ROBIN st"
  have o: "occupied st (running_tid st)" using a nth_mem [OF a(1)] by (simp add: ready_rr_mem)
  have t: "table_ok st" using inv nf by (simp add: ut_inv_def)
  have th: "threads (saved st) = threads st" and nf': "\<not> first_uthread (saved st)"
    using nf by (simp_all add: saved_def Let_def)
  have r: "ready ROUND_ROBIN (saved st) = ?r" using ready_cong [OF th] .
  have "(a + 1) mod length ?r < length ?r" using a(1) by (intro mod_less_divisor) linarith
  note jr = ready_nth [OF this, folded j_def]
  have j: "j < MAX_UTHREADS" "threads (saved st) ! j \<noteq> 0" using jr by (auto simp: th eligible_def)
  have nx: "next_thread ROUND_ROBIN (saved st) ((nat (running_tid st) + 1) mod MAX_UTHREADS)
      = Some (threads (saved st) ! j)"
    using next_thread_cyclic [of a ROUND_ROBIN "saved st"] a by (simp add: r j_def)
  have f: "entryfunc (tcb (saved st) p) = entryfunc (tcb st p)" "ss_sp (tcb (saved st) p) = ss_sp (tcb st p)"
    "stack (saved st) = stack st"
    by (simp_all add: saved_def Let_def)
  show ?thesis
    using switch_to_spec [OF ut_inv_saved(2) [OF inv nf o] nf' j nx, of RetYield]
    unfolding uthread_yield_run [OF t o] th p_def [symmetric] f by simp
qed

section \<open>Round robin is fair\<close>

text \<open>
  A run of the threads of a process: between two calls of \<^verbatim>\<open>uthread_yield\<close> the running
  thread computes, which changes its registers, its stack and its priority but not
  the table. The trace lists the threads that the calls switched to.
\<close>

inductive urun :: "'h ut_state \<Rightarrow> int list \<Rightarrow> 'h ut_state \<Rightarrow> bool" where
  start: "urun st [] st"
| compute: "urun st tr st1 \<Longrightarrow> urun st tr (st1\<lparr>esp := e, ebp := b, stack := m\<rparr>)"
| setpr: "urun st tr st1 \<Longrightarrow> uthread_setpr n st1 = Ok old st2 \<Longrightarrow> urun st tr st2"
| yield: "urun st tr st1 \<Longrightarrow> uthread_yield ROUND_ROBIN st1 = Ok c st2 \<Longrightarrow>
     urun st (tr @ [running_tid st2]) st2"

inductive_cases urun_Nil_cases: "urun st [] st'"

lemma uthread_setpr_inv:
  assumes inv: "ut_inv ok M st" and nf: "\<not> first_uthread st" and s: "uthread_setpr n st = Ok old st'"
  shows "ut_inv ok M st'" "\<not> first_uthread st'" "threads st' = threads st" "running_tid st' = running_tid st"
proof -
  obtain p where st': "st' = st\<lparr>tcb := (tcb st)(p := (tcb st p)\<lparr>priority := n\<rparr>)\<rparr>"
    using s by (auto simp: uthread_setpr_def bind_eq_Ok running_def split: if_splits)
  show "ut_inv ok M st'"
    by (rule ut_inv_cong [OF inv nf])
       (use inv nf in \<open>auto simp: st' ut_inv_def table_ok_def occupied_def\<close>)
  show "\<not> first_uthread st'" "threads st' = threads st" "running_tid st' = running_tid st"
    using nf by (simp_all add: st')
qed

lemma urun_trace:
  assumes "urun st tr st'" and "ut_inv ok M st" "\<not> first_uthread st"
    and "a < length (ready ROUND_ROBIN st)" "running_tid st = int (ready ROUND_ROBIN st ! a)"
  shows "ut_inv ok M st' \<and> \<not> first_uthread st' \<and> threads st' = threads st \<and>
    running_tid st' = int (ready ROUND_ROBIN st ! ((a + length tr) mod length (ready ROUND_ROBIN st))) \<and>
    (\<forall>k < length tr. tr ! k = int (ready ROUND_ROBIN st ! ((a + k + 1) mod length (ready ROUND_ROBIN st))))"
  using assms
proof (induction rule: urun.induct)
  case (start st)
  then show ?case by simp
next
  case (compute st tr st1 m b e)
  then have IH: "ut_inv ok M st1" "\<not> first_uthread st1" "threads st1 = threads st"
    "running_tid st1 = int (ready ROUND_ROBIN st ! ((a + length tr) mod length (ready ROUND_ROBIN st)))"
    "\<forall>k < length tr. tr ! k = int (ready ROUND_ROBIN st ! ((a + k + 1) mod length (ready ROUND_ROBIN st)))"
    by auto
  have "ut_inv ok M (st1\<lparr>esp := e, ebp := b, stack := m\<rparr>)"
    by (rule ut_inv_cong [OF IH(1,2)])
       (use IH(1,2) in \<open>auto simp: ut_inv_def table_ok_def\<close>)
  then show ?case using IH by simp
next
  case (setpr st tr st1 n old st2)
  then show ?case using uthread_setpr_inv [of ok M st1 n old st2] by simp
next
  case (yield st tr st1 c st2)
  let ?r = "ready ROUND_ROBIN st" and ?b = "(a + length tr) mod length (ready ROUND_ROBIN st)"
  from yield have IH: "ut_inv ok M st1" "\<not> first_uthread st1" "threads st1 = threads st"
    "running_tid st1 = int (?r ! ?b)"
    "\<forall>k < length tr. tr ! k = int (?r ! ((a + k + 1) mod length ?r))" by auto
  have r: "ready ROUND_ROBIN st1 = ?r" using ready_cong [OF IH(3)] .
  have b: "?b < length ?r" using yield.prems(3) by (intro mod_less_divisor) linarith
  have "ut_inv ok M st2 \<and> \<not> first_uthread st2 \<and> running_tid st2 = int (?r ! ((?b + 1) mod length ?r)) \<and>
      threads st2 = threads st1"
    using uthread_yield_rr [OF IH(1,2), of ?b] b IH(4) yield.hyps(2) by (auto simp: r)
  moreover have "(?b + 1) mod length ?r = (a + length tr + 1) mod length ?r" by (simp add: mod_simps)
  ultimately show ?case using IH(3,5) by (auto simp: nth_append less_Suc_eq)
qed

lemma cyclic_distinct:
  assumes "distinct xs"
  shows "distinct (map (\<lambda>k. xs ! ((a + k + 1) mod length xs)) [0..<length xs])"
    "set (map (\<lambda>k. xs ! ((a + k + 1) mod length xs)) [0..<length xs]) = set xs"
proof -
  have m: "map (\<lambda>k. xs ! ((a + k + 1) mod length xs)) [0..<length xs] = rotate (a + 1) xs"
    by (rule nth_equalityI) (auto simp: nth_rotate add_ac simp del: rotate_Suc)
  show "distinct (map (\<lambda>k. xs ! ((a + k + 1) mod length xs)) [0..<length xs])"
    unfolding m using assms by simp
  show "set (map (\<lambda>k. xs ! ((a + k + 1) mod length xs)) [0..<length xs]) = set xs"
    unfolding m by simp
qed

lemma urun_fair:
  assumes "urun st tr st'" and inv: "ut_inv ok M st" and nf: "\<not> first_uthread st"
    and o: "occupied st (running_tid st)" and len: "length tr = nat (cur_threads st)"
  shows "distinct tr" "set tr = {i. occupied st i}"
proof -
  let ?r = "ready ROUND_ROBIN st"
  have "nat (running_tid st) \<in> set ?r" using o ready_rr_mem [of st "nat (running_tid st)"]
    by (simp add: occupied_def)
  then obtain a where a: "a < length ?r" "?r ! a = nat (running_tid st)" by (auto simp: in_set_conv_nth)
  have n: "length tr = length ?r" using len ready_length [of st] inv nf by (simp add: ut_inv_def)
  have "\<forall>k < length tr. tr ! k = int (?r ! ((a + k + 1) mod length ?r))"
    using urun_trace [OF assms(1) inv nf a(1)] a o by (simp add: occupied_def)
  then have tr: "tr = map int (map (\<lambda>k. ?r ! ((a + k + 1) mod length ?r)) [0..<length ?r])"
    by (intro nth_equalityI) (auto simp: n)
  have d: "distinct ?r" by (simp add: ready_def)
  show "distinct tr" unfolding tr using cyclic_distinct(1) [OF d] by (simp add: distinct_map inj_on_def)
  have "set tr = int ` set ?r" unfolding tr using cyclic_distinct(2) [OF d, of a] by (metis set_map)
  also have "\<dots> = {i. occupied st i}"
  proof (intro set_eqI iffI)
    fix i assume "i \<in> {i. occupied st i}"
    then show "i \<in> int ` set ?r"
      using ready_rr_mem [of st "nat i"] by (auto simp: occupied_def intro!: image_eqI [of _ _ "nat i"])
  qed (use ready_rr_mem in auto)
  finally show "set tr = {i. occupied st i}" .
qed

section \<open>Creation and exit over an allocator\<close>

text \<open>The stack of a new thread can be allocated once its control block is.\<close>

definition stack_available :: "('h \<Rightarrow> u32 \<Rightarrow> ('h \<times> nat) option) \<Rightarrow> 'h \<Rightarrow> bool" where
  "stack_available mal h =
     (case mal h 28 of None \<Rightarrow> True | Some (h', p) \<Rightarrow>
        p = 0 \<or> (case mal h' 4000 of None \<Rightarrow> True | Some (h'', sp) \<Rightarrow> sp \<noteq> 0))"

context allocator
begin

lemma create_spec:
  assumes inv: "ut_inv ok M st"
  defines "s0 \<equiv> ut_table_init st"
  defines "i \<equiv> find_slot (threads s0)"
  shows "\<exists>r st'. uthread_create mal fr f prio st = Ok r st' \<and>
     ((r = -1 \<and> ut_inv ok M st' \<and> threads st' = threads s0 \<and>
         (cur_threads s0 = int MAX_UTHREADS \<or> stack_available mal (heap st))) \<or>
      (r = int i \<and> i < MAX_UTHREADS \<and> ut_inv ok M st' \<and> stack_available mal (heap st) \<and> (\<exists>p sp. p \<noteq> 0 \<and>
         threads st' = (threads s0)[i := p] \<and>
         tcb st' = (tcb st)(p := \<lparr>tid = int i, ss_sp = sp, ss_esp = sp + 3996, ss_ebp = sp + 3996,
                                  priority = prio, entryfunc = f, virgin = True\<rparr>))) \<or>
      (r = -1 \<and> \<not> stack_available mal (heap st) \<and> cur_threads st' = cur_threads s0 \<and> i < MAX_UTHREADS \<and>
         threads s0 ! i = 0 \<and> ok (heap st') (M \<union> set (ut_blocks s0)) \<and>
         (\<exists>p. p \<noteq> 0 \<and> p \<notin> M \<union> set (ut_blocks s0) \<and> threads st' = (threads s0)[i := p])))"
proof (cases "cur_threads s0 = int MAX_UTHREADS")
  case True
  then show ?thesis
    using ut_inv_init [OF inv] by (simp add: uthread_create_def s0_def [symmetric])
next
  case False
  note inv0 = ut_inv_init [OF inv, folded s0_def]
  have t: "table_ok s0" and okh: "ok (heap s0) (M \<union> set (ut_blocks s0))"
    using inv0 by (auto simp: ut_inv_def)
  have same: "heap s0 = heap st" "tcb s0 = tcb st" by (simp_all add: s0_def ut_table_init_def)
  have len: "length (threads s0) = MAX_UTHREADS" using t by (simp add: table_ok_def)
  note slot = find_slot_empty [OF table_room [OF t False], folded i_def]
  have i: "i < MAX_UTHREADS" using slot(1) len by simp
  obtain h p where m: "mal (heap s0) 28 = Some (h, p)" "p = 0 \<longrightarrow> ok h (M \<union> set (ut_blocks s0))"
    "p \<noteq> 0 \<longrightarrow> p \<notin> M \<union> set (ut_blocks s0) \<and> ok h (insert p (M \<union> set (ut_blocks s0)))"
    using mal_ok [OF okh, of 28] by auto
  define s1 where "s1 = s0\<lparr>heap := h, threads := (threads s0)[i := p]\<rparr>"
  show ?thesis
  proof (cases "p = 0")
    case True
    then have "(threads s0)[i := p] = threads s0" using slot(2) by (metis list_update_id)
    then have s1: "threads s1 = threads s0" by (simp add: s1_def)
    have "uthread_create mal fr f prio st = Ok (-1) s1"
      using m(1) True False i by (simp add: uthread_create_def s0_def [symmetric] i_def [symmetric] Let_def s1_def)
    moreover have "ut_inv ok M s1"
    proof -
      have "tcb s1 = tcb s0" "running_tid s1 = running_tid s0" "cur_threads s1 = cur_threads s0"
        by (simp_all add: s1_def)
      then have "ut_blocks s1 = ut_blocks s0" "table_ok s1 = table_ok s0"
        by (simp_all only: ut_blocks_def tcb_blocks_def table_ok_def occupied_def s1)
      then show ?thesis using inv0 m(2) True by (simp add: ut_inv_def) (simp add: s1_def)
    qed
    moreover have "stack_available mal (heap st)" using m True by (simp add: stack_available_def same)
    ultimately show ?thesis using s1 by blast
  next
    case np: False
    obtain h' sp where m': "mal h 4000 = Some (h', sp)" "sp = 0 \<longrightarrow> ok h' (insert p (M \<union> set (ut_blocks s0)))"
      "sp \<noteq> 0 \<longrightarrow> sp \<notin> insert p (M \<union> set (ut_blocks s0)) \<and> ok h' (insert sp (insert p (M \<union> set (ut_blocks s0))))"
      using mal_ok [of h "insert p (M \<union> set (ut_blocks s0))" 4000] m(3) np by auto
    show ?thesis
    proof (cases "sp = 0")
      case True
      then obtain h'' where fr: "fr h' p = Some h''" "ok h'' (insert p (M \<union> set (ut_blocks s0)) - {p})"
        using fr_ok m'(2) by blast
      let ?st' = "s1\<lparr>heap := h'', tcb := (tcb s1)(p := (tcb s1 p)\<lparr>ss_sp := 0\<rparr>)\<rparr>"
      have "uthread_create mal fr f prio st = Ok (-1) ?st'"
        using m(1) m'(1) np True fr False i
        by (simp add: uthread_create_def s0_def [symmetric] i_def [symmetric] Let_def s1_def)
      moreover have "\<not> stack_available mal (heap st)"
        using m m' np True by (simp add: stack_available_def same)
      moreover have "insert p (M \<union> set (ut_blocks s0)) - {p} = M \<union> set (ut_blocks s0)" using m(3) np by auto
      ultimately show ?thesis using fr(2) np i slot(2) m(3) by (auto simp: s1_def)
    next
      case sp: False
      define st' where "st' = ut_enter f p sp prio i (s0\<lparr>heap := h', threads := (threads s0)[i := p]\<rparr>)"
      have "uthread_create mal fr f prio st = Ok (int i) st'"
        using m(1) m'(1) np sp False i
        by (simp add: uthread_create_def s0_def [symmetric] i_def [symmetric] Let_def st'_def ut_enter_def)
      moreover have "ut_inv ok M st'"
        using ut_inv_enter [OF inv0 i slot(2) np _ _ _ st'_def] m(3) m'(3) np sp by blast
      moreover have "threads st' = (threads s0)[i := p]" "tcb st' = (tcb st)(p := \<lparr>tid = int i, ss_sp = sp,
          ss_esp = sp + 3996, ss_ebp = sp + 3996, priority = prio, entryfunc = f, virgin = True\<rparr>)"
        by (simp_all add: st'_def ut_enter_def same)
      moreover have "stack_available mal (heap st)"
        using m m' sp by (simp add: stack_available_def same)
      ultimately show ?thesis using np i by blast
    qed
  qed
qed

end

text \<open>\<^verbatim>\<open>get_highest_p\<close> is the least priority in the table, capped by 9.\<close>

lemma get_highest_p_from_cap: "get_highest_p_from ts ps m \<le> m"
proof (induction ps arbitrary: m)
  case (Cons q ps)
  show ?case using Cons [of m] Cons [of "priority (ts q)"] by auto
qed simp

lemma get_highest_p_from_le:
  "p \<in> set ps \<Longrightarrow> p \<noteq> 0 \<Longrightarrow> get_highest_p_from ts ps m \<le> priority (ts p)"
proof (induction ps arbitrary: m)
  case (Cons q ps)
  show ?case
  proof (cases "p = q")
    case True
    then show ?thesis
      using Cons.prems get_highest_p_from_cap [of ts ps m] get_highest_p_from_cap [of ts ps "priority (ts q)"] by auto
  qed (use Cons in auto)
qed simp

lemma get_highest_p_from_attained:
  "get_highest_p_from ts ps m = m \<or>
     (\<exists>p \<in> set ps. p \<noteq> 0 \<and> priority (ts p) = get_highest_p_from ts ps m)"
proof (induction ps arbitrary: m)
  case (Cons q ps)
  show ?case using Cons [of m] Cons [of "priority (ts q)"] by (cases "q \<noteq> 0 \<and> priority (ts q) < m") auto
qed simp

definition prio_ok :: "'h ut_state \<Rightarrow> bool" where
  "prio_ok st \<longleftrightarrow> highest_p st = get_highest_p st \<and> (\<forall>p \<in> set (tcb_blocks st). priority (tcb st p) \<le> 9)"

lemma ready_pb:
  assumes "prio_ok st" "tcb_blocks st \<noteq> []" "length (threads st) = MAX_UTHREADS"
  shows "ready PRIORITY_BASED st \<noteq> []"
proof -
  obtain q where q: "q \<in> set (tcb_blocks st)" using assms(2) by (meson last_in_set)
  have q9: "priority (tcb st q) \<le> 9" "q \<in> set (threads st)" "q \<noteq> 0"
    using assms(1) q by (auto simp: prio_ok_def tcb_blocks_def)
  have "\<exists>p \<in> set (threads st). p \<noteq> 0 \<and> priority (tcb st p) = get_highest_p st"
    using get_highest_p_from_attained [of "tcb st" "threads st" 9] get_highest_p_from_le [OF q9(2,3), of "tcb st" 9]
      get_highest_p_from_cap [of "tcb st" "threads st" 9] q9
    unfolding get_highest_p_def by (metis order_antisym)
  then obtain k where "k < MAX_UTHREADS" "eligible PRIORITY_BASED st k"
    using assms by (auto simp: eligible_def prio_ok_def in_set_conv_nth)
  then show ?thesis by (auto simp: ready_def filter_empty_conv)
qed

context allocator
begin

lemma exit_spec:
  assumes inv: "ut_inv ok M st" and nf: "\<not> first_uthread st" and o: "occupied st (running_tid st)"
    and pr: "sched = ROUND_ROBIN \<or> (\<forall>p \<in> set (tcb_blocks st). priority (tcb st p) \<le> 9)"
  defines "i \<equiv> nat (running_tid st)"
  shows "\<exists>c st'. uthread_exit fr sched st = Ok c st' \<and> threads st' = (threads st)[i := 0] \<and>
     (if cur_threads st = 1 then c = Exits \<and> ok (heap st') M
      else ut_inv ok M st' \<and> occupied st' (running_tid st') \<and> running_tid st' \<noteq> running_tid st \<and>
        (if virgin (tcb st (threads st ! nat (running_tid st')))
         then c = Enters (entryfunc (tcb st (threads st ! nat (running_tid st'))))
         else c = Resumes \<and> esp st' = ss_esp (tcb st (threads st ! nat (running_tid st')))))"
proof -
  let ?me = "threads st ! i"
  have t: "table_ok st" and d: "distinct (ut_blocks st)" and M: "M \<inter> set (ut_blocks st) = {}"
    and okh: "ok (heap st) (M \<union> set (ut_blocks st))"
    using inv nf by (auto simp: ut_inv_def)
  have len: "length (threads st) = MAX_UTHREADS" using t by (simp add: table_ok_def)
  have i: "i < MAX_UTHREADS" "?me \<noteq> 0" "running_tid st = int i" using o by (auto simp: occupied_def i_def)
  have tidme: "tid (tcb st ?me) = int i" using t i by (simp add: table_ok_def)
  have meb: "?me \<in> set (tcb_blocks st)" using occupied_block [OF o len] by (simp add: i_def)
  have in1: "ss_sp (tcb st ?me) \<in> M \<union> set (ut_blocks st)" using meb by (auto simp: ut_blocks_def)
  have ne: "ss_sp (tcb st ?me) \<noteq> ?me"
  proof -
    have "ss_sp (tcb st ?me) \<in> (\<lambda>p. ss_sp (tcb st p)) ` set (tcb_blocks st)" using meb by blast
    moreover have "set (tcb_blocks st) \<inter> (\<lambda>p. ss_sp (tcb st p)) ` set (tcb_blocks st) = {}"
      using d by (simp add: ut_blocks_def)
    ultimately show ?thesis using meb by (metis disjoint_iff)
  qed
  obtain h where h: "fr (heap st) (ss_sp (tcb st ?me)) = Some h"
      "ok h (M \<union> set (ut_blocks st) - {ss_sp (tcb st ?me)})"
    using fr_ok [OF okh in1] by blast
  obtain h' where h': "fr h ?me = Some h'"
      "ok h' (M \<union> set (ut_blocks st) - {ss_sp (tcb st ?me)} - {?me})"
    using fr_ok [OF h(2), of ?me] meb ne by (auto simp: ut_blocks_def)
  define st1 where "st1 = st\<lparr>heap := h', s_self := ?me, s_self_tid := int i,
      threads := (threads st)[i := 0], cur_threads := cur_threads st - 1\<rparr>"
  define st2 where "st2 = st1\<lparr>highest_p := get_highest_p st1\<rparr>"
  have run: "uthread_exit fr sched st =
     (if cur_threads st2 = 0 then Ok Exits st2
      else switch_to sched RetExit ((i + 1) mod MAX_UTHREADS) st2)"
    using uthread_self_run [OF o] h h'
    by (simp add: uthread_exit_def i_def [symmetric] tidme Let_def st1_def st2_def)
  have f2: "threads st2 = (threads st)[i := 0]" "heap st2 = h'" "cur_threads st2 = cur_threads st - 1"
      "tcb st2 = tcb st" "\<not> first_uthread st2" "highest_p st2 = get_highest_p st2"
    using nf by (simp_all add: st2_def st1_def get_highest_p_def)
  have inv2: "ut_inv ok M (st2\<lparr>running_tid := -1\<rparr>)"
    by (rule ut_inv_remove [OF inv nf i(1,2) h'(2)]) (simp_all add: f2)
  then have t2: "table_ok (st2\<lparr>running_tid := -1\<rparr>)" using f2 by (simp add: ut_inv_def)
  have tb2: "tcb_blocks (st2\<lparr>running_tid := -1\<rparr>) = tcb_blocks st2" by (simp add: tcb_blocks_def)
  show ?thesis
  proof (cases "cur_threads st = 1")
    case True
    then have "tcb_blocks st2 = []" using t2 f2 by (simp add: table_ok_def tb2)
    then have "ok h' M" using inv2 f2 by (simp add: ut_inv_def ut_blocks_def tb2)
    then show ?thesis using run True f2 by simp
  next
    case False
    have nb: "tcb_blocks st2 \<noteq> []" using t2 f2 False by (auto simp: table_ok_def tb2)
    have "ready sched st2 \<noteq> []"
    proof (cases sched)
      case ROUND_ROBIN
      then show ?thesis using nb ready_blocks [of st2] f2 len by fastforce
    next
      case PRIORITY_BASED
      have "set (tcb_blocks st2) \<subseteq> set (tcb_blocks st)"
        using set_update_subset_insert [of "threads st" i 0] by (auto simp: tcb_blocks_def f2)
      then have "prio_ok st2" using pr PRIORITY_BASED f2 by (auto simp: prio_ok_def)
      then show ?thesis using ready_pb [of st2] nb f2 len PRIORITY_BASED by simp
    qed
    then obtain j where j: "j < MAX_UTHREADS" "eligible sched st2 j"
        "next_thread sched st2 ((i + 1) mod MAX_UTHREADS) = Some (threads st2 ! j)"
      by (rule next_thread_total) auto
    have j0: "threads st2 ! j \<noteq> 0" using j by (simp add: eligible_def)
    then have "j \<noteq> i" using f2(1) len i by auto
    then have ji: "j \<noteq> i" "threads st2 ! j = threads st ! j" by (simp_all add: f2(1))
    obtain c st' where "switch_to sched RetExit ((i + 1) mod MAX_UTHREADS) st2 = Ok c st'"
      "ut_inv ok M st'" "running_tid st' = int j" "threads st' = threads st2"
      "if virgin (tcb st (threads st ! j)) then c = Enters (entryfunc (tcb st (threads st ! j)))
       else c = Resumes \<and> esp st' = ss_esp (tcb st (threads st ! j))"
      using switch_to_spec [OF inv2 f2(5) j(1) j0 j(3), of RetExit] by (auto simp: f2(4) ji split: if_splits)
    then show ?thesis using run False f2 ji j(1) j0 i(3) by (simp add: occupied_def)
  qed
qed

end

lemma urun_exists:
  assumes inv: "ut_inv ok M st" "\<not> first_uthread st" and o: "occupied st (running_tid st)"
  shows "\<exists>tr st'. urun st tr st' \<and> length tr = n"
proof (induction n)
  case 0
  show ?case using urun.start by fastforce
next
  case (Suc n)
  then obtain tr st1 where r: "urun st tr st1" "length tr = n" by blast
  have "nat (running_tid st) \<in> set (ready ROUND_ROBIN st)" using o ready_rr_mem [of st "nat (running_tid st)"]
    by (simp add: occupied_def)
  then obtain a where a: "a < length (ready ROUND_ROBIN st)" "running_tid st = int (ready ROUND_ROBIN st ! a)"
    using o by (auto simp: in_set_conv_nth occupied_def)
  let ?b = "(a + length tr) mod length (ready ROUND_ROBIN st)"
  note t = urun_trace [OF r(1) inv a]
  have b: "?b < length (ready ROUND_ROBIN st1)"
    using a(1) t ready_cong [of st1 st] by (metis mod_less_divisor not_less_zero gr_zeroI)
  obtain c st2 where "uthread_yield ROUND_ROBIN st1 = Ok c st2"
    using uthread_yield_rr [of ok M st1, OF _ _ b] t ready_cong [of st1 st] by auto
  then show ?case using urun.yield [OF r(1)] r(2) by fastforce
qed

section \<open>Properties\<close>

text \<open>A process with two threads, in entries 0 (running) and 1 (not yet started).\<close>

definition demo_heap :: umalloc where
  "demo_heap = \<lparr>h_ptr = \<lambda>_. 4096, h_size = (\<lambda>_. 0)(12288 := 5, 12328 := 501, 16336 := 5, 16376 := 501),
                base = 4096, freep = 4096, brk = 20384, brk_max = 20384\<rparr>"

definition demo_threads :: "umalloc ut_state" where
  "demo_threads =
     \<lparr>heap = demo_heap, first_uthread = False, cur_threads = 2, highest_p = 1,
      threads = 12296 # 16344 # replicate 62 0, running_tid = 0,
      tcb = (\<lambda>_. \<lparr>tid = 0, ss_sp = 12336, ss_esp = 16300, ss_ebp = 16308, priority = 1, entryfunc = 7, virgin = False\<rparr>)
        (16344 := \<lparr>tid = 1, ss_sp = 16384, ss_esp = 20380, ss_ebp = 20380, priority = 2, entryfunc = 9, virgin = True\<rparr>),
      esp = 16200, ebp = 16210, stack = \<lambda>_. Arg 0, s_self = 12296, s_next = 12296, s_self_tid = 0\<rparr>"

lemma demo_blocks:
  "tcb_blocks demo_threads = [12296, 16344]" "set (ut_blocks demo_threads) = {12296, 16344, 12336, 16384}"
  "distinct (ut_blocks demo_threads)"
  by (auto simp: ut_blocks_def tcb_blocks_def demo_threads_def)

lemma demo_heap_ok: "in_use demo_heap {12296, 16344, 12336, 16384}"
proof -
  have f: "h_ptr demo_heap 4096 = 4096" "h_size demo_heap 4096 = 0" "h_size demo_heap 12288 = 5"
    "h_size demo_heap 12328 = 501" "h_size demo_heap 16336 = 5" "h_size demo_heap 16376 = 501"
    "base demo_heap = 4096" "freep demo_heap = 4096" "brk demo_heap = 20384"
    by (simp_all add: demo_heap_def)
  have "blocks_ok demo_heap {12288, 16336, 12328, 16376}"
    by (simp add: blocks_ok_def extent_def f)
  then have "heap_wf demo_heap [] {12288, 16336, 12328, 16376}"
    by (simp add: heap_wf_def f)
  then have "heap_ok demo_heap {12288, 16336, 12328, 16376}" unfolding heap_ok_def by blast
  then show ?thesis by (simp add: in_use_def)
qed

lemma demo_threads_inv:
  "ut_inv in_use {} demo_threads" "\<not> first_uthread demo_threads"
  "occupied demo_threads (running_tid demo_threads)"
proof -
  have "tid (tcb demo_threads (threads demo_threads ! i)) = int i"
    if "i < MAX_UTHREADS" "threads demo_threads ! i \<noteq> 0" for i
    using that by (auto simp: demo_threads_def nth_Cons split: nat.splits)
  moreover show o: "occupied demo_threads (running_tid demo_threads)"
    by (simp add: occupied_def demo_threads_def)
  moreover have "length (threads demo_threads) = MAX_UTHREADS" "cur_threads demo_threads = 2"
    "\<not> virgin (tcb demo_threads (threads demo_threads ! nat (running_tid demo_threads)))"
    "\<forall>p \<in> {12296, 16344}. virgin (tcb demo_threads p) \<longrightarrow>
        ss_esp (tcb demo_threads p) = ss_sp (tcb demo_threads p) + (UTHREAD_STACK_SIZE - 4) \<and>
        ss_ebp (tcb demo_threads p) = ss_sp (tcb demo_threads p) + (UTHREAD_STACK_SIZE - 4)"
    by (simp_all add: demo_threads_def)
  ultimately have "table_ok demo_threads" by (simp add: table_ok_def demo_blocks)
  then show "ut_inv in_use {} demo_threads"
    using demo_heap_ok demo_blocks by (simp add: ut_inv_def) (simp add: demo_threads_def)
  show "\<not> first_uthread demo_threads" by (simp add: demo_threads_def)
qed

definition demo_full_heap :: umalloc where
  "demo_full_heap = demo_heap\<lparr>brk := 20424, brk_max := 20424,
     h_ptr := (\<lambda>_. 4096)(4096 := 20384), h_size := (h_size demo_heap)(20384 := 5)\<rparr>"

lemma demo_full_heap_ok: "in_use demo_full_heap {12296, 16344, 12336, 16384}"
proof -
  have f: "h_ptr demo_full_heap 4096 = 20384" "h_ptr demo_full_heap 20384 = 4096"
    "h_size demo_full_heap 4096 = 0" "h_size demo_full_heap 20384 = 5" "h_size demo_full_heap 12288 = 5"
    "h_size demo_full_heap 12328 = 501" "h_size demo_full_heap 16336 = 5" "h_size demo_full_heap 16376 = 501"
    "base demo_full_heap = 4096" "freep demo_full_heap = 4096" "brk demo_full_heap = 20424"
    by (simp_all add: demo_full_heap_def demo_heap_def)
  have "blocks_ok demo_full_heap {12288, 16336, 12328, 16376, 20384}"
    by (simp add: blocks_ok_def extent_def f)
  then have "heap_wf demo_full_heap [20384] {12288, 16336, 12328, 16376}"
    by (simp add: heap_wf_def ends_before_def f)
  then have "heap_ok demo_full_heap {12288, 16336, 12328, 16376}" unfolding heap_ok_def by blast
  then show ?thesis by (simp add: in_use_def)
qed

lemma demo_full_stack: "\<not> stack_available malloc demo_full_heap"
proof -
  define h where "h = demo_full_heap\<lparr>h_ptr := (h_ptr demo_full_heap)(4096 := 4096)\<rparr>"
  have "malloc demo_full_heap 28 = Some (h, 20392)"
    unfolding malloc_def malloc_units_def
    by (subst malloc_loop.simps)
       (simp add: take_block_def Let_def demo_heap_def demo_full_heap_def h_def fun_eq_iff)
  moreover have "malloc h 4000 = Some (h, 0)"
    unfolding malloc_def malloc_units_def
    by (subst malloc_loop.simps)
       (simp add: morecore_def sbrk_def Let_def demo_heap_def demo_full_heap_def h_def)
  ultimately show ?thesis by (simp add: stack_available_def)
qed







text \<open>
  C2: round robin is fair. In a run in which no thread is created or ends, as many
  calls of \<^verbatim>\<open>uthread_yield\<close> as there are threads switch to every thread exactly once,
  whatever the threads compute and however they set their priorities in between.
\<close>

theorem round_robin_fair:
  assumes "urun st tr st'" and "ut_inv in_use M st" and "\<not> first_uthread st"
    and "occupied st (running_tid st)" and "length tr = nat (cur_threads st)"
  shows "distinct tr \<and> set tr = {i. occupied st i}"
  using urun_fair [OF assms] by blast

theorem round_robin_fair_witness:
  "\<exists>tr st'. urun demo_threads tr st' \<and> distinct tr \<and> set tr = {i. occupied demo_threads i}"
proof -
  obtain tr st' where r: "urun demo_threads tr st'" "length tr = 2"
    using urun_exists [OF demo_threads_inv, of 2] by blast
  have "length tr = nat (cur_threads demo_threads)" using r(2) by (simp add: demo_threads_def)
  then show ?thesis using r(1) round_robin_fair [OF r(1) demo_threads_inv] by blast
qed





text \<open>
  C10: \<^verbatim>\<open>uthread_setpr\<close> does not update \<^verbatim>\<open>highest_p\<close>. Under the priority policy, if the running
  thread was the only one of the highest priority and gives itself another one, its
  next \<^verbatim>\<open>uthread_yield\<close> searches for ever.
\<close>

theorem setpr_yield_spins:
  assumes "table_ok st" and "occupied st (running_tid st)"
    and "\<forall>i. occupied st i \<longrightarrow> i \<noteq> running_tid st \<longrightarrow> priority (tcb st (threads st ! nat i)) \<noteq> highest_p st"
    and "prio \<noteq> highest_p st"
  shows "\<exists>st' st''. uthread_setpr prio st = Ok (priority (tcb st (threads st ! nat (running_tid st)))) st' \<and>
     uthread_yield PRIORITY_BASED st' = Spin st''"
proof -
  let ?i = "nat (running_tid st)"
  let ?me = "threads st ! ?i"
  define st' where "st' = st\<lparr>tcb := (tcb st)(?me := (tcb st ?me)\<lparr>priority := prio\<rparr>)\<rparr>"
  have s: "uthread_setpr prio st = Ok (priority (tcb st ?me)) st'"
    using running_run [OF assms(2)] by (simp add: uthread_setpr_def st'_def)
  have o: "occupied st' (running_tid st')" using assms(2) by (simp add: occupied_def st'_def)
  have f: "tid (tcb st' p) = tid (tcb st p)" "ss_sp (tcb st' p) = ss_sp (tcb st p)"
      "ss_esp (tcb st' p) = ss_esp (tcb st p)" "ss_ebp (tcb st' p) = ss_ebp (tcb st p)"
      "virgin (tcb st' p) = virgin (tcb st p)" for p
    by (simp_all add: st'_def)
  have g: "threads st' = threads st" "running_tid st' = running_tid st" "cur_threads st' = cur_threads st"
    by (simp_all add: st'_def)
  have "table_ok st' = table_ok st" by (simp only: table_ok_def occupied_def tcb_blocks_def f g)
  then have t: "table_ok st'" using assms(1) by simp
  have "\<not> eligible PRIORITY_BASED (saved st') k" if k: "k < 64" for k
  proof
    assume "eligible PRIORITY_BASED (saved st') k"
    then have e: "threads st ! k \<noteq> 0" "priority (tcb (saved st') (threads st ! k)) = highest_p st"
      by (auto simp: eligible_def st'_def saved_def Let_def)
    show False
    proof (cases "threads st ! k = ?me")
      case True
      then show False using e assms(4) by (simp add: st'_def saved_def Let_def)
    next
      case False
      then have "priority (tcb st (threads st ! k)) = highest_p st"
        using e by (simp add: st'_def saved_def Let_def)
      moreover have "occupied st (int k)" using e k by (simp add: occupied_def)
      moreover have "int k \<noteq> running_tid st" using False by (metis nat_int)
      ultimately show False using assms(3) by auto
    qed
  qed
  then have "ready PRIORITY_BASED (saved st') = []" by (auto simp: ready_def filter_empty_conv)
  then have "next_thread PRIORITY_BASED (saved st') ((nat (running_tid st') + 1) mod 64) = None"
    by (rule next_thread_stuck) simp
  then have "uthread_yield PRIORITY_BASED st' = Spin (saved st')"
    using uthread_yield_run [OF t o] by (simp add: switch_to_def)
  then show ?thesis using s by blast
qed

theorem setpr_yield_spins_witness:
  "\<exists>st' st''. uthread_setpr 5 demo_threads = Ok 1 st' \<and> uthread_yield PRIORITY_BASED st' = Spin st''"
proof -
  have "table_ok demo_threads" using demo_threads_inv by (simp add: ut_inv_def)
  moreover have "\<forall>i. occupied demo_threads i \<longrightarrow> i \<noteq> running_tid demo_threads \<longrightarrow>
      priority (tcb demo_threads (threads demo_threads ! nat i)) \<noteq> highest_p demo_threads"
    by (auto simp: occupied_def demo_threads_def nth_Cons split: nat.splits)
  moreover have "highest_p demo_threads = 1" "priority (tcb demo_threads (threads demo_threads ! nat (running_tid demo_threads))) = 1"
    by (simp_all add: demo_threads_def)
  ultimately show ?thesis using setpr_yield_spins [of demo_threads 5] demo_threads_inv(3) by simp
qed

end
