(* ===== verification/Sh.thy ===== *)
theory Sh
  imports Prelude
begin

text \<open>
  The shell of \<^verbatim>\<open>sh.c\<close>: its lexer, its recursive-descent parser and the command runner.
  The line is the list \<open>buf\<close> of its characters before the terminating NUL, a pointer
  into it an index, \<^verbatim>\<open>es\<close> the length of \<open>buf\<close>. The nodes that the constructors allocate
  are values of a datatype; a word is the pair of its first index and the index behind
  its last character. \<^verbatim>\<open>panic\<close> is an error value. The four functions that call each
  other take a fuel argument; \<open>Fuel\<close> is shown never to occur for the fuel that
  \<^verbatim>\<open>parsecmd\<close> starts with.
\<close>

section \<open>Commands\<close>

type_synonym word_pos = "nat \<times> nat"

datatype cmd =
    EXEC "word_pos list"
  | REDIR cmd nat nat nat nat   \<comment> \<open>command, \<^verbatim>\<open>file\<close>, \<^verbatim>\<open>efile\<close>, \<^verbatim>\<open>mode\<close>, \<^verbatim>\<open>fd\<close>\<close>
  | PIPE cmd cmd
  | LIST cmd cmd
  | BACK cmd

definition execcmd :: "word_pos list \<Rightarrow> cmd" where
  "execcmd argv = EXEC argv"

definition redircmd :: "cmd \<Rightarrow> nat \<Rightarrow> nat \<Rightarrow> nat \<Rightarrow> nat \<Rightarrow> cmd" where
  "redircmd subcmd file efile mode fd = REDIR subcmd file efile mode fd"

definition pipecmd :: "cmd \<Rightarrow> cmd \<Rightarrow> cmd" where
  "pipecmd left right = PIPE left right"

definition listcmd :: "cmd \<Rightarrow> cmd \<Rightarrow> cmd" where
  "listcmd left right = LIST left right"

definition backcmd :: "cmd \<Rightarrow> cmd" where
  "backcmd subcmd = BACK subcmd"

abbreviation (input) MAXARGS :: nat where "MAXARGS \<equiv> 10"
abbreviation (input) O_RDONLY :: nat where "O_RDONLY \<equiv> 0"
abbreviation (input) O_WRONLY_CREATE :: nat where "O_WRONLY_CREATE \<equiv> 0x201"

section \<open>Lexer\<close>

abbreviation (input) NUL :: char where "NUL \<equiv> CHR 0x00"

definition whitespace :: string where
  "whitespace = [CHR '' '', CHR 0x09, CHR 0x0D, CHR 0x0A, CHR 0x0B]"

definition symbols :: string where
  "symbols = ''<|>&;()''"

definition char_at :: "string \<Rightarrow> nat \<Rightarrow> char" where
  "char_at buf i = (if i < length buf then buf ! i else NUL)"

function skip_ws :: "string \<Rightarrow> nat \<Rightarrow> nat" where
  "skip_ws buf s = (if s < length buf \<and> buf ! s \<in> set whitespace then skip_ws buf (s + 1) else s)"
  by pat_completeness auto
termination by (relation "measure (\<lambda>(buf, s). length buf - s)") auto

function skip_word :: "string \<Rightarrow> nat \<Rightarrow> nat" where
  "skip_word buf s =
     (if s < length buf \<and> buf ! s \<notin> set whitespace \<and> buf ! s \<notin> set symbols
      then skip_word buf (s + 1) else s)"
  by pat_completeness auto
termination by (relation "measure (\<lambda>(buf, s). length buf - s)") auto

declare skip_ws.simps [simp del] skip_word.simps [simp del]

text \<open>\<^verbatim>\<open>gettoken\<close>: the token, \<^verbatim>\<open>*q\<close>, \<^verbatim>\<open>*eq\<close> and the new \<^verbatim>\<open>*ps\<close>.\<close>

definition gettoken :: "string \<Rightarrow> nat \<Rightarrow> char \<times> nat \<times> nat \<times> nat" where
  "gettoken buf ps =
     (let q = skip_ws buf ps; c = char_at buf q;
          (ret, s) =
            (if c = NUL then (c, q)
             else if c \<in> set ''|();&<'' then (c, q + 1)
             else if c = CHR ''>'' then
               (if char_at buf (q + 1) = CHR ''>'' then (CHR ''+'', q + 2) else (c, q + 1))
             else (CHR ''a'', skip_word buf q))
      in (ret, q, s, skip_ws buf s))"

definition peek :: "string \<Rightarrow> nat \<Rightarrow> string \<Rightarrow> nat \<times> bool" where
  "peek buf ps toks =
     (let s = skip_ws buf ps in (s, char_at buf s \<noteq> NUL \<and> char_at buf s \<in> set toks))"

lemma skip_ws_ge: "s \<le> skip_ws buf s"
proof (induction buf s rule: skip_ws.induct)
  case (1 buf s)
  then show ?case by (subst skip_ws.simps) (auto split: if_splits)
qed

lemma skip_ws_le: "s \<le> length buf \<Longrightarrow> skip_ws buf s \<le> length buf"
proof (induction buf s rule: skip_ws.induct)
  case (1 buf s)
  then show ?case by (subst skip_ws.simps) auto
qed

lemma skip_word_ge: "s \<le> skip_word buf s"
proof (induction buf s rule: skip_word.induct)
  case (1 buf s)
  then show ?case by (subst skip_word.simps) (auto split: if_splits)
qed

lemma skip_word_le: "s \<le> length buf \<Longrightarrow> skip_word buf s \<le> length buf"
proof (induction buf s rule: skip_word.induct)
  case (1 buf s)
  then show ?case by (subst skip_word.simps) auto
qed

lemma skip_ws_stop: "skip_ws buf s < length buf \<Longrightarrow> buf ! skip_ws buf s \<notin> set whitespace"
proof (induction buf s rule: skip_ws.induct)
  case (1 buf s)
  show ?case
  proof (cases "s < length buf \<and> buf ! s \<in> set whitespace")
    case True
    then have "skip_ws buf s = skip_ws buf (s + 1)" by (subst skip_ws.simps) simp
    then show ?thesis using 1 True by simp
  next
    case False
    then have "skip_ws buf s = s" by (subst skip_ws.simps) auto
    then show ?thesis using False 1 by auto
  qed
qed

text \<open>A token that is not the end of the line is not empty.\<close>

lemma gettoken_advances:
  assumes "gettoken buf ps = (tok, q, eq, ps')" "tok \<noteq> NUL" "ps \<le> length buf"
  shows "ps \<le> q" "q < eq" "eq \<le> ps'" "ps' \<le> length buf" "eq \<le> length buf"
proof -
  let ?q = "skip_ws buf ps"
  have q: "q = ?q" "ps' = skip_ws buf eq" using assms(1) by (auto simp: gettoken_def Let_def split: prod.splits)
  have lt: "?q < length buf" using assms(1,2)
    by (auto simp: gettoken_def Let_def char_at_def split: if_splits)
  have "q < eq \<and> eq \<le> length buf"
  proof (cases "tok = CHR ''a''")
    case True
    then have w: "buf ! ?q \<notin> set symbols" "eq = skip_word buf ?q"
      using assms(1,2) lt by (auto simp: gettoken_def Let_def char_at_def symbols_def split: if_splits)
    have "skip_word buf ?q = skip_word buf (?q + 1)"
      using w(1) lt skip_ws_stop [OF lt] by (subst skip_word.simps) simp
    then show ?thesis using skip_word_ge [of "?q + 1" buf] skip_word_le [of "?q + 1" buf] lt w q by simp
  next
    case False
    have "char_at buf (?q + 1) = CHR ''>'' \<Longrightarrow> ?q + 1 < length buf"
      by (auto simp: char_at_def split: if_splits)
    then show ?thesis using assms(1,2) False lt q(1)
      by (auto simp: gettoken_def Let_def split: if_splits)
  qed
  then show "ps \<le> q" "q < eq" "eq \<le> ps'" "ps' \<le> length buf" "eq \<le> length buf"
    using q skip_ws_ge [of ps buf] skip_ws_ge [of eq buf] skip_ws_le [of eq buf] by auto
qed

lemma gettoken_mono: "gettoken buf ps = (tok, q, eq, ps') \<Longrightarrow> ps \<le> ps'"
  using skip_ws_ge [of ps buf] skip_word_ge [of "skip_ws buf ps" buf] skip_ws_ge [of eq buf]
  by (auto simp: gettoken_def Let_def split: if_splits)

lemma gettoken_le: "gettoken buf ps = (tok, q, eq, ps') \<Longrightarrow> ps \<le> length buf \<Longrightarrow> ps' \<le> length buf"
  using gettoken_advances(4) [of buf ps tok q eq ps'] skip_ws_le [of ps buf]
  by (cases "tok = NUL") (auto simp: gettoken_def Let_def skip_ws_le split: if_splits)

lemma peek_hit:
  assumes "peek buf ps toks = (s, True)"
  shows "ps \<le> s" "s < length buf" "buf ! s \<in> set toks" "buf ! s \<notin> set whitespace"
  using assms skip_ws_ge [of ps buf] skip_ws_stop [of buf ps]
  by (auto simp: peek_def Let_def char_at_def split: if_splits)

lemma skip_ws_idem: "s < length buf \<Longrightarrow> buf ! s \<notin> set whitespace \<Longrightarrow> skip_ws buf s = s"
  by (subst skip_ws.simps) simp

lemma gettoken_after_peek:
  assumes "peek buf ps toks = (s, True)" "gettoken buf s = (tok, q, eq, ps')"
  shows "ps < ps'" "s < ps'" "ps' \<le> length buf" "q = s" "s < eq" "eq \<le> ps'"
proof -
  note h = peek_hit [OF assms(1)]
  have "skip_ws buf s = s" using skip_ws_idem h by blast
  moreover have "char_at buf s \<noteq> NUL" using assms(1) by (auto simp: peek_def Let_def)
  ultimately have "tok \<noteq> NUL" "q = s" using assms(2)
    by (auto simp: gettoken_def Let_def split: if_splits)
  then show "ps < ps'" "s < ps'" "ps' \<le> length buf" "q = s" "s < eq" "eq \<le> ps'"
    using gettoken_advances [OF assms(2)] h by auto
qed

lemma token_decreases:
  assumes "peek buf ps toks = (s, True)" "gettoken buf s = (tok, q, eq, s1)"
  shows "length buf - s1 < length buf - ps"
  using gettoken_after_peek [OF assms] peek_hit [OF assms(1)] by simp

lemma tokens_decrease:
  assumes "peek buf ps toks = (s, True)" "gettoken buf s = (tok, q, eq, s1)" "gettoken buf s1 = (tok', q', eq', s2)"
  shows "length buf - s2 < length buf - ps"
  using token_decreases [OF assms(1,2)] gettoken_mono [OF assms(3)] by simp

section \<open>Parser\<close>

datatype parse_error = Syntax string | Fuel

text \<open>
  The loop of \<^verbatim>\<open>parseredirs\<close> as the list of the redirections it found; \<open>redirs\<close> wraps a
  command in them. (In \<^verbatim>\<open>parseexec\<close> the command they wrap is filled in afterwards.)
\<close>

type_synonym redir = "nat \<times> nat \<times> nat \<times> nat"

function parseredirs :: "string \<Rightarrow> nat \<Rightarrow> parse_error + redir list \<times> nat" where
  "parseredirs buf ps =
     (case peek buf ps ''<>'' of
        (s, False) \<Rightarrow> Inr ([], s)
      | (s, True) \<Rightarrow>
          (case gettoken buf s of (tok, _, _, s1) \<Rightarrow>
           case gettoken buf s1 of (tok', q, eq, s2) \<Rightarrow>
             if tok' \<noteq> CHR ''a'' then Inl (Syntax ''missing file for redirection'')
             else
               let r = (if tok = CHR ''<'' then (q, eq, O_RDONLY, 0) else (q, eq, O_WRONLY_CREATE, 1)) in
               case parseredirs buf s2 of Inl e \<Rightarrow> Inl e | Inr (rs, s3) \<Rightarrow> Inr (r # rs, s3)))"
  by pat_completeness auto
termination
proof (relation "measure (\<lambda>(buf, ps). length buf - ps)")
  show "wf (measure (\<lambda>(buf, ps). length buf - ps))" by simp
qed (auto dest!: tokens_decrease [OF sym sym sym])

declare parseredirs.simps [simp del]

definition redirs :: "cmd \<Rightarrow> redir list \<Rightarrow> cmd" where
  "redirs c rs = foldl (\<lambda>c (q, eq, mode, fd). redircmd c q eq mode fd) c rs"

text \<open>The \<^verbatim>\<open>while\<close> loop of \<^verbatim>\<open>parseexec\<close>.\<close>

function parseargs :: "string \<Rightarrow> nat \<Rightarrow> word_pos list \<Rightarrow> redir list \<Rightarrow>
    parse_error + (word_pos list \<times> redir list) \<times> nat" where
  "parseargs buf ps argv rs =
     (case peek buf ps ''|)&;'' of
        (s, True) \<Rightarrow> Inr ((argv, rs), s)
      | (s, False) \<Rightarrow>
          (case gettoken buf s of (tok, q, eq, s1) \<Rightarrow>
             if tok = NUL then Inr ((argv, rs), s1)
             else if tok \<noteq> CHR ''a'' then Inl (Syntax ''syntax'')
             else if length argv + 1 \<ge> MAXARGS then Inl (Syntax ''too many args'')
             else case parseredirs buf s1 of Inl e \<Rightarrow> Inl e
               | Inr (rs', s2) \<Rightarrow> parseargs buf s2 (argv @ [(q, eq)]) (rs @ rs')))"
  by pat_completeness auto
termination
  by (relation "measure (\<lambda>(buf, ps, argv, rs). MAXARGS - length argv)") auto

declare parseargs.simps [simp del]

text \<open>The \<^verbatim>\<open>while\<close> loop of \<^verbatim>\<open>parseline\<close>.\<close>

function parseback :: "string \<Rightarrow> nat \<Rightarrow> cmd \<Rightarrow> cmd \<times> nat" where
  "parseback buf ps c =
     (case peek buf ps ''&'' of (s, False) \<Rightarrow> (c, s)
      | (s, True) \<Rightarrow> (case gettoken buf s of (_, _, _, s1) \<Rightarrow> parseback buf s1 (backcmd c)))"
  by pat_completeness auto
termination
proof (relation "measure (\<lambda>(buf, ps, c). length buf - ps)")
  show "wf (measure (\<lambda>(buf, ps, c). length buf - ps))" by simp
qed (auto dest!: token_decreases [OF sym sym])

declare parseback.simps [simp del]

fun parseline :: "nat \<Rightarrow> string \<Rightarrow> nat \<Rightarrow> parse_error + cmd \<times> nat"
  and parsepipe :: "nat \<Rightarrow> string \<Rightarrow> nat \<Rightarrow> parse_error + cmd \<times> nat"
  and parseblock :: "nat \<Rightarrow> string \<Rightarrow> nat \<Rightarrow> parse_error + cmd \<times> nat"
  and parseexec :: "nat \<Rightarrow> string \<Rightarrow> nat \<Rightarrow> parse_error + cmd \<times> nat" where
  "parseline 0 buf ps = Inl Fuel"
| "parseline (Suc f) buf ps =
     (case parsepipe f buf ps of Inl e \<Rightarrow> Inl e | Inr (c, s) \<Rightarrow>
        (case parseback buf s c of (c1, s1) \<Rightarrow>
         case peek buf s1 '';'' of
           (s2, False) \<Rightarrow> Inr (c1, s2)
         | (s2, True) \<Rightarrow>
             (case gettoken buf s2 of (_, _, _, s3) \<Rightarrow>
              case parseline f buf s3 of Inl e \<Rightarrow> Inl e
              | Inr (c2, s4) \<Rightarrow> Inr (listcmd c1 c2, s4))))"
| "parsepipe 0 buf ps = Inl Fuel"
| "parsepipe (Suc f) buf ps =
     (case parseexec f buf ps of Inl e \<Rightarrow> Inl e | Inr (c, s) \<Rightarrow>
        (case peek buf s ''|'' of
           (s1, False) \<Rightarrow> Inr (c, s1)
         | (s1, True) \<Rightarrow>
             (case gettoken buf s1 of (_, _, _, s2) \<Rightarrow>
              case parsepipe f buf s2 of Inl e \<Rightarrow> Inl e
              | Inr (c2, s3) \<Rightarrow> Inr (pipecmd c c2, s3))))"
| "parseblock 0 buf ps = Inl Fuel"
| "parseblock (Suc f) buf ps =
     (case peek buf ps ''('' of
        (s, False) \<Rightarrow> Inl (Syntax ''parseblock'')
      | (s, True) \<Rightarrow>
          (case gettoken buf s of (_, _, _, s1) \<Rightarrow>
           case parseline f buf s1 of Inl e \<Rightarrow> Inl e | Inr (c, s2) \<Rightarrow>
             (case peek buf s2 '')'' of
                (s3, False) \<Rightarrow> Inl (Syntax ''syntax - missing )'')
              | (s3, True) \<Rightarrow>
                  (case gettoken buf s3 of (_, _, _, s4) \<Rightarrow>
                   case parseredirs buf s4 of Inl e \<Rightarrow> Inl e
                   | Inr (rs, s5) \<Rightarrow> Inr (redirs c rs, s5)))))"
| "parseexec 0 buf ps = Inl Fuel"
| "parseexec (Suc f) buf ps =
     (case peek buf ps ''('' of
        (s, True) \<Rightarrow> parseblock f buf s
      | (s, False) \<Rightarrow>
          (case parseredirs buf s of Inl e \<Rightarrow> Inl e | Inr (rs, s1) \<Rightarrow>
           case parseargs buf s1 [] rs of Inl e \<Rightarrow> Inl e
           | Inr ((argv, rs'), s2) \<Rightarrow> Inr (redirs (execcmd argv) rs', s2)))"

text \<open>\<^verbatim>\<open>nulterminate\<close>: the line after a NUL has been stored behind every word of the command.\<close>

primrec nulterminate :: "cmd \<Rightarrow> string \<Rightarrow> string" where
  "nulterminate (EXEC argv) buf = foldl (\<lambda>b (q, eq). b[eq := NUL]) buf argv"
| "nulterminate (REDIR c file efile mode fd) buf = (nulterminate c buf)[efile := NUL]"
| "nulterminate (PIPE l r) buf = nulterminate r (nulterminate l buf)"
| "nulterminate (LIST l r) buf = nulterminate r (nulterminate l buf)"
| "nulterminate (BACK c) buf = nulterminate c buf"

definition parsecmd :: "string \<Rightarrow> parse_error + cmd \<times> string" where
  "parsecmd buf =
     (case parseline (4 * length buf + 4) buf 0 of Inl e \<Rightarrow> Inl e
      | Inr (c, s) \<Rightarrow>
          (case peek buf s [] of (s1, _) \<Rightarrow>
             if s1 \<noteq> length buf then Inl (Syntax ''leftovers'')
             else Inr (c, nulterminate c (buf @ [NUL]))))"

section \<open>The parser ends\<close>

lemma peek_pos: "peek buf ps toks = (s, b) \<Longrightarrow> ps \<le> s \<and> (ps \<le> length buf \<longrightarrow> s \<le> length buf)"
  using skip_ws_ge [of ps buf] skip_ws_le [of ps buf] by (auto simp: peek_def Let_def)

lemma gettoken_pos: "gettoken buf ps = (tok, q, eq, s) \<Longrightarrow> ps \<le> s \<and> (ps \<le> length buf \<longrightarrow> s \<le> length buf)"
  using gettoken_mono gettoken_le by blast

text \<open>Induction over the successful runs of the loops.\<close>

lemma parseredirs_ok_induct [consumes 1, case_names none one]:
  assumes "parseredirs buf ps = Inr (rs, s)"
    and none: "\<And>ps s. peek buf ps ''<>'' = (s, False) \<Longrightarrow> P ps [] s"
    and one: "\<And>ps s0 tok a b s1 q eq s2 mode fd rs s. peek buf ps ''<>'' = (s0, True) \<Longrightarrow>
       gettoken buf s0 = (tok, a, b, s1) \<Longrightarrow> gettoken buf s1 = (CHR ''a'', q, eq, s2) \<Longrightarrow>
       parseredirs buf s2 = Inr (rs, s) \<Longrightarrow> P s2 rs s \<Longrightarrow> P ps ((q, eq, mode, fd) # rs) s"
  shows "P ps rs s"
  using assms(1)
proof (induction "length buf - ps" arbitrary: ps rs s rule: less_induct)
  case less
  obtain s0 b where p: "peek buf ps ''<>'' = (s0, b)" by fastforce
  obtain tok a c s1 where g: "gettoken buf s0 = (tok, a, c, s1)" by (metis prod_cases4)
  obtain tok' q eq s2 where g': "gettoken buf s1 = (tok', q, eq, s2)" by (metis prod_cases4)
  note run = less.prems [unfolded parseredirs.simps [of buf ps] p g]
  show ?case
  proof (cases b)
    case False
    then show ?thesis using run none p by auto
  next
    case True
    then obtain mode fd rs' where r: "tok' = CHR ''a''" "rs = (q, eq, mode, fd) # rs'" "parseredirs buf s2 = Inr (rs', s)"
      using run g g' by (auto simp: Let_def split: if_splits sum.splits)
    have pT: "peek buf ps ''<>'' = (s0, True)" using p True by simp
    have "P s2 rs' s" using less.hyps tokens_decrease [OF pT g g'] r(3) by blast
    then show ?thesis using one [OF pT g _ r(3)] g' r(1,2) by simp
  qed
qed

lemma parseargs_ok_induct [consumes 1, case_names stop more]:
  assumes "parseargs buf ps argv rs = Inr (r, s)"
    and stop: "\<And>ps argv rs s0 b s. peek buf ps ''|)&;'' = (s0, b) \<Longrightarrow>
       (if b then s = s0 else \<exists>q eq. gettoken buf s0 = (NUL, q, eq, s)) \<Longrightarrow> P ps argv rs (argv, rs) s"
    and more: "\<And>ps argv rs s0 q eq s1 rs' s2 r s. peek buf ps ''|)&;'' = (s0, False) \<Longrightarrow>
       gettoken buf s0 = (CHR ''a'', q, eq, s1) \<Longrightarrow> length argv + 1 < MAXARGS \<Longrightarrow>
       parseredirs buf s1 = Inr (rs', s2) \<Longrightarrow>
       P s2 (argv @ [(q, eq)]) (rs @ rs') r s \<Longrightarrow> P ps argv rs r s"
  shows "P ps argv rs r s"
  using assms(1)
proof (induction "MAXARGS - length argv" arbitrary: ps argv rs rule: less_induct)
  case less
  obtain s0 b where p: "peek buf ps ''|)&;'' = (s0, b)" by fastforce
  obtain tok q eq s1 where g: "gettoken buf s0 = (tok, q, eq, s1)" by (metis prod_cases4)
  note run = less.prems [unfolded parseargs.simps [of buf ps] p g]
  show ?case
  proof (cases "b \<or> tok = NUL")
    case True
    then show ?thesis using run stop [OF p] g by (auto split: if_splits bool.splits)
  next
    case False
    then obtain rs' s2 where r: "tok = CHR ''a''" "length argv + 1 < MAXARGS" "parseredirs buf s1 = Inr (rs', s2)"
        "parseargs buf s2 (argv @ [(q, eq)]) (rs @ rs') = Inr (r, s)"
      using run g by (auto split: if_splits sum.splits)
    have "P s2 (argv @ [(q, eq)]) (rs @ rs') r s" using less.hyps r(2,4) by simp
    then show ?thesis using more [of ps s0 q eq s1 argv rs' s2 rs r s] p g r False by auto
  qed
qed

lemma parseredirs_pos:
  "parseredirs buf ps = Inr (rs, s) \<Longrightarrow> ps \<le> s \<and> (ps \<le> length buf \<longrightarrow> s \<le> length buf)"
proof (induction rule: parseredirs_ok_induct)
  case (one ps s0 tok a b s1 q eq s2 mode fd rs s)
  then show ?case using peek_pos [OF one(1)] gettoken_pos [OF one(2)] gettoken_pos [OF one(3)] by auto
qed (rule peek_pos)

lemma parseargs_pos:
  "parseargs buf ps argv rs = Inr (r, s) \<Longrightarrow> ps \<le> s \<and> (ps \<le> length buf \<longrightarrow> s \<le> length buf)"
proof (induction rule: parseargs_ok_induct)
  case (stop ps argv rs s0 b s)
  then show ?case using peek_pos [OF stop(1)] gettoken_pos [of buf s0 NUL _ _ s] by (fastforce split: if_splits)
next
  case (more ps argv rs s0 q eq s1 rs' s2 r s)
  then show ?case using peek_pos [OF more(1)] gettoken_pos [OF more(2)] parseredirs_pos [OF more(4)] by auto
qed

lemma parseredirs_fuel: "parseredirs buf ps \<noteq> Inl Fuel"
proof (induction "length buf - ps" arbitrary: ps rule: less_induct)
  case less
  obtain s0 b where p: "peek buf ps ''<>'' = (s0, b)" by fastforce
  obtain tok a c s1 where g: "gettoken buf s0 = (tok, a, c, s1)" by (metis prod_cases4)
  obtain tok' q eq s2 where g': "gettoken buf s1 = (tok', q, eq, s2)" by (metis prod_cases4)
  have "b \<Longrightarrow> parseredirs buf s2 \<noteq> Inl Fuel"
    using less tokens_decrease [OF _ g g'] p by auto
  then show ?case
    by (subst parseredirs.simps) (auto simp: p g g' Let_def split: bool.splits sum.splits)
qed

lemma parseargs_fuel: "parseargs buf ps argv rs \<noteq> Inl Fuel"
proof (induction "MAXARGS - length argv" arbitrary: ps argv rs rule: less_induct)
  case less
  obtain s0 b where p: "peek buf ps ''|)&;'' = (s0, b)" by fastforce
  obtain tok q eq s1 where g: "gettoken buf s0 = (tok, q, eq, s1)" by (metis prod_cases4)
  have "length argv + 1 < MAXARGS \<Longrightarrow> parseargs buf s2 (argv @ [(q, eq)]) rs2 \<noteq> Inl Fuel" for s2 rs2
    using less by simp
  then show ?case using parseredirs_fuel [of buf s1]
    by (subst parseargs.simps) (auto simp: p g split: bool.splits sum.splits)
qed

lemma parseback_ok_induct [consumes 1, case_names none one]:
  assumes "parseback buf ps c = (c', s)"
    and none: "\<And>ps c s. peek buf ps ''&'' = (s, False) \<Longrightarrow> P ps c c s"
    and one: "\<And>ps c s0 tok q eq s1 c' s. peek buf ps ''&'' = (s0, True) \<Longrightarrow>
       gettoken buf s0 = (tok, q, eq, s1) \<Longrightarrow> P s1 (BACK c) c' s \<Longrightarrow> P ps c c' s"
  shows "P ps c c' s"
  using assms(1)
proof (induction "length buf - ps" arbitrary: ps c rule: less_induct)
  case less
  obtain s0 b where p: "peek buf ps ''&'' = (s0, b)" by fastforce
  obtain tok q eq s1 where g: "gettoken buf s0 = (tok, q, eq, s1)" by (metis prod_cases4)
  note run = less.prems [unfolded parseback.simps [of buf ps] p g]
  show ?case
  proof (cases b)
    case False
    then show ?thesis using run none p by auto
  next
    case True
    then have "parseback buf s1 (BACK c) = (c', s)" using run g by (simp add: backcmd_def)
    moreover have pT: "peek buf ps ''&'' = (s0, True)" using p True by simp
    ultimately have "P s1 (BACK c) c' s" using less.hyps token_decreases [OF pT g] by blast
    then show ?thesis using one [OF pT g] by blast
  qed
qed

lemma parseback_pos:
  "parseback buf ps c = (c', s) \<Longrightarrow> ps \<le> s \<and> (ps \<le> length buf \<longrightarrow> s \<le> length buf)"
proof (induction rule: parseback_ok_induct)
  case (one ps c s0 tok q eq s1 c' s)
  then show ?case using peek_pos [OF one(1)] gettoken_pos [OF one(2)] by auto
qed (rule peek_pos)

section \<open>The words of a command\<close>

primrec words :: "cmd \<Rightarrow> word_pos list" where
  "words (EXEC argv) = argv"
| "words (REDIR c file efile mode fd) = words c @ [(file, efile)]"
| "words (PIPE l r) = words l @ words r"
| "words (LIST l r) = words l @ words r"
| "words (BACK c) = words c"

definition word_char :: "char \<Rightarrow> bool" where
  "word_char c \<longleftrightarrow> c \<notin> set whitespace \<and> c \<notin> set symbols"

text \<open>A word is a maximal run of word characters of the line.\<close>

definition word_ok :: "string \<Rightarrow> word_pos \<Rightarrow> bool" where
  "word_ok buf w \<longleftrightarrow> (case w of (q, eq) \<Rightarrow> q < eq \<and> eq \<le> length buf \<and>
     (\<forall>i. q \<le> i \<and> i < eq \<longrightarrow> word_char (buf ! i)) \<and> (eq < length buf \<longrightarrow> \<not> word_char (buf ! eq)))"

lemma skip_word_chars:
  "s \<le> i \<Longrightarrow> i < skip_word buf s \<Longrightarrow> word_char (buf ! i)"
  "skip_word buf s < length buf \<Longrightarrow> \<not> word_char (buf ! skip_word buf s)"
proof -
  show "s \<le> i \<Longrightarrow> i < skip_word buf s \<Longrightarrow> word_char (buf ! i)"
  proof (induction buf s rule: skip_word.induct)
    case (1 buf s)
    show ?case
    proof (cases "s < length buf \<and> word_char (buf ! s)")
      case True
      then have "skip_word buf s = skip_word buf (s + 1)" by (subst skip_word.simps) (simp add: word_char_def)
      then show ?thesis using 1 True by (cases "i = s") (auto simp: word_char_def)
    next
      case False
      then have "skip_word buf s = s" by (subst skip_word.simps) (auto simp: word_char_def)
      then show ?thesis using 1 by simp
    qed
  qed
  show "skip_word buf s < length buf \<Longrightarrow> \<not> word_char (buf ! skip_word buf s)"
  proof (induction buf s rule: skip_word.induct)
    case (1 buf s)
    show ?case
    proof (cases "s < length buf \<and> word_char (buf ! s)")
      case True
      then have "skip_word buf s = skip_word buf (s + 1)" by (subst skip_word.simps) (simp add: word_char_def)
      then show ?thesis using 1 True by (auto simp: word_char_def)
    next
      case False
      then have "skip_word buf s = s" by (subst skip_word.simps) (auto simp: word_char_def)
      then show ?thesis using 1 False by simp
    qed
  qed
qed

lemma gettoken_word:
  assumes "gettoken buf ps = (CHR ''a'', q, eq, s)" "ps \<le> length buf"
  shows "word_ok buf (q, eq)"
proof -
  have "eq = skip_word buf q"
    using assms(1) by (auto simp: gettoken_def Let_def split: if_splits)
  moreover have "q < eq" "eq \<le> length buf" using gettoken_advances [OF assms(1) _ assms(2)] by auto
  ultimately show ?thesis using skip_word_chars(1) [of q _ buf] skip_word_chars(2) [of buf q] by (auto simp: word_ok_def)
qed

lemma words_redirs: "words (redirs c rs) = words c @ map (\<lambda>x. (fst x, fst (snd x))) rs"
  by (induction rs arbitrary: c) (auto simp: redirs_def redircmd_def)

lemma parseredirs_words:
  "parseredirs buf ps = Inr (rs, s) \<Longrightarrow> ps \<le> length buf \<Longrightarrow>
     \<forall>x \<in> set rs. word_ok buf (fst x, fst (snd x))"
proof (induction rule: parseredirs_ok_induct)
  case (one ps s0 tok a b s1 q eq s2 mode fd rs s)
  have "s1 \<le> length buf" using peek_pos [OF one(1)] gettoken_pos [OF one(2)] one.prems by auto
  then have "word_ok buf (q, eq)" "s2 \<le> length buf" using gettoken_word [OF one(3)] gettoken_pos [OF one(3)] by auto
  then show ?case using one.IH by auto
qed simp

lemma parseargs_words:
  "parseargs buf ps argv rs = Inr (r, s) \<Longrightarrow> ps \<le> length buf \<Longrightarrow>
     (\<forall>w \<in> set argv. word_ok buf w) \<Longrightarrow> (\<forall>x \<in> set rs. word_ok buf (fst x, fst (snd x))) \<Longrightarrow>
     (\<forall>w \<in> set (fst r). word_ok buf w) \<and> (\<forall>x \<in> set (snd r). word_ok buf (fst x, fst (snd x))) \<and>
     (length argv < MAXARGS \<longrightarrow> length (fst r) < MAXARGS)"
proof (induction rule: parseargs_ok_induct)
  case (more ps argv rs s0 q eq s1 rs' s2 r s)
  have "s0 \<le> length buf" using peek_pos [OF more(1)] more.prems by simp
  then have w: "word_ok buf (q, eq)" and s1: "s1 \<le> length buf"
    using gettoken_word [OF more(2)] gettoken_pos [OF more(2)] by auto
  have s2: "s2 \<le> length buf" using parseredirs_pos [OF more(4)] s1 by simp
  have a: "\<forall>w \<in> set (argv @ [(q, eq)]). word_ok buf w" using more.prems(2) w by simp
  have b: "\<forall>x \<in> set (rs @ rs'). word_ok buf (fst x, fst (snd x))"
    using more.prems(3) parseredirs_words [OF more(4) s1] by (simp add: ball_Un)
  show ?case using more.IH [OF s2 a b] more(3) by fastforce
next
  case (stop ps argv rs s0 b s)
  then show ?case by simp
qed

lemma parseback_words: "parseback buf ps c = (c', s) \<Longrightarrow> words c' = words c"
  by (induction rule: parseback_ok_induct) auto

definition words_ok :: "string \<Rightarrow> cmd \<Rightarrow> bool" where
  "words_ok buf c \<longleftrightarrow> (\<forall>w \<in> set (words c). word_ok buf w)"

definition parsed_ok :: "string \<Rightarrow> nat \<Rightarrow> nat \<Rightarrow> nat \<Rightarrow> parse_error + cmd \<times> nat \<Rightarrow> bool" where
  "parsed_ok buf k f ps r \<longleftrightarrow> (ps \<le> length buf \<longrightarrow>
     (case r of Inl e \<Rightarrow> 4 * (length buf - ps) + k \<le> f \<longrightarrow> e \<noteq> Fuel
      | Inr (c, s) \<Rightarrow> ps \<le> s \<and> s \<le> length buf \<and> words_ok buf c))"

lemma parsed_okD:
  "parsed_ok buf k f ps (Inr (c, s)) \<Longrightarrow> ps \<le> length buf \<Longrightarrow> ps \<le> s \<and> s \<le> length buf \<and> words_ok buf c"
  "parsed_ok buf k f ps (Inl e) \<Longrightarrow> ps \<le> length buf \<Longrightarrow> 4 * (length buf - ps) + k \<le> f \<Longrightarrow> e \<noteq> Fuel"
  by (auto simp: parsed_ok_def)

lemma parseline_step:
  assumes pp: "\<And>ps. parsed_ok buf 3 f ps (parsepipe f buf ps)" and pl: "\<And>ps. parsed_ok buf 4 f ps (parseline f buf ps)"
  shows "parsed_ok buf 4 (Suc f) ps (parseline (Suc f) buf ps)"
proof (cases "parsepipe f buf ps")
  case (Inl e)
  then show ?thesis using pp [of ps] by (auto simp: parsed_ok_def)
next
  case (Inr r)
  then obtain c s where r: "parsepipe f buf ps = Inr (c, s)" by (cases r) auto
  obtain c1 s1 where b: "parseback buf s c = (c1, s1)" by fastforce
  obtain s2 h where p: "peek buf s1 '';'' = (s2, h)" by fastforce
  obtain tok q eq s3 where g: "gettoken buf s2 = (tok, q, eq, s3)" by (metis prod_cases4)
  have pos: "ps \<le> s2 \<and> s2 \<le> length buf \<and> words_ok buf c1" if "ps \<le> length buf"
    using parsed_okD(1) [OF pp [of ps, unfolded r] that] parseback_pos [OF b] peek_pos [OF p] parseback_words [OF b]
    by (auto simp: words_ok_def)
  show ?thesis
  proof (cases h)
    case False
    then show ?thesis using r b p pos by (simp add: parsed_ok_def)
  next
    case True
    then have s3: "s2 < s3" "s3 \<le> length buf" using gettoken_after_peek [of buf s1 _ s2, OF _ g] p by auto
    show ?thesis using pos s3 pl [of s3] True r b p g
      by (auto simp: parsed_ok_def listcmd_def words_ok_def split: sum.splits)
  qed
qed

lemma parsepipe_step:
  assumes pe: "\<And>ps. parsed_ok buf 2 f ps (parseexec f buf ps)" and pp: "\<And>ps. parsed_ok buf 3 f ps (parsepipe f buf ps)"
  shows "parsed_ok buf 3 (Suc f) ps (parsepipe (Suc f) buf ps)"
proof (cases "parseexec f buf ps")
  case (Inl e)
  then show ?thesis using pe [of ps] by (auto simp: parsed_ok_def)
next
  case (Inr r)
  then obtain c s where r: "parseexec f buf ps = Inr (c, s)" by (cases r) auto
  obtain s1 h where p: "peek buf s ''|'' = (s1, h)" by fastforce
  obtain tok q eq s2 where g: "gettoken buf s1 = (tok, q, eq, s2)" by (metis prod_cases4)
  have pos: "ps \<le> s1 \<and> s1 \<le> length buf \<and> words_ok buf c" if "ps \<le> length buf"
    using parsed_okD(1) [OF pe [of ps, unfolded r] that] peek_pos [OF p] by auto
  show ?thesis
  proof (cases h)
    case False
    then show ?thesis using r p pos by (simp add: parsed_ok_def)
  next
    case True
    then have s2: "s1 < s2" "s2 \<le> length buf" using gettoken_after_peek [of buf s _ s1, OF _ g] p by auto
    show ?thesis using pos s2 pp [of s2] True r p g
      by (auto simp: parsed_ok_def pipecmd_def words_ok_def split: sum.splits)
  qed
qed

lemma parseblock_step:
  assumes pl: "\<And>ps. parsed_ok buf 4 f ps (parseline f buf ps)"
  shows "parsed_ok buf 1 (Suc f) ps (parseblock (Suc f) buf ps)"
proof -
  obtain s h where p: "peek buf ps ''('' = (s, h)" by fastforce
  obtain tok q eq s1 where g: "gettoken buf s = (tok, q, eq, s1)" by (metis prod_cases4)
  show ?thesis
  proof (cases h)
    case False
    then show ?thesis using p by (simp add: parsed_ok_def)
  next
    case True
    then have pT: "peek buf ps ''('' = (s, True)" using p by simp
    note s1 = gettoken_after_peek [OF pT g]
    show ?thesis
    proof (cases "parseline f buf s1")
      case (Inl e)
      have "4 * (length buf - ps) + 1 \<le> Suc f \<Longrightarrow> 4 * (length buf - s1) + 4 \<le> f" using s1(1,3) by linarith
      then show ?thesis using Inl pl [of s1] s1(3) pT g by (auto simp: parsed_ok_def)
    next
      case (Inr r)
      then obtain c s2 where r: "parseline f buf s1 = Inr (c, s2)" by (cases r) auto
      note s2 = parsed_okD(1) [OF pl [of s1, unfolded r] s1(3)]
      obtain s3 h' where p': "peek buf s2 '')'' = (s3, h')" by fastforce
      obtain tok' q' eq' s4 where g': "gettoken buf s3 = (tok', q', eq', s4)" by (metis prod_cases4)
      have s4: "s3 \<le> s4" "s4 \<le> length buf" "s2 \<le> s3"
        using peek_pos [OF p'] gettoken_pos [OF g'] s2 by auto
      show ?thesis
      proof (cases "parseredirs buf s4")
        case (Inl e)
        then show ?thesis using pT g r p' g' parseredirs_fuel [of buf s4]
          by (auto simp: parsed_ok_def split: bool.splits)
      next
        case (Inr x)
        then obtain rs s5 where x: "parseredirs buf s4 = Inr (rs, s5)" by (cases x) auto
        have "words_ok buf (redirs c rs)"
          using parseredirs_words [OF x s4(2)] s2 by (auto simp: words_ok_def words_redirs)
        then show ?thesis using pT g r p' g' x parseredirs_pos [OF x] s4 s2 s1
          by (auto simp: parsed_ok_def split: bool.splits)
      qed
    qed
  qed
qed

lemma parseexec_step:
  assumes pb: "\<And>ps. parsed_ok buf 1 f ps (parseblock f buf ps)"
  shows "parsed_ok buf 2 (Suc f) ps (parseexec (Suc f) buf ps)"
proof -
  obtain s h where p: "peek buf ps ''('' = (s, h)" by fastforce
  note s = peek_pos [OF p]
  show ?thesis
  proof (cases h)
    case True
    then show ?thesis using pb [of s] p s by (auto simp: parsed_ok_def split: sum.splits)
  next
    case False
    show ?thesis
    proof (cases "parseredirs buf s")
      case (Inl e)
      then show ?thesis using False p parseredirs_fuel [of buf s] by (auto simp: parsed_ok_def)
    next
      case (Inr x)
      then obtain rs s1 where x: "parseredirs buf s = Inr (rs, s1)" by (cases x) auto
      show ?thesis
      proof (cases "parseargs buf s1 [] rs")
        case (Inl e)
        then show ?thesis using False p x parseargs_fuel [of buf s1 "[]" rs] by (auto simp: parsed_ok_def)
      next
        case (Inr y)
        then obtain argv rs' s2 where y: "parseargs buf s1 [] rs = Inr ((argv, rs'), s2)" by (cases y) auto
        have "words_ok buf (redirs (execcmd argv) rs') \<and> ps \<le> s2 \<and> s2 \<le> length buf" if "ps \<le> length buf"
        proof -
          have s1: "s1 \<le> length buf" "ps \<le> s1" "s \<le> length buf" using s parseredirs_pos [OF x] that by auto
          then show ?thesis
            using parseargs_words [OF y s1(1)] parseredirs_words [OF x s1(3)] parseargs_pos [OF y]
            by (auto simp: words_ok_def words_redirs execcmd_def)
        qed
        then show ?thesis using False p x y by (simp add: parsed_ok_def)
      qed
    qed
  qed
qed

lemma parser_ok:
  "(\<forall>ps. parsed_ok buf 4 f ps (parseline f buf ps)) \<and> (\<forall>ps. parsed_ok buf 3 f ps (parsepipe f buf ps)) \<and>
   (\<forall>ps. parsed_ok buf 1 f ps (parseblock f buf ps)) \<and> (\<forall>ps. parsed_ok buf 2 f ps (parseexec f buf ps))"
proof (induction f)
  case 0
  then show ?case by (simp add: parsed_ok_def)
next
  case (Suc f)
  then show ?case using parseline_step parsepipe_step parseblock_step parseexec_step by blast
qed

section \<open>The NULs behind the words\<close>

lemma nth_upd: "j < length xs \<Longrightarrow> xs[i := x] ! j = (if i = j then x else xs ! j)"
  by (cases "i = j") auto

lemma foldl_upd_length: "length (foldl (\<lambda>b (q, eq). b[eq := NUL]) buf ws) = length buf"
  by (induction ws arbitrary: buf) auto

lemma foldl_upd_nth:
  "i < length buf \<Longrightarrow> foldl (\<lambda>b (q, eq). b[eq := NUL]) buf ws ! i = (if i \<in> snd ` set ws then NUL else buf ! i)"
  by (induction ws arbitrary: buf) (auto simp: nth_list_update rev_image_eqI)

lemma nulterminate_length [simp]: "length (nulterminate c buf) = length buf"
  by (induction c arbitrary: buf) (auto simp: foldl_upd_length)

lemma nulterminate_nth:
  "i < length buf \<Longrightarrow> nulterminate c buf ! i = (if i \<in> snd ` set (words c) then NUL else buf ! i)"
  by (induction c arbitrary: buf) (auto simp: foldl_upd_nth nth_upd image_Un)

lemma parsecmd_words:
  assumes "parsecmd buf = Inr (c, buf')"
  shows "words_ok buf c" "buf' = nulterminate c (buf @ [NUL])"
proof -
  obtain s where s: "parseline (4 * length buf + 4) buf 0 = Inr (c, s)" "buf' = nulterminate c (buf @ [NUL])"
    using assms by (auto simp: parsecmd_def split: sum.splits prod.splits if_splits)
  have "parsed_ok buf 4 (4 * length buf + 4) 0 (parseline (4 * length buf + 4) buf 0)"
    using parser_ok by blast
  then show "words_ok buf c" "buf' = nulterminate c (buf @ [NUL])" using s by (simp_all add: parsed_ok_def)
qed

section \<open>Properties\<close>

text \<open>
  C12: the parser ends on every line: the fuel \<^verbatim>\<open>parsecmd\<close> gives to the mutually recursive
  functions is enough, so it returns a command or one of the errors the code reports.
\<close>

theorem parsecmd_terminates: "parsecmd buf \<noteq> Inl Fuel"
proof -
  have "parsed_ok buf 4 (4 * length buf + 4) 0 (parseline (4 * length buf + 4) buf 0)"
    using parser_ok by blast
  then show ?thesis by (auto simp: parsecmd_def parsed_ok_def split: sum.splits prod.splits)
qed

text \<open>
  C13: the strings of a parsed command. Every argument and file name of the command that
  \<^verbatim>\<open>parsecmd\<close> returns is, as a C string in the line after \<^verbatim>\<open>nulterminate\<close>, exactly a
  maximal run of word characters of the line that was typed: no NUL is stored inside
  another word.
\<close>

theorem parsecmd_strings:
  assumes "parsecmd buf = Inr (c, buf')" and "NUL \<notin> set buf" and "(q, eq) \<in> set (words c)"
  shows "q < eq \<and> eq \<le> length buf \<and>
     takeWhile (\<lambda>x. x \<noteq> NUL) (drop q buf') = take (eq - q) (drop q buf) \<and>
     (\<forall>x \<in> set (take (eq - q) (drop q buf)). word_char x) \<and>
     (eq < length buf \<longrightarrow> \<not> word_char (buf ! eq))"
proof -
  note w = parsecmd_words [OF assms(1)]
  have ok: "word_ok buf (q, eq)" using w(1) assms(3) by (auto simp: words_ok_def)
  then have le: "q < eq" "eq \<le> length buf" by (auto simp: word_ok_def)
  have keep: "buf' ! i = buf ! i" if i: "q \<le> i" "i < eq" for i
  proof -
    have "i \<notin> snd ` set (words c)"
    proof
      assume "i \<in> snd ` set (words c)"
      then obtain q' where "word_ok buf (q', i)" using w(1) by (auto simp: words_ok_def)
      then have "\<not> word_char (buf ! i)" using i le by (auto simp: word_ok_def)
      then show False using ok i by (auto simp: word_ok_def)
    qed
    then show ?thesis using i le unfolding w(2) by (simp add: nulterminate_nth nth_append)
  qed
  have "eq \<in> snd ` set (words c)" using assms(3) by force
  then have nul: "buf' ! eq = NUL" using le unfolding w(2) by (simp add: nulterminate_nth)
  have len: "length buf' = length buf + 1" by (simp add: w(2))
  have pre: "take (eq - q) (drop q buf') = take (eq - q) (drop q buf)"
    using keep le len by (intro nth_equalityI) auto
  have "drop q buf' = take (eq - q) (drop q buf) @ NUL # drop (Suc eq) buf'"
  proof -
    have "drop q buf' = take (eq - q) (drop q buf') @ drop eq buf'"
      using le by (metis append_take_drop_id drop_drop le_add_diff_inverse2 less_or_eq_imp_le)
    then show ?thesis using pre nul len le Cons_nth_drop_Suc [of eq buf'] by simp
  qed
  moreover have "x \<noteq> NUL" if "x \<in> set (take (eq - q) (drop q buf))" for x
    using that assms(2) by (meson in_set_dropD in_set_takeD)
  ultimately have "takeWhile (\<lambda>x. x \<noteq> NUL) (drop q buf') = take (eq - q) (drop q buf)"
    by (simp add: takeWhile_tail)
  moreover have "\<forall>x \<in> set (take (eq - q) (drop q buf)). word_char x"
    using ok le by (auto simp: word_ok_def in_set_conv_nth)
  ultimately show ?thesis using ok by (auto simp: word_ok_def)
qed

theorem parsecmd_strings_witness:
  "\<exists>c buf'. parsecmd ''ls a>b'' = Inr (c, buf') \<and> (3, 4) \<in> set (words c) \<and>
     takeWhile (\<lambda>x. x \<noteq> NUL) (drop 3 buf') = ''a''"
proof -
  have "parsecmd ''ls a>b'' = Inr (REDIR (EXEC [(0, 2), (3, 4)]) 5 6 O_WRONLY_CREATE 1,
      [CHR ''l'', CHR ''s'', NUL, CHR ''a'', NUL, CHR ''b'', NUL])"
    by code_simp
  then show ?thesis using parsecmd_strings [of "''ls a>b''" _ _ 3 4] by auto
qed

section \<open>The command runner\<close>

text \<open>
  \<^verbatim>\<open>runcmd\<close> as the tree of the system calls it makes: a node per call, with a branch per
  outcome the code tells apart. \<open>P0\<close> and \<open>P1\<close> are the descriptors that \<^verbatim>\<open>pipe\<close> stored.
\<close>

datatype fdref = Fd nat | P0 | P1

datatype calls =
    Exit
  | Exec "word_pos list" calls      \<comment> \<open>what follows when it fails\<close>
  | Print string calls
  | Close fdref calls
  | Open nat nat calls calls        \<comment> \<open>file and mode; on failure; on success\<close>
  | Pipe calls calls                \<comment> \<open>on failure; on success\<close>
  | Dup fdref calls
  | Fork calls calls calls          \<comment> \<open>on failure; the child; the parent\<close>
  | Wait calls

definition sh_panic :: "string \<Rightarrow> calls" where
  "sh_panic s = Print s Exit"

definition fork1 :: "calls \<Rightarrow> calls \<Rightarrow> calls" where
  "fork1 child parent = Fork (sh_panic ''fork'') child parent"

primrec runcmd :: "cmd \<Rightarrow> calls" where
  "runcmd (EXEC argv) = (if argv = [] then Exit else Exec argv (Print ''exec failed'' Exit))"
| "runcmd (REDIR c file efile mode fd) =
     Close (Fd fd) (Open file mode (Print ''open failed'' Exit) (runcmd c))"
| "runcmd (LIST l r) = fork1 (runcmd l) (Wait (runcmd r))"
| "runcmd (PIPE l r) =
     Pipe (sh_panic ''pipe'')
       (fork1 (Close (Fd 1) (Dup P1 (Close P0 (Close P1 (runcmd l)))))
         (fork1 (Close (Fd 0) (Dup P0 (Close P0 (Close P1 (runcmd r)))))
           (Close P0 (Close P1 (Wait (Wait Exit))))))"
| "runcmd (BACK c) = fork1 (runcmd c) Exit"

text \<open>
  The descriptors with which the programs of a command start, when no call fails. A
  process has a table of open files; \<^verbatim>\<open>open\<close>, \<^verbatim>\<open>dup\<close> and \<^verbatim>\<open>pipe\<close> take the lowest free
  descriptors, as \<^verbatim>\<open>fdalloc\<close> does. A pipe is named by the process that created it, a
  process by the forks that led to it.
\<close>

datatype ofile = ReadEnd "nat list" | WriteEnd "nat list" | File nat nat | Other nat

type_synonym fdtable = "nat \<Rightarrow> ofile option"

abbreviation (input) NOFILE :: nat where "NOFILE \<equiv> 16"

definition low_fd :: "fdtable \<Rightarrow> nat" where
  "low_fd t = (case find (\<lambda>i. t i = None) [0..<NOFILE] of None \<Rightarrow> NOFILE | Some i \<Rightarrow> i)"

fun fd_of :: "nat \<times> nat \<Rightarrow> fdref \<Rightarrow> nat" where
  "fd_of p (Fd n) = n"
| "fd_of p P0 = fst p"
| "fd_of p P1 = snd p"

fun starts :: "nat list \<Rightarrow> fdtable \<Rightarrow> nat \<times> nat \<Rightarrow> calls \<Rightarrow> (word_pos list \<times> fdtable) list" where
  "starts me t p Exit = []"
| "starts me t p (Exec argv k) = [(argv, t)]"
| "starts me t p (Print s k) = starts me t p k"
| "starts me t p (Close r k) = starts me (t(fd_of p r := None)) p k"
| "starts me t p (Open file mode bad k) = starts me (t(low_fd t \<mapsto> File file mode)) p k"
| "starts me t p (Pipe bad k) =
     (let a = low_fd t; t1 = t(a \<mapsto> ReadEnd me); b = low_fd t1
      in starts me (t1(b \<mapsto> WriteEnd me)) (a, b) k)"
| "starts me t p (Dup r k) = starts me (t(low_fd t := t (fd_of p r))) p k"
| "starts me t p (Fork bad c k) = starts (0 # me) t p c @ starts (1 # me) t p k"
| "starts me t p (Wait k) = starts me t p k"

text \<open>A pipeline of programs, and how its programs are to be connected.\<close>

fun pipeline :: "word_pos list list \<Rightarrow> cmd" where
  "pipeline [] = EXEC []"
| "pipeline [a] = EXEC a"
| "pipeline (a # as) = PIPE (EXEC a) (pipeline as)"

fun wired :: "nat list \<Rightarrow> fdtable \<Rightarrow> word_pos list list \<Rightarrow> (word_pos list \<times> fdtable) list" where
  "wired me t [] = []"
| "wired me t [a] = [(a, t)]"
| "wired me t (a # as) =
     (a, t(1 \<mapsto> WriteEnd me)) # wired (0 # 1 # me) (t(0 \<mapsto> ReadEnd me)) as"

lemma fd_range: "[0..<NOFILE] = [0, 1, 2, 3, 4] @ [5..<NOFILE]"
  by code_simp

lemma low_fd_std:
  assumes "t 0 \<noteq> None" "t 1 \<noteq> None" "t 2 \<noteq> None"
  shows "t 3 = None \<Longrightarrow> low_fd t = 3" "t 3 \<noteq> None \<Longrightarrow> t 4 = None \<Longrightarrow> low_fd t = 4"
  using assms unfolding low_fd_def fd_range by auto

lemma low_fd_01: "t 0 = None \<Longrightarrow> low_fd t = 0" "t 0 \<noteq> None \<Longrightarrow> t 1 = None \<Longrightarrow> low_fd t = 1"
  unfolding low_fd_def fd_range by auto

lemma starts_pipe:
  assumes "t 0 \<noteq> None" "t 1 \<noteq> None" "t 2 \<noteq> None" "t 3 = None" "t 4 = None"
  shows "starts me t p (runcmd (PIPE l r)) =
     starts (0 # me) (t(1 \<mapsto> WriteEnd me)) (3, 4) (runcmd l) @
     starts (0 # 1 # me) (t(0 \<mapsto> ReadEnd me)) (3, 4) (runcmd r)"
proof -
  let ?t2 = "t(3 \<mapsto> ReadEnd me, 4 \<mapsto> WriteEnd me)"
  have a: "low_fd t = 3" "low_fd (t(3 \<mapsto> ReadEnd me)) = 4" using low_fd_std assms by auto
  have b: "low_fd (?t2(1 := None)) = 1" "low_fd (?t2(0 := None)) = 0" using low_fd_01 assms by auto
  have c: "(?t2(1 := None, 1 := Some (WriteEnd me), 3 := None, 4 := None)) = t(1 \<mapsto> WriteEnd me)"
    "(?t2(0 := None, 0 := Some (ReadEnd me), 3 := None, 4 := None)) = t(0 \<mapsto> ReadEnd me)"
    using assms by (auto simp: fun_eq_iff)
  show ?thesis using c by (simp add: fork1_def a b Let_def del: One_nat_def)
qed

text \<open>
  C14: the pipelines of the shell are connected as they are written. When its standard
  descriptors are open and no other, each program of a pipeline starts with the read
  end of the pipe on its left as descriptor 0 and the write end of the pipe on its
  right as descriptor 1, and holds no other end of a pipe, so readers see the end of
  their input.
\<close>

theorem runcmd_pipeline_wired:
  assumes "dom t = {0, 1, 2}" and "[] \<notin> set as"
  shows "starts me t p (runcmd (pipeline as)) = wired me t as"
  using assms
proof (induction as arbitrary: me t p rule: pipeline.induct)
  case (3 a b bs)
  have "0 \<in> dom t" "1 \<in> dom t" "2 \<in> dom t" "3 \<notin> dom t" "4 \<notin> dom t" unfolding 3(2) by auto
  then have "starts me t p (runcmd (pipeline (a # b # bs))) =
      starts (0 # me) (t(1 \<mapsto> WriteEnd me)) (3, 4) (runcmd (EXEC a)) @
      starts (0 # 1 # me) (t(0 \<mapsto> ReadEnd me)) (3, 4) (runcmd (pipeline (b # bs)))"
    unfolding pipeline.simps by (intro starts_pipe) (simp_all add: domIff)
  moreover have d: "dom (t(0 \<mapsto> ReadEnd me)) = {0, 1, 2}" using 3(2) by auto
  have "starts (0 # 1 # me) (t(0 \<mapsto> ReadEnd me)) (3, 4) (runcmd (pipeline (b # bs))) =
      wired (0 # 1 # me) (t(0 \<mapsto> ReadEnd me)) (b # bs)"
    by (rule 3(1) [OF d]) (use 3(3) in simp)
  moreover have "a \<noteq> []" using 3(3) by auto
  ultimately show ?case by simp
next
  case 1
  show ?case by simp
next
  case (2 a)
  then show ?case by simp
qed

theorem runcmd_pipeline_wired_witness:
  "starts [] ((\<lambda>_. None)(0 \<mapsto> Other 0, 1 \<mapsto> Other 1, 2 \<mapsto> Other 2)) (0, 0)
       (runcmd (pipeline [[(0, 3)], [(6, 8)]])) =
     [([(0, 3)], (\<lambda>_. None)(0 \<mapsto> Other 0, 1 \<mapsto> WriteEnd [], 2 \<mapsto> Other 2)),
      ([(6, 8)], (\<lambda>_. None)(0 \<mapsto> ReadEnd [], 1 \<mapsto> Other 1, 2 \<mapsto> Other 2))]"
proof -
  have "dom ((\<lambda>_. None)(0 \<mapsto> Other 0, 1 \<mapsto> Other 1, 2 \<mapsto> Other 2)) = {0 :: nat, 1, 2}" by auto
  from runcmd_pipeline_wired [OF this, of "[[(0, 3)], [(6, 8)]]" "[]" "(0, 0)"]
  show ?thesis by (simp add: fun_upd_twist)
qed

end
