(* ===== verification/Cstring.thy ===== *)
theory Cstring
  imports Prelude
begin

text \<open>
  The string and memory routines of the kernel (\<^verbatim>\<open>string.c\<close>) and of the user library
  (\<^verbatim>\<open>ulib.c\<close>). Memory is a function from byte addresses to bytes; a routine that writes
  returns the new memory, and the pointer it returns, always its first argument, is
  left out. Objects end below the top of the address space, so addresses are
  naturals. A loop that looks for a NUL may run for ever: it is \<open>None\<close> then.
\<close>

type_synonym mem = "nat \<Rightarrow> u8"

section \<open>The kernel's routines\<close>

text \<open>The x86 string stores behind \<^verbatim>\<open>stosb\<close> and \<^verbatim>\<open>stosl\<close> of \<^verbatim>\<open>x86.h\<close>.\<close>

primrec stosb :: "mem \<Rightarrow> nat \<Rightarrow> u8 \<Rightarrow> nat \<Rightarrow> mem" where
  "stosb m addr data 0 = m"
| "stosb m addr data (Suc cnt) = stosb (m(addr := data)) (addr + 1) data cnt"

definition store32 :: "mem \<Rightarrow> nat \<Rightarrow> u32 \<Rightarrow> mem" where
  "store32 m a w = m(a := ucast w, a + 1 := ucast (drop_bit 8 w),
                     a + 2 := ucast (drop_bit 16 w), a + 3 := ucast (drop_bit 24 w))"

primrec stosl :: "mem \<Rightarrow> nat \<Rightarrow> u32 \<Rightarrow> nat \<Rightarrow> mem" where
  "stosl m addr data 0 = m"
| "stosl m addr data (Suc cnt) = stosl (store32 m addr data) (addr + 4) data cnt"

definition memset :: "mem \<Rightarrow> nat \<Rightarrow> u32 \<Rightarrow> nat \<Rightarrow> mem" where
  "memset m dst c n =
     (if dst mod 4 = 0 \<and> n mod 4 = 0 then
        (let c = c AND 0xFF in
         stosl m dst (push_bit 24 c OR push_bit 16 c OR push_bit 8 c OR c) (n div 4))
      else stosb m dst (ucast c) n)"

fun memcmp :: "mem \<Rightarrow> nat \<Rightarrow> nat \<Rightarrow> nat \<Rightarrow> int" where
  "memcmp m s1 s2 0 = 0"
| "memcmp m s1 s2 (Suc n) =
     (if m s1 \<noteq> m s2 then uint (m s1) - uint (m s2) else memcmp m (s1 + 1) (s2 + 1) n)"

fun copy_up :: "mem \<Rightarrow> nat \<Rightarrow> nat \<Rightarrow> nat \<Rightarrow> mem" where
  "copy_up m d s 0 = m"
| "copy_up m d s (Suc n) = copy_up (m(d := m s)) (d + 1) (s + 1) n"

fun copy_down :: "mem \<Rightarrow> nat \<Rightarrow> nat \<Rightarrow> nat \<Rightarrow> mem" where
  "copy_down m d s 0 = m"
| "copy_down m d s (Suc n) = copy_down (m(d - 1 := m (s - 1))) (d - 1) (s - 1) n"

definition memmove :: "mem \<Rightarrow> nat \<Rightarrow> nat \<Rightarrow> nat \<Rightarrow> mem" where
  "memmove m dst src n =
     (if src < dst \<and> src + n > dst then copy_down m (dst + n) (src + n) n
      else copy_up m dst src n)"

definition memcpy :: "mem \<Rightarrow> nat \<Rightarrow> nat \<Rightarrow> nat \<Rightarrow> mem" where
  "memcpy m dst src n = memmove m dst src n"

fun strncmp :: "mem \<Rightarrow> nat \<Rightarrow> nat \<Rightarrow> nat \<Rightarrow> int" where
  "strncmp m p q 0 = 0"
| "strncmp m p q (Suc n) =
     (if m p \<noteq> 0 \<and> m p = m q then strncmp m (p + 1) (q + 1) n else uint (m p) - uint (m q))"

text \<open>
  The copying loops of \<^verbatim>\<open>strncpy\<close> and \<^verbatim>\<open>safestrcpy\<close>: the memory, the address behind the
  last byte written and the count that is left. A count of zero or below ends them.
\<close>

fun strcpy_loop :: "mem \<Rightarrow> nat \<Rightarrow> nat \<Rightarrow> nat \<Rightarrow> mem \<times> nat \<times> nat" where
  "strcpy_loop m s t 0 = (m, s, 0)"
| "strcpy_loop m s t (Suc n) =
     (let m' = m(s := m t) in
      if m t \<noteq> 0 then strcpy_loop m' (s + 1) (t + 1) n else (m', s + 1, n))"

definition strncpy :: "mem \<Rightarrow> nat \<Rightarrow> nat \<Rightarrow> int \<Rightarrow> mem" where
  "strncpy m s t n = (case strcpy_loop m s t (nat n) of (m', s', n') \<Rightarrow> stosb m' s' 0 n')"

text \<open>
  \<^verbatim>\<open>safestrcpy\<close> writes its NUL at the pointer after the loop: when the string fits that is
  one byte behind the NUL that the loop has copied.
\<close>

definition safestrcpy :: "mem \<Rightarrow> nat \<Rightarrow> nat \<Rightarrow> int \<Rightarrow> mem" where
  "safestrcpy m s t n =
     (if n \<le> 0 then m
      else case strcpy_loop m s t (nat (n - 1)) of (m', s', _) \<Rightarrow> m'(s' := 0))"

partial_function (option) strlen_from :: "mem \<Rightarrow> nat \<Rightarrow> nat \<Rightarrow> nat option" where
  "strlen_from m s n = (if m (s + n) = 0 then Some n else strlen_from m s (n + 1))"

definition strlen :: "mem \<Rightarrow> nat \<Rightarrow> nat option" where
  "strlen m s = strlen_from m s 0"

section \<open>The user library's routines\<close>

partial_function (option) strcpy :: "mem \<Rightarrow> nat \<Rightarrow> nat \<Rightarrow> mem option" where
  "strcpy m s t = (let m' = m(s := m t) in if m t \<noteq> 0 then strcpy m' (s + 1) (t + 1) else Some m')"

partial_function (option) strcmp :: "mem \<Rightarrow> nat \<Rightarrow> nat \<Rightarrow> int option" where
  "strcmp m p q =
     (if m p \<noteq> 0 \<and> m p = m q then strcmp m (p + 1) (q + 1) else Some (uint (m p) - uint (m q)))"

partial_function (option) ulib_strlen_from :: "mem \<Rightarrow> nat \<Rightarrow> nat \<Rightarrow> nat option" where
  "ulib_strlen_from m s n = (if m (s + n) = 0 then Some n else ulib_strlen_from m s (n + 1))"

definition ulib_strlen :: "mem \<Rightarrow> nat \<Rightarrow> nat option" where
  "ulib_strlen m s = ulib_strlen_from m s 0"

definition ulib_memset :: "mem \<Rightarrow> nat \<Rightarrow> u32 \<Rightarrow> nat \<Rightarrow> mem" where
  "ulib_memset m dst c n = stosb m dst (ucast c) n"

text \<open>\<open>Some 0\<close> is the null pointer: the character does not occur.\<close>

partial_function (option) strchr :: "mem \<Rightarrow> nat \<Rightarrow> u8 \<Rightarrow> nat option" where
  "strchr m s c = (if m s = 0 then Some 0 else if m s = c then Some s else strchr m (s + 1) c)"

text \<open>
  \<^verbatim>\<open>gets\<close> reads byte by byte from file descriptor 0, whose remaining input is a list: a
  \<^verbatim>\<open>read\<close> of one byte returns 0 at its end. \<open>i\<close> counts the bytes stored.
\<close>

function gets_loop :: "mem \<Rightarrow> nat \<Rightarrow> int \<Rightarrow> u8 list \<Rightarrow> nat \<Rightarrow> mem \<times> nat \<times> u8 list" where
  "gets_loop m buf mx inp i =
     (if int i + 1 < mx then
        (case inp of [] \<Rightarrow> (m, i, inp)
         | c # inp' \<Rightarrow>
             let m' = m(buf + i := c) in
             if c = 10 \<or> c = 13 then (m', i + 1, inp') else gets_loop m' buf mx inp' (i + 1))
      else (m, i, inp))"
  by pat_completeness auto
termination by (relation "measure (\<lambda>(m, buf, mx, inp, i). length inp)") auto

declare gets_loop.simps [simp del]

definition gets :: "mem \<Rightarrow> nat \<Rightarrow> int \<Rightarrow> u8 list \<Rightarrow> mem \<times> u8 list" where
  "gets m buf mx inp = (case gets_loop m buf mx inp 0 of (m', i, inp') \<Rightarrow> (m'(buf + i := 0), inp'))"

text \<open>\<^verbatim>\<open>stat\<close> over the system calls it makes, given as state transformers.\<close>

definition stat ::
  "('s \<Rightarrow> int \<times> 's) \<Rightarrow> (int \<Rightarrow> 's \<Rightarrow> int \<times> 's) \<Rightarrow> (int \<Rightarrow> 's \<Rightarrow> 's) \<Rightarrow> 's \<Rightarrow> int \<times> 's" where
  "stat open_rdonly fstat close w =
     (let (fd, w1) = open_rdonly w in
      if fd < 0 then (-1, w1)
      else let (r, w2) = fstat fd w1 in (r, close fd w2))"

partial_function (option) atoi_loop :: "mem \<Rightarrow> nat \<Rightarrow> u32 \<Rightarrow> u32 option" where
  "atoi_loop m s n =
     (if 48 \<le> m s \<and> m s \<le> 57 then atoi_loop m (s + 1) (n * 10 + ucast (m s) - 48) else Some n)"

definition atoi :: "mem \<Rightarrow> nat \<Rightarrow> int option" where
  "atoi m s = map_option sint (atoi_loop m s 0)"

definition ulib_memmove :: "mem \<Rightarrow> nat \<Rightarrow> nat \<Rightarrow> int \<Rightarrow> mem" where
  "ulib_memmove m dst src n = copy_up m dst src (nat n)"

section \<open>What the routines do\<close>

text \<open>A block write and a block copy, as the functions they are specified by.\<close>

definition fill :: "mem \<Rightarrow> nat \<Rightarrow> u8 \<Rightarrow> nat \<Rightarrow> mem" where
  "fill m d c n = (\<lambda>a. if d \<le> a \<and> a < d + n then c else m a)"

definition move :: "mem \<Rightarrow> nat \<Rightarrow> nat \<Rightarrow> nat \<Rightarrow> mem" where
  "move m d s n = (\<lambda>a. if d \<le> a \<and> a < d + n then m (s + (a - d)) else m a)"

lemma stosb_fill: "stosb m d c n = fill m d c n"
  by (induction n arbitrary: m d) (auto simp: fill_def fun_eq_iff)

lemma replicated_byte:
  fixes c :: u32
  defines "w \<equiv> push_bit 24 (c AND 0xFF) OR push_bit 16 (c AND 0xFF) OR push_bit 8 (c AND 0xFF) OR (c AND 0xFF)"
  shows "(ucast w :: u8) = ucast c" "(ucast (drop_bit 8 w) :: u8) = ucast c"
    "(ucast (drop_bit 16 w) :: u8) = ucast c" "(ucast (drop_bit 24 w) :: u8) = ucast c"
proof -
  have ff: "(0xFF :: u32) = mask 8" by (simp add: mask_eq_exp_minus_1)
  show "(ucast w :: u8) = ucast c" "(ucast (drop_bit 8 w) :: u8) = ucast c"
    "(ucast (drop_bit 16 w) :: u8) = ucast c" "(ucast (drop_bit 24 w) :: u8) = ucast c"
    unfolding w_def ff
    by (auto intro!: bit_word_eqI simp: bit_simps)
qed

lemma stosl_fill:
  assumes "\<And>k. k < 4 \<Longrightarrow> (ucast (drop_bit (8 * k) w) :: u8) = c"
  shows "stosl m d w n = fill m d c (4 * n)"
proof (induction n arbitrary: m d)
  case (Suc n)
  have "store32 m d w = m(d := c, d + 1 := c, d + 2 := c, d + 3 := c)"
    using assms [of 0] assms [of 1] assms [of 2] assms [of 3] by (simp add: store32_def)
  then show ?case by (simp add: Suc) (auto simp: fill_def fun_eq_iff)
qed (auto simp: fill_def fun_eq_iff)

lemma memset_fill: "memset m d c n = fill m d (ucast c) n"
proof (cases "d mod 4 = 0 \<and> n mod 4 = 0")
  case True
  let ?w = "push_bit 24 (c AND 0xFF) OR push_bit 16 (c AND 0xFF) OR push_bit 8 (c AND 0xFF) OR (c AND 0xFF)"
  have "(ucast (drop_bit (8 * k) ?w) :: u8) = ucast c" if "k < 4" for k
  proof -
    have "k = 0 \<or> k = 1 \<or> k = 2 \<or> k = 3" using that by auto
    then show ?thesis using replicated_byte [of c] by (elim disjE) simp_all
  qed
  then have "stosl m d ?w (n div 4) = fill m d (ucast c) (4 * (n div 4))" by (rule stosl_fill)
  moreover have "4 * (n div 4) = n" using True by auto
  ultimately show ?thesis using True by (simp only: memset_def Let_def if_True simp_thms)
next
  case False
  then show ?thesis by (simp only: memset_def if_False stosb_fill)
qed

lemma copy_up_move:
  assumes "d \<le> s \<or> s + n \<le> d"
  shows "copy_up m d s n = move m d s n"
  using assms
proof (induction n arbitrary: m d s)
  case (Suc n)
  have "copy_up (m(d := m s)) (d + 1) (s + 1) n = move (m(d := m s)) (d + 1) (s + 1) n"
    using Suc.prems by (intro Suc.IH) auto
  then show ?case using Suc.prems
    by (auto simp: move_def fun_eq_iff Suc_diff_Suc)
qed (auto simp: move_def fun_eq_iff)

lemma copy_down_move:
  assumes "s \<le> d"
  shows "copy_down m (d + n) (s + n) n = move m d s n"
proof (induction n arbitrary: m)
  case (Suc n)
  have "copy_down m (d + Suc n) (s + Suc n) (Suc n) = copy_down (m(d + n := m (s + n))) (d + n) (s + n) n"
    by simp
  also have "\<dots> = move (m(d + n := m (s + n))) d s n" by (rule Suc)
  also have "\<dots> = move m d s (Suc n)" using assms by (auto simp: move_def fun_eq_iff less_Suc_eq)
  finally show ?case .
qed (auto simp: move_def fun_eq_iff)

lemma memmove_move: "memmove m d s n = move m d s n"
  using copy_down_move [of s d m n] copy_up_move [of d s n m] by (auto simp: memmove_def)

text \<open>\<open>cstr m s xs\<close>: the C string at \<open>s\<close> is \<open>xs\<close>.\<close>

definition cstr :: "mem \<Rightarrow> nat \<Rightarrow> u8 list \<Rightarrow> bool" where
  "cstr m s xs \<longleftrightarrow> 0 \<notin> set xs \<and> (\<forall>i < length xs. m (s + i) = xs ! i) \<and> m (s + length xs) = 0"

lemma cstr_Nil [simp]: "cstr m s [] \<longleftrightarrow> m s = 0"
  by (simp add: cstr_def)

lemma cstr_Cons [simp]: "cstr m s (x # xs) \<longleftrightarrow> x \<noteq> 0 \<and> m s = x \<and> cstr m (s + 1) xs"
proof -
  have "(\<forall>i < length (x # xs). m (s + i) = (x # xs) ! i) \<longleftrightarrow> m s = x \<and> (\<forall>i < length xs. m (s + 1 + i) = xs ! i)"
    by (auto simp: less_Suc_eq_0_disj)
  then show ?thesis by (auto simp: cstr_def)
qed

lemma strlen_from_cstr: "cstr m (s + n) xs \<Longrightarrow> strlen_from m s n = Some (n + length xs)"
proof (induction xs arbitrary: n)
  case (Cons x xs)
  then show ?case using Cons.IH [of "n + 1"] by (subst strlen_from.simps) simp
qed (subst strlen_from.simps, simp)

lemma strlen_cstr: "cstr m s xs \<Longrightarrow> strlen m s = Some (length xs)"
  using strlen_from_cstr [of m s 0 xs] by (simp add: strlen_def)

text \<open>The bytes a bounded copy leaves: a list written at an address.\<close>

definition wr :: "mem \<Rightarrow> nat \<Rightarrow> u8 list \<Rightarrow> mem" where
  "wr m s xs = (\<lambda>a. if s \<le> a \<and> a < s + length xs then xs ! (a - s) else m a)"

lemma wr_Nil [simp]: "wr m s [] = m"
  by (auto simp: wr_def fun_eq_iff)

lemma wr_Cons: "wr m s (x # xs) = wr (m(s := x)) (s + 1) xs"
proof
  fix a
  show "wr m s (x # xs) a = wr (m(s := x)) (s + 1) xs a"
  proof (cases "s \<le> a")
    case True
    then obtain k where "a = s + k" using le_Suc_ex by blast
    then show ?thesis by (cases k) (auto simp: wr_def)
  qed (simp add: wr_def)
qed

lemma wr_append: "wr m s (xs @ ys) = wr (wr m s xs) (s + length xs) ys"
proof
  fix a
  show "wr m s (xs @ ys) a = wr (wr m s xs) (s + length xs) ys a"
  proof (cases "s \<le> a")
    case True
    then obtain k where "a = s + k" using le_Suc_ex by blast
    then show ?thesis by (auto simp: wr_def nth_append)
  qed (simp add: wr_def)
qed

lemma cstr_upd: "a < t \<or> t + length xs < a \<Longrightarrow> cstr (m(a := v)) t xs = cstr m t xs"
proof -
  assume "a < t \<or> t + length xs < a"
  then have "\<And>i. i \<le> length xs \<Longrightarrow> t + i \<noteq> a" by auto
  then show ?thesis by (simp add: cstr_def)
qed

lemma strcpy_loop_cstr:
  assumes "cstr m t xs" "s + n \<le> t \<or> t + length xs < s"
  shows "strcpy_loop m s t n =
     (if n \<le> length xs then (wr m s (take n xs), s + n, 0)
      else (wr m s (xs @ [0]), s + length xs + 1, n - length xs - 1))"
  using assms
proof (induction n arbitrary: m s t xs)
  case (Suc n)
  show ?case
  proof (cases xs)
    case Nil
    then show ?thesis using Suc.prems by (simp add: wr_Cons Let_def)
  next
    case (Cons x ys)
    have "cstr (m(s := x)) (t + 1) ys" using Suc.prems Cons by (subst cstr_upd) auto
    then have "strcpy_loop (m(s := x)) (s + 1) (t + 1) n =
       (if n \<le> length ys then (wr (m(s := x)) (s + 1) (take n ys), s + 1 + n, 0)
        else (wr (m(s := x)) (s + 1) (ys @ [0]), s + 1 + length ys + 1, n - length ys - 1))"
      by (rule Suc.IH) (use Suc.prems Cons in auto)
    then show ?thesis using Suc.prems Cons by (simp add: wr_Cons Let_def)
  qed
qed simp

lemma wr_replicate: "fill m s c n = wr m s (replicate n c)"
  by (auto simp: fill_def wr_def fun_eq_iff)

lemma strncpy_wr:
  assumes "cstr m t xs" "s + nat n \<le> t \<or> t + length xs < s"
  shows "strncpy m s t n = wr m s (take (nat n) (xs @ replicate (nat n - length xs) 0))"
proof (cases "nat n \<le> length xs")
  case True
  then show ?thesis by (simp add: strncpy_def strcpy_loop_cstr [OF assms])
next
  case False
  have "strncpy m s t n = wr (wr m s (xs @ [0])) (s + length xs + 1) (replicate (nat n - length xs - 1) 0)"
    using False by (simp add: strncpy_def strcpy_loop_cstr [OF assms] stosb_fill wr_replicate)
  also have "\<dots> = wr m s ((xs @ [0]) @ replicate (nat n - length xs - 1) 0)"
    by (subst wr_append) simp
  also have "(xs @ [0]) @ replicate (nat n - length xs - 1) 0 = xs @ replicate (nat n - length xs) 0"
    using False by (cases "nat n - length xs") auto
  finally show ?thesis using False by simp
qed

lemma safestrcpy_wr:
  assumes "cstr m t xs" "s + nat n \<le> t \<or> t + length xs < s" "0 < n"
  shows "\<exists>pad. set pad \<subseteq> {0} \<and> length (take (nat n - 1) xs @ 0 # pad) \<le> nat n \<and>
     safestrcpy m s t n = wr m s (take (nat n - 1) xs @ 0 # pad)"
proof -
  define k where "k = nat (n - 1)"
  have k: "nat (n - 1) = k" "nat n = Suc k" using assms(3) by (auto simp: k_def)
  have "s + k \<le> t \<or> t + length xs < s" using assms(2) k by auto
  note l = strcpy_loop_cstr [OF assms(1) this]
  show ?thesis
  proof (cases "k \<le> length xs")
    case True
    then have "safestrcpy m s t n = wr m s (take k xs @ [0])"
      using assms(3) by (simp add: safestrcpy_def k l wr_append wr_Cons)
    then show ?thesis using True by (intro exI [of _ "[]"]) (simp add: k)
  next
    case False
    then have "safestrcpy m s t n = wr m s ((xs @ [0]) @ [0])"
      using assms(3) by (simp add: safestrcpy_def k l wr_append wr_Cons)
    then show ?thesis using False by (intro exI [of _ "[0]"]) (simp add: k)
  qed
qed

lemma copy_up_Suc: "copy_up m d s (Suc n) = (copy_up m d s n)(d + n := copy_up m d s n (s + n))"
proof (induction n arbitrary: m d s)
  case (Suc n)
  have "copy_up m d s (Suc (Suc n)) = copy_up (m(d := m s)) (d + 1) (s + 1) (Suc n)" by simp
  also have "\<dots> = (copy_up (m(d := m s)) (d + 1) (s + 1) n)(d + 1 + n :=
      copy_up (m(d := m s)) (d + 1) (s + 1) n (s + 1 + n))" by (rule Suc)
  finally show ?case by simp
qed simp

lemma copy_up_periodic:
  assumes "s < d"
  shows "copy_up m d s n = (\<lambda>a. if d \<le> a \<and> a < d + n then m (s + (a - d) mod (d - s)) else m a)"
proof (induction n)
  case (Suc n)
  have "copy_up m d s n (s + n) = m (s + n mod (d - s))"
  proof (cases "s + n < d")
    case True
    then show ?thesis by (simp add: Suc less_diff_conv add.commute)
  next
    case False
    then have "n = (s + n - d) + (d - s)" using assms by simp
    then have "n mod (d - s) = (s + n - d) mod (d - s)" by (metis mod_add_self2)
    then show ?thesis using False assms by (simp add: Suc)
  qed
  then show ?case unfolding copy_up_Suc by (auto simp: Suc fun_eq_iff less_Suc_eq)
qed (auto simp: fun_eq_iff)

lemma digit_byte:
  assumes "d < 10"
  shows "48 \<le> (48 + of_nat d :: u8) \<and> (48 + of_nat d :: u8) \<le> 57 \<and>
    (ucast (48 + of_nat d :: u8) :: u32) - 48 = of_nat d"
proof -
  have "d = 0 \<or> d = 1 \<or> d = 2 \<or> d = 3 \<or> d = 4 \<or> d = 5 \<or> d = 6 \<or> d = 7 \<or> d = 8 \<or> d = 9"
    using assms by presburger
  then show ?thesis by (elim disjE) simp_all
qed

text \<open>\<^verbatim>\<open>atoi\<close> on a run of decimal digits is Horner's rule.\<close>

lemma atoi_loop_cstr:
  assumes "\<forall>i < length xs. m (s + i) = 48 + of_nat (ds ! i) \<and> ds ! i < 10" "length ds = length xs"
    "\<not> (48 \<le> m (s + length xs) \<and> m (s + length xs) \<le> 57)"
  shows "atoi_loop m s n = Some (foldl (\<lambda>n d. n * 10 + of_nat d) n ds)"
  using assms
proof (induction xs arbitrary: s n ds)
  case Nil
  then show ?case by (subst atoi_loop.simps) auto
next
  case (Cons x xs)
  then obtain d ds' where ds: "ds = d # ds'" by (cases ds) auto
  have d: "m s = 48 + of_nat d" "d < 10" using Cons.prems(1) ds by auto
  have r: "\<forall>i < length xs. m (s + 1 + i) = 48 + of_nat (ds' ! i) \<and> ds' ! i < 10"
    using Cons.prems(1) unfolding ds by auto
  have IH: "atoi_loop m (s + 1) k = Some (foldl (\<lambda>n d. n * 10 + of_nat d) k ds')" for k
    using Cons.prems(2,3) r by (intro Cons.IH) (auto simp: ds)
  from digit_byte [OF d(2)] have "atoi_loop m s n = atoi_loop m (s + 1) (n * 10 + of_nat d)"
    by (subst atoi_loop.simps) (simp add: d(1) add_diff_eq [symmetric])
  then show ?case using IH ds by simp
qed

section \<open>Properties\<close>

text \<open>
  C22: the kernel's \<^verbatim>\<open>memset\<close> and \<^verbatim>\<open>memmove\<close>, whichever of their loops runs, are a block fill
  and a block copy: \<^verbatim>\<open>memset\<close> by words equals \<^verbatim>\<open>memset\<close> by bytes, and \<^verbatim>\<open>memmove\<close> copies the
  old contents of the source even when it overlaps the destination.
\<close>

theorem memset_memmove_correct:
  "memset m dst c n = (\<lambda>a. if dst \<le> a \<and> a < dst + n then ucast c else m a) \<and>
   memmove m dst src n = (\<lambda>a. if dst \<le> a \<and> a < dst + n then m (src + (a - dst)) else m a)"
  by (simp add: memset_fill memmove_move fill_def move_def)

text \<open>
  C23: \<^verbatim>\<open>safestrcpy\<close> with a positive bound writes inside its destination only, and leaves
  there the longest prefix of the string that fits with its terminating NUL.
\<close>

theorem safestrcpy_correct:
  assumes "cstr m t xs" and "s + nat n \<le> t \<or> t + length xs < s" and "0 < n"
  shows "cstr (safestrcpy m s t n) s (take (nat n - 1) xs) \<and>
     (\<forall>a. a < s \<or> s + nat n \<le> a \<longrightarrow> safestrcpy m s t n a = m a)"
proof -
  obtain pad where p: "length (take (nat n - 1) xs @ 0 # pad) \<le> nat n"
      "safestrcpy m s t n = wr m s (take (nat n - 1) xs @ 0 # pad)"
    using safestrcpy_wr [OF assms] by blast
  have "0 \<notin> set (take (nat n - 1) xs)" using assms(1) by (auto simp: cstr_def dest: in_set_takeD)
  moreover have "wr m s (ys @ 0 # zs) (s + i) = ys ! i" if "i < length ys" for ys zs i
    using that by (simp add: wr_def nth_append)
  moreover have "wr m s (ys @ 0 # zs) (s + length ys) = 0" for ys zs
    by (simp add: wr_def nth_append)
  ultimately have "cstr (safestrcpy m s t n) s (take (nat n - 1) xs)"
    unfolding p(2) cstr_def by blast
  moreover have "\<forall>a. a < s \<or> s + nat n \<le> a \<longrightarrow> safestrcpy m s t n a = m a"
    using p(1) unfolding p(2) by (auto simp: wr_def)
  ultimately show ?thesis by blast
qed

theorem safestrcpy_correct_witness:
  "cstr (safestrcpy ((\<lambda>_. 7)(100 := 65, 101 := 66, 102 := 67, 103 := 0)) 0 100 3) 0 [65, 66]"
proof -
  have "cstr ((\<lambda>_. 7)(100 := 65, 101 := 66, 102 := 67, 103 := 0)) 100 [65, 66, 67]"
    by simp
  then show ?thesis
    using safestrcpy_correct [of "(\<lambda>_. 7)(100 := 65, 101 := 66, 102 := 67, 103 := 0)" 100 "[65, 66, 67]" 0 3]
    by simp
qed

text \<open>
  C24: the user library's \<^verbatim>\<open>memmove\<close> always copies upwards. When the destination lies
  behind the source it repeats the first \<^verbatim>\<open>dst - src\<close> bytes over the whole block, so it
  moves a block only if the two do not overlap that way.
\<close>

theorem ulib_memmove_overlap:
  assumes "src < dst"
  shows "ulib_memmove m dst src n =
     (\<lambda>a. if dst \<le> a \<and> a < dst + nat n then m (src + (a - dst) mod (dst - src)) else m a)"
  using copy_up_periodic [OF assms] by (simp add: ulib_memmove_def)

theorem ulib_memmove_overlap_witness:
  "ulib_memmove (\<lambda>a. of_nat a) 11 10 3 13 = 10 \<and> memmove (\<lambda>a. of_nat a) 11 10 3 13 = 12"
  using ulib_memmove_overlap [of 10 11 "\<lambda>a. of_nat a" 3]
  by (simp add: memmove_move move_def)

end
