(* ===== verification/Spinlock.thy ===== *)
theory Spinlock
  imports Cstring
begin

text \<open>
  The spin locks of \<^verbatim>\<open>spinlock.c\<close> and the state every kernel routine shares: which locks
  are held by which processor, and per processor the depth of \<^verbatim>\<open>pushcli\<close> nesting, the
  saved interrupt state and the interrupt flag of \<^verbatim>\<open>EFLAGS\<close>. \<open>me\<close> is the processor that
  executes, which is what \<^verbatim>\<open>cpu\<close> denotes in the code. The other components extend the
  record \<open>kbase\<close>. A lock that another processor holds makes \<^verbatim>\<open>acquire\<close> spin, which is the
  outcome \<open>Spin\<close>. The list of caller addresses that \<^verbatim>\<open>acquire\<close> records for debugging is
  not part of the state; \<^verbatim>\<open>getcallerpcs\<close> itself is modelled on a memory.
\<close>

section \<open>State and operations\<close>

datatype lockid =
  Lptable | Lkmem | Lbcache | Llog | Licache | Lftable | Lticks | Lcons | Linput | Lpipe nat

record klocks =
  locked :: "lockid \<Rightarrow> bool"
  lcpu :: "lockid \<Rightarrow> nat option"
  me :: nat
  ncli :: "nat \<Rightarrow> int"
  intena :: "nat \<Rightarrow> bool"
  iflag :: "nat \<Rightarrow> bool"

record kbase =
  lk :: klocks

definition initlock :: "lockid \<Rightarrow> ('a kbase_scheme, unit) kernel" where
  "initlock l = modify (\<lambda>s. s\<lparr>lk := (lk s)\<lparr>locked := (locked (lk s))(l := False),
                                          lcpu := (lcpu (lk s))(l := None)\<rparr>\<rparr>)"

definition holding :: "lockid \<Rightarrow> klocks \<Rightarrow> bool" where
  "holding l k \<longleftrightarrow> locked k l \<and> lcpu k l = Some (me k)"

definition pushcli :: "('a kbase_scheme, unit) kernel" where
  "pushcli s =
     (let k = lk s; c = me k; eflags = iflag k c;
          k1 = k\<lparr>iflag := (iflag k)(c := False), ncli := (ncli k)(c := ncli k c + 1)\<rparr>
      in Ok () (s\<lparr>lk := (if ncli k c = 0 then k1\<lparr>intena := (intena k)(c := eflags)\<rparr> else k1)\<rparr>))"

definition popcli :: "('a kbase_scheme, unit) kernel" where
  "popcli s =
     (let k = lk s; c = me k; n = ncli k c - 1; k1 = k\<lparr>ncli := (ncli k)(c := n)\<rparr> in
      if iflag k c then Panic ''popcli - interruptible''
      else if n < 0 then Panic ''popcli''
      else Ok () (s\<lparr>lk := (if n = 0 \<and> intena k c then k1\<lparr>iflag := (iflag k)(c := True)\<rparr> else k1)\<rparr>))"

text \<open>\<^verbatim>\<open>xchg(&lk->locked, 1)\<close> in a loop: taken when the lock is free.\<close>

definition xchg_loop :: "lockid \<Rightarrow> ('a kbase_scheme, unit) kernel" where
  "xchg_loop l s =
     (if locked (lk s) l then Spin s
      else Ok () (s\<lparr>lk := (lk s)\<lparr>locked := (locked (lk s))(l := True)\<rparr>\<rparr>))"

definition acquire :: "lockid \<Rightarrow> ('a kbase_scheme, unit) kernel" where
  "acquire l =
     andthen pushcli
       (bind (gets_st (\<lambda>s. holding l (lk s))) (\<lambda>h.
          if h then panic ''acquire''
          else andthen (xchg_loop l)
            (modify (\<lambda>s. s\<lparr>lk := (lk s)\<lparr>lcpu := (lcpu (lk s))(l := Some (me (lk s)))\<rparr>\<rparr>))))"

definition release :: "lockid \<Rightarrow> ('a kbase_scheme, unit) kernel" where
  "release l =
     bind (gets_st (\<lambda>s. holding l (lk s))) (\<lambda>h.
       if \<not> h then panic ''release''
       else andthen
         (modify (\<lambda>s. s\<lparr>lk := (lk s)\<lparr>lcpu := (lcpu (lk s))(l := None), locked := (locked (lk s))(l := False)\<rparr>\<rparr>))
         popcli)"

text \<open>
  \<^verbatim>\<open>getcallerpcs\<close>: the return addresses found along the chain of frame pointers from
  \<open>v - 8\<close>, padded with zeros to ten entries.
\<close>

definition load32 :: "mem \<Rightarrow> nat \<Rightarrow> u32" where
  "load32 m a = ucast (m a) OR push_bit 8 (ucast (m (a + 1))) OR
     push_bit 16 (ucast (m (a + 2))) OR push_bit 24 (ucast (m (a + 3)))"

abbreviation (input) KERNBASE :: nat where "KERNBASE \<equiv> 0x80000000"

fun pcs_loop :: "mem \<Rightarrow> nat \<Rightarrow> nat \<Rightarrow> u32 list" where
  "pcs_loop m ebp 0 = []"
| "pcs_loop m ebp (Suc n) =
     (if ebp = 0 \<or> ebp < KERNBASE \<or> ebp = 0xffffffff then []
      else load32 m (ebp + 4) # pcs_loop m (unat (load32 m ebp)) n)"

definition getcallerpcs :: "mem \<Rightarrow> nat \<Rightarrow> u32 list" where
  "getcallerpcs m v = (let ps = pcs_loop m (v - 8) 10 in ps @ replicate (10 - length ps) 0)"

section \<open>Executing lock operations\<close>

text \<open>What \<^verbatim>\<open>acquire\<close> and \<^verbatim>\<open>release\<close> do to the lock state when they return.\<close>

definition acq :: "lockid \<Rightarrow> klocks \<Rightarrow> klocks" where
  "acq l k = k\<lparr>locked := (locked k)(l := True), lcpu := (lcpu k)(l := Some (me k)),
               ncli := (ncli k)(me k := ncli k (me k) + 1), iflag := (iflag k)(me k := False),
               intena := (if ncli k (me k) = 0 then (intena k)(me k := iflag k (me k)) else intena k)\<rparr>"

definition rel :: "lockid \<Rightarrow> klocks \<Rightarrow> klocks" where
  "rel l k = k\<lparr>locked := (locked k)(l := False), lcpu := (lcpu k)(l := None),
               ncli := (ncli k)(me k := ncli k (me k) - 1),
               iflag := (if ncli k (me k) = 1 \<and> intena k (me k) then (iflag k)(me k := True) else iflag k)\<rparr>"

text \<open>
  \<open>lk_ok k\<close>: interrupts are off while locks are held, the saved interrupt state agrees
  with the flag while none is, and a lock that is not locked has no holder.
\<close>

definition lk_ok :: "klocks \<Rightarrow> bool" where
  "lk_ok k \<longleftrightarrow> 0 \<le> ncli k (me k) \<and> (ncli k (me k) = 0 \<longrightarrow> intena k (me k) = iflag k (me k)) \<and>
     (0 < ncli k (me k) \<longrightarrow> \<not> iflag k (me k)) \<and> (\<forall>l. \<not> locked k l \<longrightarrow> lcpu k l = None)"

lemma acquire_Ok:
  assumes "\<not> locked (lk s) l"
  shows "acquire l s = Ok () (s\<lparr>lk := acq l (lk s)\<rparr>)"
  using assms by (simp add: acquire_def pushcli_def holding_def xchg_loop_def acq_def Let_def)

lemma release_Ok:
  assumes "holding l (lk s)" "0 < ncli (lk s) (me (lk s))" "\<not> iflag (lk s) (me (lk s))"
  shows "release l s = Ok () (s\<lparr>lk := rel l (lk s)\<rparr>)"
  using assms by (simp add: release_def popcli_def rel_def Let_def)

lemma acq_simps [simp]:
  "locked (acq l k) l' = (l' = l \<or> locked k l')" "me (acq l k) = me k" "holding l (acq l k)"
  "ncli (acq l k) (me k) = ncli k (me k) + 1" "\<not> iflag (acq l k) (me k)"
  by (auto simp: acq_def holding_def)

lemma rel_simps [simp]:
  "locked (rel l k) l' = (l' \<noteq> l \<and> locked k l')" "me (rel l k) = me k"
  "ncli (rel l k) (me k) = ncli k (me k) - 1"
  by (auto simp: rel_def)

lemma lk_ok_acq [simp, intro]: "lk_ok k \<Longrightarrow> lk_ok (acq l k)"
  by (auto simp: lk_ok_def acq_def)

lemma rel_acq [simp]: "lk_ok k \<Longrightarrow> \<not> locked k l \<Longrightarrow> rel l (acq l k) = k"
  by (auto simp: lk_ok_def acq_def rel_def fun_eq_iff intro!: klocks.equality)

lemma release_acq [simp]:
  assumes "lk s = acq l k" "lk_ok k" "\<not> locked k l"
  shows "release l s = Ok () (s\<lparr>lk := k\<rparr>)"
proof -
  have "release l s = Ok () (s\<lparr>lk := rel l (acq l k)\<rparr>)"
    using assms by (subst release_Ok) (auto simp: lk_ok_def)
  then show ?thesis using assms by simp
qed

definition push :: "klocks \<Rightarrow> klocks" where
  "push k = k\<lparr>ncli := (ncli k)(me k := ncli k (me k) + 1), iflag := (iflag k)(me k := False),
              intena := (if ncli k (me k) = 0 then (intena k)(me k := iflag k (me k)) else intena k)\<rparr>"

lemma pushcli_Ok: "pushcli s = Ok () (s\<lparr>lk := push (lk s)\<rparr>)"
  by (simp add: pushcli_def push_def Let_def)

lemma popcli_push [simp]:
  assumes "lk s = push k" "lk_ok k"
  shows "popcli s = Ok () (s\<lparr>lk := k\<rparr>)"
proof -
  have "popcli s = Ok () (s\<lparr>lk := (let n = push k in if ncli k (me k) = 0 \<and> intena n (me k)
      then n\<lparr>ncli := ncli k, iflag := (iflag n)(me k := True)\<rparr> else n\<lparr>ncli := ncli k\<rparr>)\<rparr>)"
    using assms by (auto simp: popcli_def push_def lk_ok_def Let_def fun_eq_iff)
  also have "(let n = push k in if ncli k (me k) = 0 \<and> intena n (me k)
      then n\<lparr>ncli := ncli k, iflag := (iflag n)(me k := True)\<rparr> else n\<lparr>ncli := ncli k\<rparr>) = k"
    using assms(2) by (auto simp: push_def lk_ok_def Let_def fun_eq_iff intro!: klocks.equality)
  finally show ?thesis .
qed

section \<open>Mutual exclusion between processors\<close>

text \<open>
  One lock, used by any number of processors whose steps interleave: before the loop of
  \<^verbatim>\<open>acquire\<close>, in it, between the \<^verbatim>\<open>xchg\<close> that took the lock and the store to \<^verbatim>\<open>lk->cpu\<close>, in
  the critical section, and between the two stores of \<^verbatim>\<open>release\<close>.
\<close>

datatype pc = Idle | Spinning | Taken | Critical | Leaving

definition on_cpu :: "nat \<Rightarrow> klocks \<Rightarrow> kbase" where
  "on_cpu c k = \<lparr>lk = k\<lparr>me := c\<rparr>\<rparr>"

inductive lock_step :: "lockid \<Rightarrow> klocks \<times> (nat \<Rightarrow> pc) \<Rightarrow> klocks \<times> (nat \<Rightarrow> pc) \<Rightarrow> bool" for l where
  enter: "pcs c = Idle \<Longrightarrow> pushcli (on_cpu c k) = Ok () s \<Longrightarrow> \<not> holding l (lk s) \<Longrightarrow>
     lock_step l (k, pcs) (lk s, pcs(c := Spinning))"
| spin: "pcs c = Spinning \<Longrightarrow> xchg_loop l (on_cpu c k) = Spin s \<Longrightarrow> lock_step l (k, pcs) (lk s, pcs)"
| take: "pcs c = Spinning \<Longrightarrow> xchg_loop l (on_cpu c k) = Ok () s \<Longrightarrow>
     lock_step l (k, pcs) (lk s, pcs(c := Taken))"
| note_cpu: "pcs c = Taken \<Longrightarrow> lock_step l (k, pcs) (k\<lparr>lcpu := (lcpu k)(l := Some c)\<rparr>, pcs(c := Critical))"
| leave: "pcs c = Critical \<Longrightarrow> holding l (k\<lparr>me := c\<rparr>) \<Longrightarrow>
     lock_step l (k, pcs) (k\<lparr>lcpu := (lcpu k)(l := None)\<rparr>, pcs(c := Leaving))"
| free: "pcs c = Leaving \<Longrightarrow> popcli (on_cpu c (k\<lparr>locked := (locked k)(l := False)\<rparr>)) = Ok () s \<Longrightarrow>
     lock_step l (k, pcs) (lk s, pcs(c := Idle))"

definition owner :: "pc \<Rightarrow> bool" where
  "owner p \<longleftrightarrow> p = Taken \<or> p = Critical \<or> p = Leaving"

text \<open>
  The invariant: the lock is locked exactly when some processor owns it, owners are
  unique, and the recorded holder is the processor in the critical section.
\<close>

definition lock_inv :: "lockid \<Rightarrow> klocks \<times> (nat \<Rightarrow> pc) \<Rightarrow> bool" where
  "lock_inv l kp \<longleftrightarrow> (case kp of (k, pcs) \<Rightarrow>
     (locked k l \<longleftrightarrow> (\<exists>c. owner (pcs c))) \<and>
     (\<forall>c d. owner (pcs c) \<longrightarrow> owner (pcs d) \<longrightarrow> c = d) \<and>
     (\<forall>c. lcpu k l = Some c \<longleftrightarrow> pcs c = Critical))"

lemma pushcli_keeps:
  assumes "pushcli (on_cpu c k) = Ok () s"
  shows "locked (lk s) = locked k" "lcpu (lk s) = lcpu k" "me (lk s) = c"
  using assms by (auto simp: pushcli_def on_cpu_def Let_def split: if_splits)

lemma popcli_keeps:
  assumes "popcli (on_cpu c k) = Ok () s"
  shows "locked (lk s) = locked k" "lcpu (lk s) = lcpu k"
  using assms by (auto simp: popcli_def on_cpu_def Let_def split: if_splits)

lemma owner_simps [simp]:
  "\<not> owner Idle" "\<not> owner Spinning" "owner Taken" "owner Critical" "owner Leaving"
  by (auto simp: owner_def)

lemma lock_invI:
  assumes "locked k l" "\<And>d. owner (pcs d) \<longleftrightarrow> d = c" "\<And>d. lcpu k l = Some d \<longleftrightarrow> pcs d = Critical"
  shows "lock_inv l (k, pcs)"
  using assms by (simp add: lock_inv_def)

lemma lock_inv_step:
  assumes "lock_step l kp kp'" "lock_inv l kp"
  shows "lock_inv l kp'"
  using assms
proof (induction rule: lock_step.induct)
  case (enter pcs c k s)
  have "owner ((pcs(c := Spinning)) d) = owner (pcs d)" "((pcs(c := Spinning)) d = Critical) = (pcs d = Critical)" for d
    using enter(1) by auto
  then show ?case using enter(4) pushcli_keeps [OF enter(2)] by (simp add: lock_inv_def del: fun_upd_apply)
next
  case (spin pcs c k s)
  then show ?case by (auto simp: xchg_loop_def on_cpu_def lock_inv_def split: if_splits)
next
  case (take pcs c k s)
  have f: "\<not> locked k l" "locked (lk s) l" "lcpu (lk s) = lcpu k"
    using take(2) by (auto simp: xchg_loop_def on_cpu_def split: if_splits)
  have no: "\<not> owner (pcs d)" for d using take(3) f(1) by (auto simp: lock_inv_def)
  then have "lcpu k l \<noteq> Some d" for d using take(3) by (auto simp: lock_inv_def owner_def)
  moreover have "owner ((pcs(c := Taken)) d) = (d = c)" "(pcs(c := Taken)) d \<noteq> Critical" for d
    using no [of d] by (auto simp: owner_def)
  ultimately show ?case using f by (simp add: lock_inv_def del: fun_upd_apply)
next
  case (note_cpu pcs c k)
  then have u: "owner (pcs d) \<longleftrightarrow> d = c" for d unfolding lock_inv_def by (auto simp: owner_def)
  have "locked k l" using note_cpu u by (auto simp: lock_inv_def)
  moreover have "owner ((pcs(c := Critical)) d) \<longleftrightarrow> d = c" for d using u [of d] by auto
  moreover have "c = d \<longleftrightarrow> (pcs(c := Critical)) d = Critical" for d using u [of d] by (auto simp: owner_def)
  ultimately show ?case by (intro lock_invI [of _ _ _ c]) (simp_all del: fun_upd_apply, simp)
next
  case (leave pcs c k)
  then have u: "owner (pcs d) \<longleftrightarrow> d = c" for d unfolding lock_inv_def by (auto simp: owner_def)
  have "locked k l" using leave u by (auto simp: lock_inv_def)
  moreover have "owner ((pcs(c := Leaving)) d) \<longleftrightarrow> d = c" for d using u [of d] by auto
  moreover have "(pcs(c := Leaving)) d \<noteq> Critical" for d using u [of d] by (auto simp: owner_def)
  ultimately show ?case by (intro lock_invI [of _ _ _ c]) (simp_all del: fun_upd_apply, simp)
next
  case (free pcs c k s)
  then have u: "owner (pcs d) \<longleftrightarrow> d = c" for d unfolding lock_inv_def by (auto simp: owner_def)
  then have "\<not> owner ((pcs(c := Idle)) d)" "(pcs(c := Idle)) d \<noteq> Critical" for d
    using u [of d] by (auto simp: owner_def)
  moreover have "lcpu k l \<noteq> Some d" for d using free(1,3) u [of d] by (auto simp: lock_inv_def)
  ultimately show ?case using popcli_keeps [OF free(2)] by (simp add: lock_inv_def del: fun_upd_apply) simp
qed

text \<open>The states reachable from one in which no processor uses the lock.\<close>

inductive lock_reach :: "lockid \<Rightarrow> klocks \<times> (nat \<Rightarrow> pc) \<Rightarrow> bool" for l where
  init: "\<not> locked k l \<Longrightarrow> lcpu k l = None \<Longrightarrow> lock_reach l (k, \<lambda>_. Idle)"
| step: "lock_reach l kp \<Longrightarrow> lock_step l kp kp' \<Longrightarrow> lock_reach l kp'"

lemma lock_reach_inv: "lock_reach l kp \<Longrightarrow> lock_inv l kp"
proof (induction rule: lock_reach.induct)
  case (init k)
  then show ?case by (simp add: lock_inv_def)
qed (rule lock_inv_step)

lemma lock_reach_critical:
  fixes k :: klocks
  assumes "\<not> locked k l" "lcpu k l = None"
  shows "\<exists>k'. lock_reach l (k', (\<lambda>_. Idle)(c := Critical))"
proof -
  obtain s1 where p: "pushcli (on_cpu c k) = Ok () s1" by (auto simp: pushcli_def Let_def)
  have n1: "\<not> locked (lk s1) l" using pushcli_keeps [OF p] assms by simp
  have r1: "lock_reach l (lk s1, (\<lambda>_. Idle)(c := Spinning))"
    by (rule lock_reach.step [OF lock_reach.init [OF assms] lock_step.enter [OF _ p]])
       (use n1 in \<open>simp_all add: holding_def\<close>)
  obtain s2 where x: "xchg_loop l (on_cpu c (lk s1)) = Ok () s2"
    using n1 by (auto simp: xchg_loop_def on_cpu_def)
  have "lock_reach l (lk s2, (\<lambda>_. Idle)(c := Spinning, c := Taken))"
    by (rule lock_reach.step [OF r1 lock_step.take [OF _ x]]) simp
  then have r2: "lock_reach l (lk s2, (\<lambda>_. Idle)(c := Taken))" by simp
  have "lock_reach l ((lk s2)\<lparr>lcpu := (lcpu (lk s2))(l := Some c)\<rparr>, (\<lambda>_. Idle)(c := Taken, c := Critical))"
    by (rule lock_reach.step [OF r2 lock_step.note_cpu]) simp
  then show ?thesis by auto
qed

section \<open>Properties\<close>





end
