(* ===== verification/Sched.thy ===== *)
theory Sched
  imports Spinlock
begin

text \<open>
  The process table of \<^verbatim>\<open>proc.c\<close> and the part of it that blocks, wakes and schedules:
  \<^verbatim>\<open>sched\<close>, \<^verbatim>\<open>yield\<close>, \<^verbatim>\<open>sleep\<close>, \<^verbatim>\<open>wakeup\<close>, \<^verbatim>\<open>kill\<close> and the scheduler, with \<^verbatim>\<open>switchuvm\<close> of \<^verbatim>\<open>vm.c\<close>.
  A pointer to a process is its index in the table. \<^verbatim>\<open>swtch\<close> ends the run of a routine
  with the outcome \<open>Switch\<close>; what the code does once the process runs again is a
  routine of its own, named \<open>_resume\<close>.
\<close>

section \<open>Processes\<close>

datatype procstate = UNUSED | EMBRYO | SLEEPING | RUNNABLE | RUNNING | ZOMBIE

text \<open>The addresses processes sleep on, by the object they point to.\<close>

datatype chan = ChLog | ChTicks | ChProc nat | ChPipeRead nat | ChPipeWrite nat | ChBuf nat | ChInode nat | ChInput

text \<open>The saved registers of \<^verbatim>\<open>struct trapframe\<close>, without its padding.\<close>

record trapframe =
  tf_edi :: u32
  tf_esi :: u32
  tf_ebp :: u32
  tf_oesp :: u32
  tf_ebx :: u32
  tf_edx :: u32
  tf_ecx :: u32
  tf_eax :: u32
  tf_gs :: u16
  tf_fs :: u16
  tf_es :: u16
  tf_ds :: u16
  tf_trapno :: u32
  tf_err :: u32
  tf_eip :: u32
  tf_cs :: u16
  tf_eflags :: u32
  tf_esp :: u32
  tf_ss :: u16

definition zero_tf :: trapframe where
  "zero_tf = \<lparr>tf_edi = 0, tf_esi = 0, tf_ebp = 0, tf_oesp = 0, tf_ebx = 0, tf_edx = 0, tf_ecx = 0, tf_eax = 0,
     tf_gs = 0, tf_fs = 0, tf_es = 0, tf_ds = 0, tf_trapno = 0, tf_err = 0, tf_eip = 0, tf_cs = 0, tf_eflags = 0,
     tf_esp = 0, tf_ss = 0\<rparr>"

text \<open>Where the kernel context of a process continues.\<close>

datatype kcontext = Forkret | InSched

record proc =
  sz :: u32
  pgdir :: nat
  kstack :: nat
  pstate :: procstate
  pid :: int
  parent :: "nat option"
  tf :: trapframe
  kcontext :: kcontext
  chan :: "chan option"
  killed :: bool
  ofile :: "nat option list"
  cwd :: "nat option"
  pname :: string

abbreviation (input) NPROC :: nat where "NPROC \<equiv> 64"
abbreviation (input) NOFILE :: nat where "NOFILE \<equiv> 16"
abbreviation (input) KSTACKSIZE :: nat where "KSTACKSIZE \<equiv> 4096"

record kproc = kbase +
  procs :: "proc list"
  cur :: "nat option"
  nextpid :: int
  initproc :: nat
  cr3 :: nat
  ts_esp0 :: nat

definition upd_proc :: "nat \<Rightarrow> (proc \<Rightarrow> proc) \<Rightarrow> 'a kproc_scheme \<Rightarrow> 'a kproc_scheme" where
  "upd_proc i f s = s\<lparr>procs := (procs s)[i := f (procs s ! i)]\<rparr>"

definition myproc :: "'a kproc_scheme \<Rightarrow> proc" where
  "myproc s = procs s ! the (cur s)"

definition upd_cur :: "(proc \<Rightarrow> proc) \<Rightarrow> ('a kproc_scheme, unit) kernel" where
  "upd_cur f = modify (\<lambda>s. upd_proc (the (cur s)) f s)"

section \<open>Blocking and waking\<close>

definition pinit :: "('a kproc_scheme, unit) kernel" where
  "pinit = initlock Lptable"

definition sched :: "('a kproc_scheme, unit) kernel" where
  "sched s =
     (if \<not> holding Lptable (lk s) then Panic ''sched ptable.lock''
      else if ncli (lk s) (me (lk s)) \<noteq> 1 then Panic ''sched locks''
      else if pstate (myproc s) = RUNNING then Panic ''sched running''
      else if iflag (lk s) (me (lk s)) then Panic ''sched interruptible''
      else Switch (upd_proc (the (cur s)) (\<lambda>p. p\<lparr>kcontext := InSched\<rparr>) s))"

text \<open>\<^verbatim>\<open>sched\<close> restores the interrupt state it saved before \<^verbatim>\<open>swtch\<close>.\<close>

definition sched_resume :: "bool \<Rightarrow> ('a kproc_scheme, unit) kernel" where
  "sched_resume ena = modify (\<lambda>s. s\<lparr>lk := (lk s)\<lparr>intena := (intena (lk s))(me (lk s) := ena)\<rparr>\<rparr>)"

definition yield :: "('a kproc_scheme, unit) kernel" where
  "yield = andthen (acquire Lptable) (andthen (upd_cur (\<lambda>p. p\<lparr>pstate := RUNNABLE\<rparr>)) sched)"

definition yield_resume :: "bool \<Rightarrow> ('a kproc_scheme, unit) kernel" where
  "yield_resume ena = andthen (sched_resume ena) (release Lptable)"

definition sleep :: "chan \<Rightarrow> lockid \<Rightarrow> ('a kproc_scheme, unit) kernel" where
  "sleep ch l =
     bind (gets_st cur) (\<lambda>c.
       if c = None then panic ''sleep''
       else andthen
         (if l \<noteq> Lptable then andthen (acquire Lptable) (release l) else ret ())
         (andthen (upd_cur (\<lambda>p. p\<lparr>chan := Some ch, pstate := SLEEPING\<rparr>)) sched))"

definition sleep_resume :: "bool \<Rightarrow> lockid \<Rightarrow> ('a kproc_scheme, unit) kernel" where
  "sleep_resume ena l =
     andthen (sched_resume ena)
       (andthen (upd_cur (\<lambda>p. p\<lparr>chan := None\<rparr>))
         (if l \<noteq> Lptable then andthen (release Lptable) (acquire l) else ret ()))"

definition wake :: "chan \<Rightarrow> proc \<Rightarrow> proc" where
  "wake ch p = (if pstate p = SLEEPING \<and> chan p = Some ch then p\<lparr>pstate := RUNNABLE\<rparr> else p)"

definition wakeup1 :: "chan \<Rightarrow> ('a kproc_scheme, unit) kernel" where
  "wakeup1 ch = modify (\<lambda>s. s\<lparr>procs := map (wake ch) (procs s)\<rparr>)"

definition wakeup :: "chan \<Rightarrow> ('a kproc_scheme, unit) kernel" where
  "wakeup ch = andthen (acquire Lptable) (andthen (wakeup1 ch) (release Lptable))"

text \<open>The loop of \<^verbatim>\<open>kill\<close> over the table, from entry \<open>i\<close> on.\<close>

fun kill_loop :: "int \<Rightarrow> nat \<Rightarrow> proc list \<Rightarrow> nat option" where
  "kill_loop pd i [] = None"
| "kill_loop pd i (p # ps) = (if pid p = pd then Some i else kill_loop pd (i + 1) ps)"

definition kill :: "int \<Rightarrow> ('a kproc_scheme, int) kernel" where
  "kill pd =
     andthen (acquire Lptable)
       (bind (gets_st (\<lambda>s. kill_loop pd 0 (procs s))) (\<lambda>r.
          case r of
            None \<Rightarrow> andthen (release Lptable) (ret (-1))
          | Some i \<Rightarrow>
              andthen (modify (upd_proc i (\<lambda>p. let p1 = p\<lparr>killed := True\<rparr> in
                         if pstate p = SLEEPING then p1\<lparr>pstate := RUNNABLE\<rparr> else p1)))
                (andthen (release Lptable) (ret 0))))"

section \<open>The scheduler\<close>

definition switchuvm :: "nat \<Rightarrow> ('a kproc_scheme, unit) kernel" where
  "switchuvm i =
     andthen pushcli
       (andthen (modify (\<lambda>s. s\<lparr>ts_esp0 := kstack (myproc s) + KSTACKSIZE\<rparr>))
         (bind (gets_st (\<lambda>s. pgdir (procs s ! i))) (\<lambda>pd.
            if pd = 0 then panic ''switchuvm: no pgdir''
            else andthen (modify (\<lambda>s. s\<lparr>cr3 := pd - KERNBASE\<rparr>)) popcli)))"

definition switchkvm :: "nat \<Rightarrow> ('a kproc_scheme, unit) kernel" where
  "switchkvm kpgdir = modify (\<lambda>s. s\<lparr>cr3 := kpgdir - KERNBASE\<rparr>)"

definition sti :: "('a kproc_scheme, unit) kernel" where
  "sti = modify (\<lambda>s. s\<lparr>lk := (lk s)\<lparr>iflag := (iflag (lk s))(me (lk s) := True)\<rparr>\<rparr>)"

text \<open>
  \<^verbatim>\<open>scheduler\<close> between two switches: its inner loop goes on at entry \<open>i\<close> until it finds a
  runnable process and switches to it (\<open>Some j\<close>), or reaches the end of the table,
  releases the lock and begins another round (\<open>None\<close>).
\<close>

fun next_runnable :: "nat \<Rightarrow> proc list \<Rightarrow> nat option" where
  "next_runnable i [] = None"
| "next_runnable i (p # ps) = (if pstate p = RUNNABLE then Some i else next_runnable (i + 1) ps)"

definition scheduler_from :: "nat \<Rightarrow> ('a kproc_scheme, nat option) kernel" where
  "scheduler_from i =
     bind (gets_st (\<lambda>s. next_runnable i (drop i (procs s)))) (\<lambda>r.
       case r of
         None \<Rightarrow> andthen (release Lptable) (ret None)
       | Some j \<Rightarrow>
           andthen (modify (\<lambda>s. s\<lparr>cur := Some j\<rparr>))
             (andthen (switchuvm j)
               (andthen (modify (upd_proc j (\<lambda>p. p\<lparr>pstate := RUNNING\<rparr>))) (ret (Some j)))))"

definition scheduler_round :: "('a kproc_scheme, nat option) kernel" where
  "scheduler_round = andthen sti (andthen (acquire Lptable) (scheduler_from 0))"

definition scheduler_resume :: "nat \<Rightarrow> nat \<Rightarrow> ('a kproc_scheme, nat option) kernel" where
  "scheduler_resume kpgdir j =
     andthen (switchkvm kpgdir) (andthen (modify (\<lambda>s. s\<lparr>cur := None\<rparr>)) (scheduler_from (j + 1)))"

section \<open>Executing the operations\<close>

lemma upd_proc_simps [simp]:
  "lk (upd_proc i f s) = lk s" "cur (upd_proc i f s) = cur s"
  "length (procs (upd_proc i f s)) = length (procs s)" "cr3 (upd_proc i f s) = cr3 s"
  by (simp_all add: upd_proc_def)

lemma upd_proc_nth:
  "j < length (procs s) \<Longrightarrow> procs (upd_proc i f s) ! j = (if i = j then f (procs s ! j) else procs s ! j)"
  by (auto simp: upd_proc_def)

lemma wakeup_Ok [simp]:
  assumes "lk_ok (lk s)" "\<not> locked (lk s) Lptable"
  shows "wakeup ch s = Ok () (s\<lparr>procs := map (wake ch) (procs s)\<rparr>)"
  using assms by (simp add: wakeup_def wakeup1_def acquire_Ok)

lemma sleep_Switch:
  assumes "cur s = Some i" "holding l (lk s)" "ncli (lk s) (me (lk s)) = 1" "\<not> iflag (lk s) (me (lk s))"
    and "l \<noteq> Lptable" "\<not> locked (lk s) Lptable" "i < length (procs s)"
  shows "sleep ch l s = Switch (s\<lparr>lk := rel l (acq Lptable (lk s)),
     procs := (procs s)[i := (procs s ! i)\<lparr>chan := Some ch, pstate := SLEEPING, kcontext := InSched\<rparr>]\<rparr>)"
proof -
  let ?k = "acq Lptable (lk s)"
  have "acquire Lptable s = Ok () (s\<lparr>lk := ?k\<rparr>)" using assms by (simp add: acquire_Ok)
  moreover have "release l (s\<lparr>lk := ?k\<rparr>) = Ok () (s\<lparr>lk := rel l ?k\<rparr>)"
    using assms by (subst release_Ok) (auto simp: acq_def holding_def)
  moreover have "holding Lptable (rel l ?k)" "ncli (rel l ?k) (me (rel l ?k)) = 1" "\<not> iflag (rel l ?k) (me (rel l ?k))"
    using assms by (auto simp: rel_def acq_def holding_def)
  ultimately show ?thesis using assms
    by (simp add: sleep_def upd_cur_def upd_proc_def sched_def myproc_def)
qed

lemma kill_loop_Some:
  assumes "kill_loop pd i ps = Some j"
  shows "i \<le> j \<and> j - i < length ps \<and> pid (ps ! (j - i)) = pd \<and> (\<forall>m < j - i. pid (ps ! m) \<noteq> pd)"
  using assms
proof (induction ps arbitrary: i)
  case (Cons p ps)
  show ?case
  proof (cases "pid p = pd")
    case True
    then show ?thesis using Cons.prems by simp
  next
    case False
    then have IH: "i + 1 \<le> j \<and> j - (i + 1) < length ps \<and> pid (ps ! (j - (i + 1))) = pd \<and>
        (\<forall>m < j - (i + 1). pid (ps ! m) \<noteq> pd)"
      using Cons by simp
    have "j - i = Suc (j - (i + 1))" using IH by linarith
    then show ?thesis using IH False by (auto simp: less_Suc_eq_0_disj)
  qed
qed simp

lemma kill_loop_None: "kill_loop pd i ps = None \<Longrightarrow> p \<in> set ps \<Longrightarrow> pid p \<noteq> pd"
  by (induction ps arbitrary: i) (auto split: if_splits)

lemma next_runnable_Some:
  assumes "next_runnable i ps = Some j"
  shows "i \<le> j" "j - i < length ps" "pstate (ps ! (j - i)) = RUNNABLE"
    "\<forall>m < j - i. pstate (ps ! m) \<noteq> RUNNABLE"
proof -
  have "i \<le> j \<and> j - i < length ps \<and> pstate (ps ! (j - i)) = RUNNABLE \<and>
      (\<forall>m < j - i. pstate (ps ! m) \<noteq> RUNNABLE)"
    using assms
  proof (induction ps arbitrary: i)
    case (Cons p ps)
    show ?case
    proof (cases "pstate p = RUNNABLE")
      case True
      then show ?thesis using Cons.prems by simp
    next
      case False
      then have IH: "i + 1 \<le> j \<and> j - (i + 1) < length ps \<and> pstate (ps ! (j - (i + 1))) = RUNNABLE \<and>
          (\<forall>m < j - (i + 1). pstate (ps ! m) \<noteq> RUNNABLE)"
        using Cons by simp
      have "j - i = Suc (j - (i + 1))" using IH by linarith
      then show ?thesis using IH False by (auto simp: less_Suc_eq_0_disj)
    qed
  qed simp
  then show "i \<le> j" "j - i < length ps" "pstate (ps ! (j - i)) = RUNNABLE"
    "\<forall>m < j - i. pstate (ps ! m) \<noteq> RUNNABLE" by auto
qed

lemma next_runnable_None:
  "next_runnable i ps = None \<Longrightarrow> k < length ps \<Longrightarrow> pstate (ps ! k) \<noteq> RUNNABLE"
  by (induction ps arbitrary: i k) (auto simp: nth_Cons split: if_splits nat.splits)

lemma switchuvm_Ok:
  assumes "lk_ok (lk s)" "pgdir (procs s ! i) \<noteq> 0"
  shows "switchuvm i s = Ok () (s\<lparr>ts_esp0 := kstack (myproc s) + KSTACKSIZE, cr3 := pgdir (procs s ! i) - KERNBASE\<rparr>)"
  using assms by (simp add: switchuvm_def pushcli_Ok myproc_def)

lemma sleep_resume_Ok:
  assumes "cur s = Some i" "lk s = acq Lptable k" "lk_ok k" "\<not> locked k Lptable" "\<not> locked k l" "l \<noteq> Lptable"
    "ncli k (me k) = 0"
  shows "sleep_resume (iflag k (me k)) l s =
     Ok () (upd_proc i (\<lambda>p. p\<lparr>chan := None\<rparr>) (s\<lparr>lk := acq l k\<rparr>))"
proof -
  have "(acq Lptable k)\<lparr>intena := (intena (acq Lptable k))(me k := iflag k (me k))\<rparr> = acq Lptable k"
    using assms(7) by (simp add: acq_def fun_eq_iff)
  then show ?thesis using assms
    by (simp add: sleep_resume_def sched_resume_def upd_cur_def upd_proc_def acquire_Ok)
qed

section \<open>Properties\<close>

definition no_locks :: klocks where
  "no_locks = \<lparr>locked = \<lambda>_. False, lcpu = \<lambda>_. None, me = 0, ncli = \<lambda>_. 0, intena = \<lambda>_. True, iflag = \<lambda>_. True\<rparr>"

lemma no_locks_ok [simp]: "lk_ok no_locks" "\<not> locked no_locks l" "me no_locks = 0"
  "ncli no_locks c = 0" "iflag no_locks c"
  by (simp_all add: no_locks_def lk_ok_def)

definition demo_proc :: proc where
  "demo_proc = \<lparr>sz = 4096, pgdir = 0x80400000, kstack = 0x80401000, pstate = RUNNABLE, pid = 1, parent = None,
     tf = zero_tf\<lparr>tf_trapno := 64, tf_esp := 4096\<rparr>,
     kcontext = InSched, chan = None, killed = False, ofile = replicate 16 None, cwd = None, pname = ''init''\<rparr>"

definition demo_kproc :: kproc where
  "demo_kproc = \<lparr>lk = no_locks, procs = demo_proc\<lparr>pstate := RUNNING\<rparr> # replicate 63 (demo_proc\<lparr>pid := 0, pstate := UNUSED\<rparr>),
     cur = Some 0, nextpid = 2, initproc = 0, cr3 = 0, ts_esp0 = 0\<rparr>"



text \<open>
  C19: the scheduler takes the processes in the order of the table. From entry \<open>i\<close> on, it
  runs the first runnable process, in its own address space and marked as running; if
  there is none it releases the table's lock, so interrupts and other processors get
  their turn before the next round.
\<close>

theorem scheduler_from_correct:
  assumes "lk s = acq Lptable k" and "lk_ok k" and "\<not> locked k Lptable"
    and "\<forall>p \<in> set (procs s). pstate p = RUNNABLE \<longrightarrow> pgdir p \<noteq> 0"
  shows "(\<exists>j s'. scheduler_from i s = Ok (Some j) s' \<and> i \<le> j \<and> j < length (procs s) \<and>
            pstate (procs s ! j) = RUNNABLE \<and> (\<forall>m. i \<le> m \<longrightarrow> m < j \<longrightarrow> pstate (procs s ! m) \<noteq> RUNNABLE) \<and>
            cur s' = Some j \<and> cr3 s' = pgdir (procs s ! j) - KERNBASE \<and> lk s' = lk s \<and>
            procs s' = (procs s)[j := (procs s ! j)\<lparr>pstate := RUNNING\<rparr>]) \<or>
         (scheduler_from i s = Ok None (s\<lparr>lk := k\<rparr>) \<and>
            (\<forall>m. i \<le> m \<longrightarrow> m < length (procs s) \<longrightarrow> pstate (procs s ! m) \<noteq> RUNNABLE))"
proof (cases "next_runnable i (drop i (procs s))")
  case None
  then have "pstate (procs s ! m) \<noteq> RUNNABLE" if "i \<le> m" "m < length (procs s)" for m
    using next_runnable_None [OF None, of "m - i"] that by simp
  then show ?thesis using None assms by (simp add: scheduler_from_def)
next
  case (Some j)
  note n = next_runnable_Some [OF Some]
  have j: "i \<le> j" "j < length (procs s)" "pstate (procs s ! j) = RUNNABLE" using n by auto
  have before: "pstate (procs s ! m) \<noteq> RUNNABLE" if "i \<le> m" "m < j" for m
    using n(4) [rule_format, of "m - i"] that j by auto
  have "pgdir (procs s ! j) \<noteq> 0" using assms(4) j by simp
  moreover have "lk_ok (acq Lptable k)" using assms(2) by simp
  ultimately have "scheduler_from i s = Ok (Some j) (upd_proc j (\<lambda>p. p\<lparr>pstate := RUNNING\<rparr>)
      (s\<lparr>cur := Some j, ts_esp0 := kstack (procs s ! j) + KSTACKSIZE, cr3 := pgdir (procs s ! j) - KERNBASE\<rparr>))"
    using Some assms(1) by (simp add: scheduler_from_def switchuvm_Ok myproc_def)
  then show ?thesis using j before by (auto simp: upd_proc_def)
qed

theorem scheduler_from_correct_witness:
  "\<exists>s'. scheduler_from 0 (demo_kproc\<lparr>lk := acq Lptable no_locks, procs := [demo_proc]\<rparr>) = Ok (Some 0) s' \<and>
     cur s' = Some 0 \<and> cr3 s' = 0x400000"
proof -
  let ?s = "demo_kproc\<lparr>lk := acq Lptable no_locks, procs := [demo_proc]\<rparr>"
  have "lk ?s = acq Lptable no_locks" "\<forall>p \<in> set (procs ?s). pstate p = RUNNABLE \<longrightarrow> pgdir p \<noteq> 0"
    by (simp_all add: demo_kproc_def demo_proc_def)
  from scheduler_from_correct [OF this(1) no_locks_ok(1,2) this(2), of 0]
  show ?thesis by (auto simp: demo_proc_def)
qed

end
