(* ===== verification/Kalloc.thy ===== *)
theory Kalloc
  imports Sched
begin

text \<open>
  The physical page allocator of \<^verbatim>\<open>kalloc.c\<close>. \<open>kbytes\<close> is physical memory, addressed by
  kernel virtual addresses; a free page holds the address of the next free page in
  its first word, as \<^verbatim>\<open>struct run\<close> says. \<open>kend\<close> is the linker's symbol \<^verbatim>\<open>end\<close>.
\<close>

section \<open>State and operations\<close>

record kmemory = kproc +
  kbytes :: mem
  freelist :: nat
  use_lock :: bool
  kend :: nat

abbreviation (input) PGSIZE :: nat where "PGSIZE \<equiv> 4096"
abbreviation (input) PHYSTOP :: nat where "PHYSTOP \<equiv> 0xE000000"

definition when_locked :: "('a kmemory_scheme, unit) kernel \<Rightarrow> ('a kmemory_scheme, unit) kernel" where
  "when_locked m s = (if use_lock s then m s else Ok () s)"

definition kfree :: "nat \<Rightarrow> ('a kmemory_scheme, unit) kernel" where
  "kfree v s =
     (if v mod PGSIZE \<noteq> 0 \<or> v < kend s \<or> v - KERNBASE \<ge> PHYSTOP then Panic ''kfree''
      else
        andthen (modify (\<lambda>s. s\<lparr>kbytes := memset (kbytes s) v 1 PGSIZE\<rparr>))
          (andthen (when_locked (acquire Lkmem))
            (andthen (modify (\<lambda>s. s\<lparr>kbytes := store32 (kbytes s) v (of_nat (freelist s)), freelist := v\<rparr>))
              (when_locked (release Lkmem)))) s)"

definition kalloc :: "('a kmemory_scheme, nat) kernel" where
  "kalloc =
     andthen (when_locked (acquire Lkmem))
       (bind (gets_st freelist) (\<lambda>r.
          andthen (modify (\<lambda>s. if r \<noteq> 0 then s\<lparr>freelist := unat (load32 (kbytes s) r)\<rparr> else s))
            (andthen (when_locked (release Lkmem)) (ret r))))"

text \<open>
  Rounding up to a page. The sum is a 32-bit one: an address in the last page of the
  address space rounds up to 0.
\<close>

definition PGROUNDUP :: "nat \<Rightarrow> nat" where
  "PGROUNDUP a = (a + PGSIZE - 1) mod 2 ^ 32 div PGSIZE * PGSIZE"

function freerange_loop :: "nat \<Rightarrow> nat \<Rightarrow> ('a kmemory_scheme, unit) kernel" where
  "freerange_loop p vend =
     (if p + PGSIZE \<le> vend then andthen (kfree p) (freerange_loop (p + PGSIZE) vend) else ret ())"
  by pat_completeness auto
termination by (relation "measure (\<lambda>(p, vend). vend - p)") auto

declare freerange_loop.simps [simp del]

definition freerange :: "nat \<Rightarrow> nat \<Rightarrow> ('a kmemory_scheme, unit) kernel" where
  "freerange vstart vend = freerange_loop (PGROUNDUP vstart) vend"

definition kinit1 :: "nat \<Rightarrow> nat \<Rightarrow> ('a kmemory_scheme, unit) kernel" where
  "kinit1 vstart vend =
     andthen (initlock Lkmem)
       (andthen (modify (\<lambda>s. s\<lparr>use_lock := False\<rparr>)) (freerange vstart vend))"

definition kinit2 :: "nat \<Rightarrow> nat \<Rightarrow> ('a kmemory_scheme, unit) kernel" where
  "kinit2 vstart vend = andthen (freerange vstart vend) (modify (\<lambda>s. s\<lparr>use_lock := True\<rparr>))"

section \<open>Words in memory\<close>

lemma load_store32 [simp]: "load32 (store32 m a w) a = w"
proof (rule bit_word_eqI)
  fix n assume "n < LENGTH(32)"
  then consider "n < 8" | "8 \<le> n" "n < 16" | "16 \<le> n" "n < 24" | "24 \<le> n" "n < 32" by fastforce
  then show "bit (load32 (store32 m a w) a) n = bit w n"
    by cases (auto simp: load32_def store32_def bit_simps)
qed

lemma load_store32_other:
  "b + 4 \<le> a \<or> a + 4 \<le> b \<Longrightarrow> load32 (store32 m a w) b = load32 m b"
  by (auto simp: load32_def store32_def)

lemma load32_cong:
  assumes "\<And>i. i < 4 \<Longrightarrow> m (a + i) = m' (a + i)"
  shows "load32 m a = load32 m' a"
  using assms [of 0] assms [of 1] assms [of 2] assms [of 3] by (simp add: load32_def)

section \<open>The free list\<close>

text \<open>
  \<open>fchain m p ps\<close>: following the links in memory from \<open>p\<close> meets the pages \<open>ps\<close>.
\<close>

fun fchain :: "mem \<Rightarrow> nat \<Rightarrow> nat list \<Rightarrow> bool" where
  "fchain m p [] \<longleftrightarrow> p = 0"
| "fchain m p (q # ps) \<longleftrightarrow> p = q \<and> q \<noteq> 0 \<and> fchain m (unat (load32 m q)) ps"

definition page_ok :: "nat \<Rightarrow> nat \<Rightarrow> bool" where
  "page_ok e p \<longleftrightarrow> p mod PGSIZE = 0 \<and> e \<le> p \<and> p < KERNBASE + PHYSTOP"

text \<open>\<open>free_pages s ps\<close>: the pages on the free list are \<open>ps\<close>, pages of free memory, all different.\<close>

definition free_pages :: "'a kmemory_scheme \<Rightarrow> nat list \<Rightarrow> bool" where
  "free_pages s ps \<longleftrightarrow> fchain (kbytes s) (freelist s) ps \<and> distinct ps \<and>
     (\<forall>p \<in> set ps. page_ok (kend s) p) \<and> KERNBASE < kend s"

lemma fchain_cong:
  "(\<And>q i. q \<in> set ps \<Longrightarrow> i < 4 \<Longrightarrow> m (q + i) = m' (q + i)) \<Longrightarrow> fchain m p ps = fchain m' p ps"
proof (induction ps arbitrary: p)
  case (Cons q ps)
  have "load32 m q = load32 m' q" by (rule load32_cong) (use Cons.prems in simp)
  then show ?case using Cons by simp
qed simp

lemma pages_apart:
  assumes "p mod PGSIZE = 0" "q mod PGSIZE = 0" "p \<noteq> (q :: nat)"
  shows "p + PGSIZE \<le> q \<or> q + PGSIZE \<le> p"
proof -
  obtain a b where "p = PGSIZE * a" "q = PGSIZE * b" using assms(1,2) by (auto elim!: dvdE simp: mod_eq_0_iff_dvd)
  then show ?thesis using assms(3) by (cases "a < b") auto
qed

lemma store32_in: "a \<le> b \<Longrightarrow> b < a + 4 \<Longrightarrow> store32 m a w b = store32 m' a w b"
  by (auto simp: store32_def)

lemma store32_out: "b < a \<or> a + 4 \<le> b \<Longrightarrow> store32 m a w b = m b"
  by (auto simp: store32_def)

lemma fill_out: "b < a \<or> a + n \<le> b \<Longrightarrow> fill m a c n b = m b"
  by (auto simp: fill_def)

lemma PGROUNDUP_mod [simp]: "PGROUNDUP a mod PGSIZE = 0"
  by (simp add: PGROUNDUP_def)

lemma le_PGROUNDUP:
  assumes "a + PGSIZE \<le> 2 ^ 32"
  shows "a \<le> PGROUNDUP a" "PGROUNDUP a < a + PGSIZE"
  using assms by (auto simp: PGROUNDUP_def)

lemma PGROUNDUP_le_iff:
  assumes "a + PGSIZE \<le> 2 ^ 32" "q mod PGSIZE = 0"
  shows "PGROUNDUP a \<le> q \<longleftrightarrow> a \<le> q"
proof
  assume "a \<le> q"
  then have "PGROUNDUP a < q + PGSIZE" using le_PGROUNDUP(2) [OF assms(1)] by simp
  then show "PGROUNDUP a \<le> q" using pages_apart [OF PGROUNDUP_mod assms(2), of a] by force
qed (use le_PGROUNDUP(1) [OF assms(1)] in simp)

definition lock_free :: "lockid \<Rightarrow> 'a kbase_scheme \<Rightarrow> bool" where
  "lock_free l s \<longleftrightarrow> lk_ok (lk s) \<and> \<not> locked (lk s) l"

lemma kfree_Ok:
  assumes "page_ok (kend s) v" "KERNBASE < kend s" "lock_free Lkmem s"
  shows "kfree v s = Ok () (s\<lparr>kbytes := store32 (fill (kbytes s) v 1 PGSIZE) v (of_nat (freelist s)), freelist := v\<rparr>)"
  using assms by (cases "use_lock s") (auto simp: kfree_def page_ok_def when_locked_def lock_free_def acquire_Ok memset_fill)

lemma kalloc_Ok:
  assumes "lock_free Lkmem s"
  shows "kalloc s = Ok (freelist s)
     (if freelist s = 0 then s else s\<lparr>freelist := unat (load32 (kbytes s) (freelist s))\<rparr>)"
  using assms by (cases "use_lock s") (auto simp: kalloc_def when_locked_def lock_free_def acquire_Ok)

lemma free_pages_kfree:
  assumes fp: "free_pages s ps" and v: "page_ok (kend s) v" "v \<notin> set ps"
    and s': "kbytes s' = store32 (fill (kbytes s) v 1 PGSIZE) v (of_nat (freelist s))" "freelist s' = v" "kend s' = kend s"
  shows "free_pages s' (v # ps)"
proof -
  have c: "fchain (kbytes s) (freelist s) ps" and pos: "\<forall>p \<in> set ps. page_ok (kend s) p" and e: "KERNBASE < kend s"
    using fp by (auto simp: free_pages_def)
  have "freelist s = 0 \<or> freelist s \<in> set ps" using c by (cases ps) auto
  then have "freelist s < 2 ^ 32" using pos by (auto simp: page_ok_def)
  then have "unat (of_nat (freelist s) :: u32) = freelist s" by (simp add: unat_of_nat)
  moreover have "fchain (kbytes s') p ps = fchain (kbytes s) p ps" for p
  proof (rule fchain_cong)
    fix q i :: nat
    assume q: "q \<in> set ps" and i: "i < 4"
    have "q mod PGSIZE = 0" "v mod PGSIZE = 0" "q \<noteq> v" using pos q v by (auto simp: page_ok_def)
    then have "q + PGSIZE \<le> v \<or> v + PGSIZE \<le> q" by (rule pages_apart)
    then have "q + i < v \<or> v + PGSIZE \<le> q + i" using i by auto
    then show "kbytes s' (q + i) = kbytes s (q + i)"
      unfolding s' by (subst store32_out) (auto simp: fill_out)
  qed
  moreover have "0 < v" using v e by (auto simp: page_ok_def)
  ultimately show ?thesis using fp v c s' by (simp add: free_pages_def)
qed

lemma free_pages_kalloc:
  assumes "free_pages s (p # ps)" "lock_free Lkmem s"
  shows "kalloc s = Ok p (s\<lparr>freelist := unat (load32 (kbytes s) p)\<rparr>)"
    "free_pages (s\<lparr>freelist := unat (load32 (kbytes s) p)\<rparr>) ps" "page_ok (kend s) p"
  using assms by (auto simp: kalloc_Ok free_pages_def)

lemma free_pages_none:
  assumes "free_pages s []" "lock_free Lkmem s"
  shows "kalloc s = Ok 0 s"
  using assms by (auto simp: kalloc_Ok free_pages_def)

text \<open>The pages that \<^verbatim>\<open>freerange\<close> visits, in order.\<close>

function pages_from :: "nat \<Rightarrow> nat \<Rightarrow> nat list" where
  "pages_from p vend = (if p + PGSIZE \<le> vend then p # pages_from (p + PGSIZE) vend else [])"
  by pat_completeness auto
termination by (relation "measure (\<lambda>(p, vend). vend - p)") auto

declare pages_from.simps [simp del]

lemma pages_from_set:
  "p mod PGSIZE = 0 \<Longrightarrow> q \<in> set (pages_from p vend) \<longleftrightarrow> q mod PGSIZE = 0 \<and> p \<le> q \<and> q + PGSIZE \<le> vend"
proof (induction p vend rule: pages_from.induct)
  case (1 p vend)
  have g: "p < q \<Longrightarrow> q mod PGSIZE = 0 \<Longrightarrow> p + PGSIZE \<le> q" using 1(2)
    by (auto elim!: dvdE simp: mod_eq_0_iff_dvd)
  show ?case
  proof (cases "p + PGSIZE \<le> vend")
    case True
    then have "q \<in> set (pages_from p vend) \<longleftrightarrow> q = p \<or> q mod PGSIZE = 0 \<and> p + PGSIZE \<le> q \<and> q + PGSIZE \<le> vend"
      using 1 by (subst pages_from.simps) simp
    then show ?thesis using g 1(2) True by (metis add_leD1 le_neq_implies_less order_refl)
  next
    case False
    then show ?thesis by (subst pages_from.simps) simp
  qed
qed

lemma freerange_loop_Ok:
  assumes "free_pages s ps" "lock_free Lkmem s" "p mod PGSIZE = 0" "kend s \<le> p" "vend \<le> KERNBASE + PHYSTOP"
    "set (pages_from p vend) \<inter> set ps = {}"
  shows "\<exists>s'. freerange_loop p vend s = Ok () s' \<and> free_pages s' (rev (pages_from p vend) @ ps) \<and>
     lk s' = lk s \<and> use_lock s' = use_lock s \<and> kend s' = kend s"
  using assms
proof (induction p vend arbitrary: s ps rule: pages_from.induct)
  case (1 p vend)
  show ?case
  proof (cases "p + PGSIZE \<le> vend")
    case False
    then have "pages_from p vend = []" by (subst pages_from.simps) simp
    moreover have "freerange_loop p vend s = Ok () s" using False by (subst freerange_loop.simps) simp
    ultimately show ?thesis using 1 by simp
  next
    case True
    have pf: "pages_from p vend = p # pages_from (p + PGSIZE) vend" using True by (subst pages_from.simps) simp
    have pok: "page_ok (kend s) p" using 1 True by (simp add: page_ok_def)
    have e: "KERNBASE < kend s" using 1 by (simp add: free_pages_def)
    have pn: "p \<notin> set ps" using 1(7) pf by auto
    define s1 where "s1 = s\<lparr>kbytes := store32 (fill (kbytes s) p 1 PGSIZE) p (of_nat (freelist s)), freelist := p\<rparr>"
    have k: "kfree p s = Ok () s1" using kfree_Ok [OF pok e 1(3)] by (simp add: s1_def)
    have fp: "free_pages s1 (p # ps)"
      by (rule free_pages_kfree [OF 1(2) pok pn]) (simp_all add: s1_def)
    have s1: "lk s1 = lk s" "use_lock s1 = use_lock s" "kend s1 = kend s" by (simp_all add: s1_def)
    have "p \<notin> set (pages_from (p + PGSIZE) vend)" using pages_from_set [of "p + PGSIZE" p vend] 1(4) by simp
    then have dj: "set (pages_from (p + PGSIZE) vend) \<inter> set (p # ps) = {}" using 1(7) pf by auto
    have pm: "(p + PGSIZE) mod PGSIZE = 0" using 1(4) by simp
    obtain s' where "freerange_loop (p + PGSIZE) vend s1 = Ok () s'"
        "free_pages s' (rev (pages_from (p + PGSIZE) vend) @ p # ps)"
        "lk s' = lk s1" "use_lock s' = use_lock s1" "kend s' = kend s1"
      using 1(1) [OF True fp _ pm _ 1(6) dj] 1(3,5) s1 by (auto simp: lock_free_def)
    moreover have "freerange_loop p vend s = freerange_loop (p + PGSIZE) vend s1"
      using True k by (subst freerange_loop.simps) simp
    ultimately show ?thesis using s1 pf by simp
  qed
qed

section \<open>Properties\<close>

text \<open>
  C20: the page allocator. With the free list well formed, \<^verbatim>\<open>kalloc\<close> returns its first page
  and takes it off the list, or 0 when there is none; \<^verbatim>\<open>kfree\<close> of a page of free memory
  that is not on the list puts it in front. No byte outside the freed page changes,
  and the lock is given back.
\<close>

theorem kalloc_kfree_correct:
  assumes "free_pages s ps" and "lock_free Lkmem s" and "page_ok (kend s) v" and "v \<notin> set ps"
  shows "(case ps of [] \<Rightarrow> kalloc s = Ok 0 s
          | p # qs \<Rightarrow> \<exists>s'. kalloc s = Ok p s' \<and> free_pages s' qs \<and> kbytes s' = kbytes s \<and> lk s' = lk s) \<and>
     (\<exists>s'. kfree v s = Ok () s' \<and> free_pages s' (v # ps) \<and> lk s' = lk s \<and>
        (\<forall>a. a < v \<or> v + PGSIZE \<le> a \<longrightarrow> kbytes s' a = kbytes s a))"
proof -
  have "case ps of [] \<Rightarrow> kalloc s = Ok 0 s
     | p # qs \<Rightarrow> \<exists>s'. kalloc s = Ok p s' \<and> free_pages s' qs \<and> kbytes s' = kbytes s \<and> lk s' = lk s"
    using free_pages_none free_pages_kalloc assms(1,2) by (cases ps) fastforce+
  moreover
  let ?s' = "s\<lparr>kbytes := store32 (fill (kbytes s) v 1 PGSIZE) v (of_nat (freelist s)), freelist := v\<rparr>"
  have "KERNBASE < kend s" using assms(1) by (simp add: free_pages_def)
  then have "kfree v s = Ok () ?s'" using kfree_Ok assms(2,3) by blast
  moreover have "free_pages ?s' (v # ps)" by (rule free_pages_kfree [OF assms(1,3,4)]) simp_all
  moreover have "kbytes ?s' a = kbytes s a" if "a < v \<or> v + PGSIZE \<le> a" for a
    using that by (auto simp: store32_out fill_out)
  ultimately show ?thesis by auto
qed

definition demo_kmemory :: kmemory where
  "demo_kmemory = kproc.extend demo_kproc
     \<lparr>kbytes = \<lambda>_. 0, freelist = 0, use_lock = True, kend = 0x80110000\<rparr>"

lemma demo_kmemory_simps [simp]:
  "kbytes demo_kmemory a = 0" "freelist demo_kmemory = 0" "use_lock demo_kmemory" "kend demo_kmemory = 0x80110000"
  "lk demo_kmemory = no_locks" "free_pages demo_kmemory []" "lock_free Lkmem demo_kmemory"
  by (simp_all add: demo_kmemory_def kproc.defs demo_kproc_def free_pages_def lock_free_def)


theorem kalloc_kfree_correct_witness:
  "kalloc demo_kmemory = Ok 0 demo_kmemory \<and>
   (\<exists>s'. kfree 0x80200000 demo_kmemory = Ok () s' \<and> free_pages s' [0x80200000])"
  using kalloc_kfree_correct [of demo_kmemory "[]" "0x80200000"] by (auto simp: page_ok_def)

text \<open>
  C21: \<^verbatim>\<open>freerange\<close> over memory behind the kernel and below \<^verbatim>\<open>PHYSTOP\<close> returns with exactly the
  whole pages of the range added to the free list, each once.
\<close>

theorem freerange_correct:
  assumes "free_pages s ps" and "lock_free Lkmem s" and "kend s \<le> vstart" and "vstart \<le> vend"
    and "vend \<le> KERNBASE + PHYSTOP" and "\<forall>p \<in> set ps. p < vstart \<or> vend < p + PGSIZE"
  shows "\<exists>s' qs. freerange vstart vend s = Ok () s' \<and> free_pages s' (qs @ ps) \<and>
     set qs = {p. p mod PGSIZE = 0 \<and> vstart \<le> p \<and> p + PGSIZE \<le> vend}"
proof -
  let ?p = "PGROUNDUP vstart"
  have w: "vstart + PGSIZE \<le> 2 ^ 32" using assms(4,5) by simp
  have st: "set (pages_from ?p vend) = {p. p mod PGSIZE = 0 \<and> vstart \<le> p \<and> p + PGSIZE \<le> vend}"
    using pages_from_set [OF PGROUNDUP_mod] PGROUNDUP_le_iff [OF w] by auto
  have "set (pages_from ?p vend) \<inter> set ps = {}" using assms(6) unfolding st by fastforce
  from freerange_loop_Ok [OF assms(1,2) PGROUNDUP_mod _ assms(5) this] assms(3) le_PGROUNDUP(1) [OF w]
  obtain s' where "freerange_loop ?p vend s = Ok () s'" "free_pages s' (rev (pages_from ?p vend) @ ps)" by auto
  then show ?thesis unfolding freerange_def using st by (metis set_rev)
qed

theorem freerange_correct_witness:
  "\<exists>s' qs. freerange 0x80200001 0x80203FFF demo_kmemory = Ok () s' \<and> free_pages s' qs \<and>
     set qs = {p. p mod PGSIZE = 0 \<and> 0x80200001 \<le> p \<and> p + PGSIZE \<le> 0x80203FFF}"
  using freerange_correct [of demo_kmemory "[]" "0x80200001" "0x80203FFF"] by simp

end
