(* ===== verification/Vm.thy ===== *)
theory Vm
  imports Kalloc
begin

text \<open>
  Page tables: \<^verbatim>\<open>vm.c\<close> over the bytes of physical memory. A page directory and its page
  tables are pages of \<open>kbytes\<close> whose words are the entries the processor reads; virtual
  addresses are numbers below \<open>2 ^ 32\<close>, with the wrap-around of 32-bit sums written out
  where an argument can reach it. The segment registers (\<^verbatim>\<open>seginit\<close>) are not part of
  the state. \<^verbatim>\<open>switchuvm\<close> and \<^verbatim>\<open>switchkvm\<close> are in the theory \<^verbatim>\<open>Sched\<close>, \<^verbatim>\<open>loaduvm\<close> is with
  \<^verbatim>\<open>exec\<close>.
\<close>

section \<open>Entries and addresses\<close>

abbreviation (input) PTE_P :: u32 where "PTE_P \<equiv> 1"
abbreviation (input) PTE_W :: u32 where "PTE_W \<equiv> 2"
abbreviation (input) PTE_U :: u32 where "PTE_U \<equiv> 4"
abbreviation (input) NPDENTRIES :: nat where "NPDENTRIES \<equiv> 1024"
abbreviation (input) NPTENTRIES :: nat where "NPTENTRIES \<equiv> 1024"
abbreviation (input) EXTMEM :: nat where "EXTMEM \<equiv> 0x100000"
abbreviation (input) DEVSPACE :: nat where "DEVSPACE \<equiv> 0xFE000000"

definition PDX :: "nat \<Rightarrow> nat" where
  "PDX va = va div 2 ^ 22 mod 1024"

definition PTX :: "nat \<Rightarrow> nat" where
  "PTX va = va div 2 ^ 12 mod 1024"

definition PTE_ADDR :: "u32 \<Rightarrow> nat" where
  "PTE_ADDR pte = unat (pte AND NOT 0xFFF)"

definition PGROUNDDOWN :: "nat \<Rightarrow> nat" where
  "PGROUNDDOWN a = a div PGSIZE * PGSIZE"

definition v2p :: "nat \<Rightarrow> nat" where
  "v2p a = (a + 2 ^ 32 - KERNBASE) mod 2 ^ 32"

definition p2v :: "nat \<Rightarrow> nat" where
  "p2v a = (a + KERNBASE) mod 2 ^ 32"

section \<open>State and operations\<close>

text \<open>\<open>kdata\<close> is the linker's symbol \<^verbatim>\<open>data\<close>, the end of the kernel's text.\<close>

record kvm = kmemory +
  kpgdir :: nat
  kdata :: nat

definition get32 :: "nat \<Rightarrow> ('a kmemory_scheme, u32) kernel" where
  "get32 a = gets_st (\<lambda>s. load32 (kbytes s) a)"

definition set32 :: "nat \<Rightarrow> u32 \<Rightarrow> ('a kmemory_scheme, unit) kernel" where
  "set32 a w = modify (\<lambda>s. s\<lparr>kbytes := store32 (kbytes s) a w\<rparr>)"

definition kmemset :: "nat \<Rightarrow> u32 \<Rightarrow> nat \<Rightarrow> ('a kmemory_scheme, unit) kernel" where
  "kmemset a c n = modify (\<lambda>s. s\<lparr>kbytes := memset (kbytes s) a c n\<rparr>)"

definition kmemmove :: "nat \<Rightarrow> nat \<Rightarrow> nat \<Rightarrow> ('a kmemory_scheme, unit) kernel" where
  "kmemmove d a n = modify (\<lambda>s. s\<lparr>kbytes := memmove (kbytes s) d a n\<rparr>)"

text \<open>The address of the entry for \<open>va\<close>, or 0.\<close>

definition walkpgdir :: "nat \<Rightarrow> nat \<Rightarrow> bool \<Rightarrow> ('a kmemory_scheme, nat) kernel" where
  "walkpgdir pd va alloc =
     bind (get32 (pd + 4 * PDX va)) (\<lambda>pde.
       if pde AND PTE_P \<noteq> 0 then ret (p2v (PTE_ADDR pde) + 4 * PTX va)
       else if \<not> alloc then ret 0
       else bind kalloc (\<lambda>pgtab.
         if pgtab = 0 then ret 0
         else andthen (kmemset pgtab 0 PGSIZE)
           (andthen (set32 (pd + 4 * PDX va) (of_nat (v2p pgtab) OR PTE_P OR PTE_W OR PTE_U))
             (ret (pgtab + 4 * PTX va)))))"

text \<open>
  The loop of \<^verbatim>\<open>mappages\<close>; \<open>n\<close> is the number of pages from \<open>a\<close> to \<^verbatim>\<open>last\<close>, so that
  \<^verbatim>\<open>a == last\<close> is \<open>n = 0\<close>.
\<close>

fun mappages_loop :: "nat \<Rightarrow> nat \<Rightarrow> nat \<Rightarrow> nat \<Rightarrow> u32 \<Rightarrow> ('a kmemory_scheme, int) kernel" where
  "mappages_loop n pd a pa perm =
     bind (walkpgdir pd a True) (\<lambda>pte.
       if pte = 0 then ret (-1)
       else bind (get32 pte) (\<lambda>e.
         if e AND PTE_P \<noteq> 0 then panic ''remap''
         else andthen (set32 pte (of_nat pa OR perm OR PTE_P))
           (case n of
              0 \<Rightarrow> ret 0
            | Suc m \<Rightarrow> mappages_loop m pd ((a + PGSIZE) mod 2 ^ 32) ((pa + PGSIZE) mod 2 ^ 32) perm)))"

declare mappages_loop.simps [simp del]

definition mappages :: "nat \<Rightarrow> nat \<Rightarrow> nat \<Rightarrow> nat \<Rightarrow> u32 \<Rightarrow> ('a kmemory_scheme, int) kernel" where
  "mappages pd va len pa perm =
     (let a = PGROUNDDOWN va;
          last = PGROUNDDOWN ((va + len + (2 ^ 32 - 1)) mod 2 ^ 32)
      in mappages_loop ((last + 2 ^ 32 - a) mod 2 ^ 32 div PGSIZE) pd a pa perm)"

text \<open>The table \<^verbatim>\<open>kmap\<close>: virtual address, first and last physical address, permission.\<close>

definition kmap :: "nat \<Rightarrow> (nat \<times> nat \<times> nat \<times> u32) list" where
  "kmap data =
     [(KERNBASE, 0, EXTMEM, PTE_W),
      (KERNBASE + EXTMEM, EXTMEM, v2p data, 0),
      (data, v2p data, PHYSTOP, PTE_W),
      (DEVSPACE, DEVSPACE, 0, PTE_W)]"

fun setupkvm_loop :: "nat \<Rightarrow> (nat \<times> nat \<times> nat \<times> u32) list \<Rightarrow> ('a kmemory_scheme, nat) kernel" where
  "setupkvm_loop pd [] = ret pd"
| "setupkvm_loop pd ((virt, phys_start, phys_end, perm) # ks) =
     bind (mappages pd virt ((phys_end + 2 ^ 32 - phys_start) mod 2 ^ 32) phys_start perm) (\<lambda>r.
       if r < 0 then ret 0 else setupkvm_loop pd ks)"

definition setupkvm :: "('a kvm_scheme, nat) kernel" where
  "setupkvm =
     bind kalloc (\<lambda>pd.
       if pd = 0 then ret 0
       else andthen (kmemset pd 0 PGSIZE)
         (if p2v PHYSTOP > DEVSPACE then panic ''PHYSTOP too high''
          else bind (gets_st kdata) (\<lambda>data. setupkvm_loop pd (kmap data))))"

definition kvmalloc :: "('a kvm_scheme, unit) kernel" where
  "kvmalloc =
     bind setupkvm (\<lambda>pd.
       andthen (modify (\<lambda>s. s\<lparr>kpgdir := pd\<rparr>)) (bind (gets_st kpgdir) switchkvm))"

definition inituvm :: "nat \<Rightarrow> nat \<Rightarrow> nat \<Rightarrow> ('a kmemory_scheme, unit) kernel" where
  "inituvm pd init n =
     (if n \<ge> PGSIZE then panic ''inituvm: more than a page''
      else bind kalloc (\<lambda>mem.
        andthen (kmemset mem 0 PGSIZE)
          (bind (mappages pd 0 PGSIZE (v2p mem) (PTE_W OR PTE_U)) (\<lambda>_. kmemmove mem init n))))"

text \<open>
  The sizes of a process never exceed \<^verbatim>\<open>KERNBASE\<close>, so the sum in the loop does not wrap.
  After a missing page table the code adds \<^verbatim>\<open>(NPTENTRIES - 1) * PGSIZE\<close> and then, in the
  loop header, \<^verbatim>\<open>PGSIZE\<close>.
\<close>

function deallocuvm_loop :: "nat \<Rightarrow> nat \<Rightarrow> nat \<Rightarrow> ('a kmemory_scheme, unit) kernel" where
  "deallocuvm_loop pd a oldsz =
     (if a < oldsz
      then bind (walkpgdir pd a False) (\<lambda>pte.
        if pte = 0 then deallocuvm_loop pd (a + (NPTENTRIES - 1) * PGSIZE + PGSIZE) oldsz
        else bind (get32 pte) (\<lambda>e.
          if e AND PTE_P \<noteq> 0
          then if PTE_ADDR e = 0 then panic ''kfree''
            else andthen (kfree (p2v (PTE_ADDR e)))
              (andthen (set32 pte 0) (deallocuvm_loop pd (a + PGSIZE) oldsz))
          else deallocuvm_loop pd (a + PGSIZE) oldsz))
      else ret ())"
  by pat_completeness auto
termination by (relation "measure (\<lambda>(pd, a, oldsz). oldsz - a)") auto

declare deallocuvm_loop.simps [simp del]

definition deallocuvm :: "nat \<Rightarrow> nat \<Rightarrow> nat \<Rightarrow> ('a kmemory_scheme, nat) kernel" where
  "deallocuvm pd oldsz newsz =
     (if newsz \<ge> oldsz then ret oldsz
      else andthen (deallocuvm_loop pd (PGROUNDUP newsz) oldsz) (ret newsz))"

function allocuvm_loop :: "nat \<Rightarrow> nat \<Rightarrow> nat \<Rightarrow> nat \<Rightarrow> ('a kmemory_scheme, nat) kernel" where
  "allocuvm_loop pd a oldsz newsz =
     (if a < newsz
      then bind kalloc (\<lambda>mem.
        if mem = 0 then bind (deallocuvm pd newsz oldsz) (\<lambda>_. ret 0)
        else andthen (kmemset mem 0 PGSIZE)
          (bind (mappages pd a PGSIZE (v2p mem) (PTE_W OR PTE_U)) (\<lambda>_.
             allocuvm_loop pd (a + PGSIZE) oldsz newsz)))
      else ret newsz)"
  by pat_completeness auto
termination by (relation "measure (\<lambda>(pd, a, oldsz, newsz). newsz - a)") auto

declare allocuvm_loop.simps [simp del]

definition allocuvm :: "nat \<Rightarrow> nat \<Rightarrow> nat \<Rightarrow> ('a kmemory_scheme, nat) kernel" where
  "allocuvm pd oldsz newsz =
     (if newsz \<ge> KERNBASE then ret 0
      else if newsz < oldsz then ret oldsz
      else allocuvm_loop pd (PGROUNDUP oldsz) oldsz newsz)"

fun freevm_loop :: "nat \<Rightarrow> nat list \<Rightarrow> ('a kmemory_scheme, unit) kernel" where
  "freevm_loop pd [] = ret ()"
| "freevm_loop pd (i # is) =
     bind (get32 (pd + 4 * i)) (\<lambda>e.
       andthen (if e AND PTE_P \<noteq> 0 then kfree (p2v (PTE_ADDR e)) else ret ()) (freevm_loop pd is))"

definition freevm :: "nat \<Rightarrow> ('a kmemory_scheme, unit) kernel" where
  "freevm pd =
     (if pd = 0 then panic ''freevm: no pgdir''
      else bind (deallocuvm pd KERNBASE 0) (\<lambda>_.
        andthen (freevm_loop pd [0..<NPDENTRIES]) (kfree pd)))"

definition clearpteu :: "nat \<Rightarrow> nat \<Rightarrow> ('a kmemory_scheme, unit) kernel" where
  "clearpteu pd uva =
     bind (walkpgdir pd uva False) (\<lambda>pte.
       if pte = 0 then panic ''clearpteu''
       else bind (get32 pte) (\<lambda>e. set32 pte (e AND NOT PTE_U)))"

function copyuvm_loop :: "nat \<Rightarrow> nat \<Rightarrow> nat \<Rightarrow> nat \<Rightarrow> ('a kmemory_scheme, nat) kernel" where
  "copyuvm_loop d pd i n =
     (if i < n
      then bind (walkpgdir pd i False) (\<lambda>pte.
        if pte = 0 then panic ''copyuvm: pte should exist''
        else bind (get32 pte) (\<lambda>e.
          if e AND PTE_P = 0 then panic ''copyuvm: page not present''
          else bind kalloc (\<lambda>mem.
            if mem = 0 then andthen (freevm d) (ret 0)
            else andthen (kmemmove mem (p2v (PTE_ADDR e)) PGSIZE)
              (bind (mappages d i PGSIZE (v2p mem) (PTE_W OR PTE_U)) (\<lambda>r.
                 if r < 0 then andthen (freevm d) (ret 0)
                 else copyuvm_loop d pd (i + PGSIZE) n)))))
      else ret d)"
  by pat_completeness auto
termination by (relation "measure (\<lambda>(d, pd, i, n). n - i)") auto

declare copyuvm_loop.simps [simp del]

definition copyuvm :: "nat \<Rightarrow> nat \<Rightarrow> ('a kvm_scheme, nat) kernel" where
  "copyuvm pd n = bind setupkvm (\<lambda>d. if d = 0 then ret 0 else copyuvm_loop d pd 0 n)"

text \<open>
  \<^verbatim>\<open>uva2ka\<close> reads the entry without testing the pointer; when \<^verbatim>\<open>walkpgdir\<close> returns 0 it reads
  address 0, about which \<open>kbytes\<close> says nothing.
\<close>

definition uva2ka :: "nat \<Rightarrow> nat \<Rightarrow> ('a kmemory_scheme, nat) kernel" where
  "uva2ka pd uva =
     bind (walkpgdir pd uva False) (\<lambda>pte. bind (get32 pte) (\<lambda>e.
       if e AND PTE_P = 0 then ret 0
       else if e AND PTE_U = 0 then ret 0
       else ret (p2v (PTE_ADDR e))))"

function copyout :: "nat \<Rightarrow> nat \<Rightarrow> nat \<Rightarrow> nat \<Rightarrow> ('a kmemory_scheme, int) kernel" where
  "copyout pd va p len =
     (if 0 < len
      then let va0 = PGROUNDDOWN va in
        bind (uva2ka pd va0) (\<lambda>pa0.
          if pa0 = 0 then ret (-1)
          else let n = min (PGSIZE - (va - va0)) len in
            andthen (kmemmove (pa0 + (va - va0)) p n)
              (copyout pd ((va0 + PGSIZE) mod 2 ^ 32) (p + n) (len - n)))
      else ret 0)"
  by pat_completeness auto
termination by (relation "measure (\<lambda>(pd, va, p, len). len)") (auto simp: PGROUNDDOWN_def minus_div_mult_eq_mod)

declare copyout.simps [simp del]

section \<open>Executing the primitives\<close>

lemma get32_run [simp]: "get32 a s = Ok (load32 (kbytes s) a) s"
  by (simp add: get32_def)

lemma set32_run [simp]: "set32 a w s = Ok () (s\<lparr>kbytes := store32 (kbytes s) a w\<rparr>)"
  by (simp add: set32_def)

lemma kmemset_run [simp]: "kmemset a c n s = Ok () (s\<lparr>kbytes := fill (kbytes s) a (ucast c) n\<rparr>)"
  by (simp add: kmemset_def memset_fill)

lemma kmemmove_run [simp]: "kmemmove d a n s = Ok () (s\<lparr>kbytes := move (kbytes s) d a n\<rparr>)"
  by (simp add: kmemmove_def memmove_move)

lemma load32_fill0: "a \<le> b \<Longrightarrow> b + 4 \<le> a + n \<Longrightarrow> load32 (fill m a 0 n) b = 0"
  by (simp add: load32_def fill_def)

section \<open>Page table entries\<close>

lemma and_1_bit: "(w :: u32) AND 1 \<noteq> 0 \<longleftrightarrow> bit w 0"
  by (simp add: and_one_eq bit_0 odd_iff_mod_2_eq_one)

lemma entry_present [simp]: "bit ((w :: u32) OR p OR 1) 0"
  by (simp add: bit_simps)

lemma entry_addr:
  assumes "pa mod PGSIZE = 0" "pa < 2 ^ 32" "(perm :: u32) AND NOT 0xFFF = 0"
  shows "PTE_ADDR (of_nat pa OR perm OR 1) = pa"
proof -
  obtain k where k: "pa = k * 2 ^ 12" using assms(1) by (auto elim!: dvdE simp: mod_eq_0_iff_dvd)
  have m: "(0xFFF :: u32) = mask 12" by (simp add: mask_eq_exp_minus_1)
  have p: "(of_nat pa :: u32) = push_bit 12 (of_nat k)" by (simp add: k push_bit_eq_mult)
  have perm: "\<not> bit perm i" if "12 \<le> i" "i < 32" for i
    using arg_cong [OF assms(3), of "\<lambda>w. bit w i"] that by (simp add: m bit_simps)
  have "(of_nat pa OR perm OR 1) AND NOT 0xFFF = (of_nat pa :: u32)"
    unfolding m p using perm by (intro bit_word_eqI) (auto simp: bit_simps)
  then show ?thesis using assms(2) by (simp add: PTE_ADDR_def unat_of_nat)
qed

lemma PTE_ADDR_mod [simp]: "PTE_ADDR e mod PGSIZE = 0"
proof -
  have m: "(0xFFF :: u32) = mask 12" by (simp add: mask_eq_exp_minus_1)
  have "take_bit 12 (e AND NOT (mask 12)) = 0" by (rule bit_word_eqI) (auto simp: bit_simps)
  then have "unat (take_bit 12 (e AND NOT (mask 12))) = 0" by simp
  then show ?thesis unfolding PTE_ADDR_def m unsigned_take_bit_eq by (simp add: take_bit_eq_mod)
qed

lemma page_ok_p2v [simp]:
  assumes "page_ok e p" "KERNBASE < e"
  shows "p2v (v2p p) = p" "v2p p mod PGSIZE = 0" "v2p p < 2 ^ 32" "v2p p + KERNBASE = p"
proof -
  have p: "KERNBASE \<le> p" "p < KERNBASE + PHYSTOP" "p mod PGSIZE = 0" using assms by (auto simp: page_ok_def)
  then have v: "v2p p = p - KERNBASE" by (simp add: v2p_def mod_if)
  then show "p2v (v2p p) = p" using p by (simp add: p2v_def)
  show "v2p p mod PGSIZE = 0" using p(1,3) unfolding v
    by (auto elim!: dvdE simp: mod_eq_0_iff_dvd intro!: dvd_diff_nat)
  show "v2p p < 2 ^ 32" "v2p p + KERNBASE = p" using p v by simp_all
qed

lemma PDX_less [simp]: "PDX va < 1024" and PTX_less [simp]: "PTX va < 1024"
  by (simp_all add: PDX_def PTX_def)

lemma same_page_iff:
  assumes "va < 2 ^ 32" "wa < 2 ^ 32"
  shows "PDX va = PDX wa \<and> PTX va = PTX wa \<longleftrightarrow> va div PGSIZE = wa div PGSIZE"
proof -
  have d: "x div 2 ^ 22 = x div PGSIZE div 1024" for x :: nat by (simp add: div_mult2_eq [symmetric])
  have l: "va div PGSIZE div 1024 < 1024" "wa div PGSIZE div 1024 < 1024" using assms by auto
  have "PDX va = va div PGSIZE div 1024" "PDX wa = wa div PGSIZE div 1024"
    unfolding PDX_def d using l by simp_all
  moreover have "PTX va = va div PGSIZE mod 1024" "PTX wa = wa div PGSIZE mod 1024"
    by (simp_all add: PTX_def)
  moreover have "x = y \<longleftrightarrow> x div 1024 = y div 1024 \<and> x mod 1024 = y mod 1024" for x y :: nat
    by (metis div_mult_mod_eq)
  ultimately show ?thesis by metis
qed

lemma and_1_bit' [simp]: "(w :: u32) AND 1 = 0 \<longleftrightarrow> \<not> bit w 0"
  using and_1_bit by blast

section \<open>The structure of an address space\<close>

definition pde_at :: "mem \<Rightarrow> nat \<Rightarrow> nat \<Rightarrow> u32" where
  "pde_at m pd d = load32 m (pd + 4 * d)"

definition pgtab_at :: "mem \<Rightarrow> nat \<Rightarrow> nat \<Rightarrow> nat" where
  "pgtab_at m pd d = p2v (PTE_ADDR (pde_at m pd d))"

text \<open>The entry the processor finds for \<open>va\<close> when it walks the tables of \<open>pd\<close>.\<close>

definition lookup :: "mem \<Rightarrow> nat \<Rightarrow> nat \<Rightarrow> u32 option" where
  "lookup m pd va =
     (if bit (pde_at m pd (PDX va)) 0
      then let e = load32 m (pgtab_at m pd (PDX va) + 4 * PTX va) in if bit e 0 then Some e else None
      else None)"

text \<open>The pages that hold the directory and the tables; each table belongs to one entry.\<close>

definition vm_pages :: "mem \<Rightarrow> nat \<Rightarrow> nat set" where
  "vm_pages m pd = insert pd {pgtab_at m pd d |d. d < 1024 \<and> bit (pde_at m pd d) 0}"

definition vm_ok :: "nat \<Rightarrow> mem \<Rightarrow> nat \<Rightarrow> bool" where
  "vm_ok e m pd \<longleftrightarrow> page_ok e pd \<and> KERNBASE < e \<and>
     (\<forall>d < 1024. bit (pde_at m pd d) 0 \<longrightarrow>
        page_ok e (pgtab_at m pd d) \<and> pgtab_at m pd d \<noteq> pd \<and>
        (\<forall>d' < 1024. bit (pde_at m pd d') 0 \<and> pgtab_at m pd d' = pgtab_at m pd d \<longrightarrow> d' = d))"

lemma vm_pages_ok: "vm_ok e m pd \<Longrightarrow> p \<in> vm_pages m pd \<Longrightarrow> page_ok e p"
  by (auto simp: vm_ok_def vm_pages_def)

lemma pgtab_in: "d < 1024 \<Longrightarrow> bit (pde_at m pd d) 0 \<Longrightarrow> pgtab_at m pd d \<in> vm_pages m pd"
  by (auto simp: vm_pages_def)

lemma load32_page:
  assumes "\<forall>i < PGSIZE. m' (p + i) = m (p + i)" "d < 1024"
  shows "load32 m' (p + 4 * d) = load32 m (p + 4 * d)"
proof (rule load32_cong)
  fix i :: nat assume "i < 4"
  then have "4 * d + i < PGSIZE" using assms(2) by simp
  with assms(1) have "m' (p + (4 * d + i)) = m (p + (4 * d + i))" by blast
  then show "m' (p + 4 * d + i) = m (p + 4 * d + i)" by (simp add: add.assoc)
qed

text \<open>Memory that agrees on these pages describes the same address space.\<close>

lemma vm_frame:
  assumes "\<forall>p \<in> vm_pages m pd. \<forall>i < PGSIZE. m' (p + i) = m (p + i)"
  shows "d < 1024 \<Longrightarrow> pde_at m' pd d = pde_at m pd d"
    "d < 1024 \<Longrightarrow> pgtab_at m' pd d = pgtab_at m pd d"
    "vm_pages m' pd = vm_pages m pd" "vm_ok e m' pd = vm_ok e m pd" "lookup m' pd va = lookup m pd va"
proof -
  have 1: "pde_at m' pd d = pde_at m pd d" if "d < 1024" for d
    unfolding pde_at_def by (rule load32_page [OF _ that]) (use assms in \<open>simp add: vm_pages_def\<close>)
  then have 2: "pgtab_at m' pd d = pgtab_at m pd d" if "d < 1024" for d
    using that by (simp add: pgtab_at_def)
  show "d < 1024 \<Longrightarrow> pde_at m' pd d = pde_at m pd d" "d < 1024 \<Longrightarrow> pgtab_at m' pd d = pgtab_at m pd d"
    using 1 2 by blast+
  show "vm_pages m' pd = vm_pages m pd" unfolding vm_pages_def using 1 2 by (metis (no_types, lifting))
  show "vm_ok e m' pd = vm_ok e m pd" using 1 2 by (simp add: vm_ok_def)
  show "lookup m' pd va = lookup m pd va"
  proof (cases "bit (pde_at m pd (PDX va)) 0")
    case True
    then have "load32 m' (pgtab_at m pd (PDX va) + 4 * PTX va) = load32 m (pgtab_at m pd (PDX va) + 4 * PTX va)"
      using assms pgtab_in [OF PDX_less] by (intro load32_page) auto
    then show ?thesis using 1 2 True by (simp add: lookup_def Let_def)
  qed (simp add: lookup_def 1)
qed

lemma page_disjoint:
  assumes "page_ok e p" "page_ok e' q" "p \<noteq> q" "i < PGSIZE" "j < PGSIZE"
  shows "p + i \<noteq> q + j"
  using assms pages_apart [of p q] by (auto simp: page_ok_def)

text \<open>Entering an empty table in the directory.\<close>

lemma vm_add_table:
  assumes ok: "vm_ok e m pd" and p: "page_ok e p" "p \<notin> vm_pages m pd" and d: "d < 1024" "\<not> bit (pde_at m pd d) 0"
    and m': "m' = store32 (fill m p 0 PGSIZE) (pd + 4 * d) (of_nat (v2p p) OR perm OR 1)" and perm: "perm AND NOT 0xFFF = 0"
  shows "bit (pde_at m' pd d) 0" "pgtab_at m' pd d = p" "vm_ok e m' pd"
    "vm_pages m' pd = insert p (vm_pages m pd)" "lookup m' pd va = lookup m pd va"
proof -
  have e: "KERNBASE < e" "page_ok e pd" and ppd: "p \<noteq> pd" using ok p by (auto simp: vm_ok_def vm_pages_def)
  have eq: "m' b = m b" if "\<forall>i < PGSIZE. b \<noteq> p + i" "\<forall>i < PGSIZE. b \<noteq> pd + i" for b
  proof -
    have "b < p \<or> p + PGSIZE \<le> b" using that(1) by (metis add_diff_inverse_nat nat_add_left_cancel_less not_le not_less)
    moreover have "b < pd + 4 * d \<or> pd + 4 * d + 4 \<le> b"
    proof (rule ccontr)
      assume "\<not> ?thesis"
      then have "b = pd + (b - pd)" "b - pd < PGSIZE" using d by auto
      then show False using that(2) by blast
    qed
    ultimately show ?thesis unfolding m' by (simp add: store32_out fill_out)
  qed
  have fp: "fill m p 0 PGSIZE (pd + i) = m (pd + i)" if "i < PGSIZE" for i
    using pages_apart [of p pd] p(1) e(2) ppd that by (intro fill_out) (auto simp: page_ok_def)
  have pde: "pde_at m' pd d' = (if d' = d then of_nat (v2p p) OR perm OR 1 else pde_at m pd d')" if "d' < 1024" for d'
  proof (cases "d' = d")
    case False
    then have "pde_at m' pd d' = load32 (fill m p 0 PGSIZE) (pd + 4 * d')"
      unfolding pde_at_def m' by (intro load_store32_other) auto
    also have "\<dots> = pde_at m pd d'" unfolding pde_at_def by (rule load32_page [OF _ that]) (use fp in simp)
    finally show ?thesis using False by simp
  qed (simp add: pde_at_def m')
  show 1: "bit (pde_at m' pd d) 0" using pde [OF d(1)] by simp
  show 2: "pgtab_at m' pd d = p"
    unfolding pgtab_at_def pde [OF d(1)]
    using entry_addr [OF page_ok_p2v(2,3) [OF p(1) e(1)] perm] page_ok_p2v(1) [OF p(1) e(1)] by simp
  have tab: "pgtab_at m' pd d' = (if d' = d then p else pgtab_at m pd d')" if "d' < 1024" for d'
    using 2 pde [OF that] by (cases "d' = d") (simp_all add: pgtab_at_def)
  show pages: "vm_pages m' pd = insert p (vm_pages m pd)"
  proof
    show "vm_pages m' pd \<subseteq> insert p (vm_pages m pd)"
      unfolding vm_pages_def using tab pde by (auto split: if_splits)
    have "pgtab_at m pd d' \<in> vm_pages m' pd" if "d' < 1024" "bit (pde_at m pd d') 0" for d'
    proof -
      have "d' \<noteq> d" using that d by auto
      then show ?thesis using tab [OF that(1)] pde [OF that(1)] that pgtab_in [of d' m' pd] by simp
    qed
    moreover have "p \<in> vm_pages m' pd" using pgtab_in [OF d(1) 1] 2 by simp
    ultimately show "insert p (vm_pages m pd) \<subseteq> vm_pages m' pd" unfolding vm_pages_def by auto
  qed
  have np: "p \<noteq> pgtab_at m pd d'" if "d' < 1024" "bit (pde_at m pd d') 0" for d'
    using pgtab_in [OF that] p(2) by auto
  have old: "page_ok e (pgtab_at m pd a)" "pgtab_at m pd a \<noteq> pd"
      "b < 1024 \<Longrightarrow> bit (pde_at m pd b) 0 \<Longrightarrow> pgtab_at m pd b = pgtab_at m pd a \<Longrightarrow> b = a"
    if "a < 1024" "bit (pde_at m pd a) 0" for a b
    using ok that unfolding vm_ok_def by blast+
  show "vm_ok e m' pd" unfolding vm_ok_def
  proof (intro conjI allI impI)
    fix a assume a: "a < 1024" "bit (pde_at m' pd a) 0"
    have al: "a \<noteq> d \<Longrightarrow> bit (pde_at m pd a) 0" using a pde by simp
    show "page_ok e (pgtab_at m' pd a)" using tab [OF a(1)] p(1) old(1) [OF a(1) al] by simp
    show "pgtab_at m' pd a \<noteq> pd" using tab [OF a(1)] ppd old(2) [OF a(1) al] by simp
    fix b assume b: "b < 1024" "bit (pde_at m' pd b) 0 \<and> pgtab_at m' pd b = pgtab_at m' pd a"
    have bl: "b \<noteq> d \<Longrightarrow> bit (pde_at m pd b) 0" using b pde by simp
    have eq': "(if b = d then p else pgtab_at m pd b) = (if a = d then p else pgtab_at m pd a)"
      using b(2) tab [OF a(1)] tab [OF b(1)] by simp
    show "b = a"
    proof (cases "a = d \<or> b = d")
      case True
      then show ?thesis using eq' np [OF a(1) al] np [OF b(1) bl] by (cases "a = d"; cases "b = d") auto
    next
      case False
      then show ?thesis using eq' old(3) [OF a(1) al b(1) bl] by simp
    qed
  qed (use e in auto)
  show "lookup m' pd va = lookup m pd va"
  proof (cases "PDX va = d")
    case True
    have t: "4 * PTX va + 4 \<le> PGSIZE" using PTX_less [of va] by linarith
    have "p + PGSIZE \<le> pd \<or> pd + PGSIZE \<le> p" using pages_apart [of p pd] p(1) e(2) ppd by (auto simp: page_ok_def)
    then have "p + 4 * PTX va + 4 \<le> pd + 4 * d \<or> pd + 4 * d + 4 \<le> p + 4 * PTX va" using t d(1) by linarith
    then have "load32 m' (p + 4 * PTX va) = load32 (fill m p 0 PGSIZE) (p + 4 * PTX va)"
      unfolding m' by (rule load_store32_other)
    also have "\<dots> = 0" by (rule load32_fill0) (use t in auto)
    finally show ?thesis using 1 2 d True by (simp add: lookup_def)
  next
    case False
    show ?thesis
    proof (cases "bit (pde_at m pd (PDX va)) 0")
      case T: True
      have o: "page_ok e (pgtab_at m pd (PDX va))" "pgtab_at m pd (PDX va) \<noteq> pd" using old [OF PDX_less T] by auto
      have "load32 m' (pgtab_at m pd (PDX va) + 4 * PTX va) = load32 m (pgtab_at m pd (PDX va) + 4 * PTX va)"
        using page_disjoint [OF o(1) p(1) np [OF PDX_less T, symmetric]] page_disjoint [OF o(1) e(2) o(2)]
        by (intro load32_page) (auto intro!: eq)
      then show ?thesis using False T pde [of "PDX va"] tab [of "PDX va"] by (simp add: lookup_def)
    qed (use False pde [of "PDX va"] in \<open>simp add: lookup_def\<close>)
  qed
qed

text \<open>Writing an entry of a table.\<close>

lemma vm_set_entry:
  assumes ok: "vm_ok e m pd" and d: "d < 1024" "bit (pde_at m pd d) 0" and t: "t < 1024"
    and m': "m' = store32 m (pgtab_at m pd d + 4 * t) w"
  shows "vm_ok e m' pd" "vm_pages m' pd = vm_pages m pd"
    "i < 1024 \<Longrightarrow> pde_at m' pd i = pde_at m pd i"
    "lookup m' pd va = (if PDX va = d \<and> PTX va = t then if bit w 0 then Some w else None else lookup m pd va)"
proof -
  let ?q = "pgtab_at m pd d"
  have q: "page_ok e ?q" "?q \<noteq> pd" "page_ok e pd" using ok d by (auto simp: vm_ok_def)
  have eq: "m' b = m b" if "\<forall>i < PGSIZE. b \<noteq> ?q + i" for b
  proof -
    have "b < ?q + 4 * t \<or> ?q + 4 * t + 4 \<le> b"
    proof (rule ccontr)
      assume "\<not> ?thesis"
      then have "b = ?q + (b - ?q)" "b - ?q < PGSIZE" using t by auto
      then show False using that by blast
    qed
    then show ?thesis unfolding m' by (rule store32_out)
  qed
  have other: "load32 m' (r + 4 * i) = load32 m (r + 4 * i)" if "page_ok e r" "r \<noteq> ?q" "i < 1024" for r i
    using page_disjoint [OF that(1) q(1) that(2)] that(3) by (intro load32_page) (auto intro!: eq)
  have pde: "pde_at m' pd i = pde_at m pd i" if "i < 1024" for i
    unfolding pde_at_def using other [OF q(3) q(2) [symmetric] that] .
  then have tab: "pgtab_at m' pd i = pgtab_at m pd i" if "i < 1024" for i using that by (simp add: pgtab_at_def)
  show "i < 1024 \<Longrightarrow> pde_at m' pd i = pde_at m pd i" using pde by blast
  show "vm_ok e m' pd" using ok pde tab by (simp add: vm_ok_def)
  show "vm_pages m' pd = vm_pages m pd" unfolding vm_pages_def using pde tab by (metis (no_types, lifting))
  have same: "load32 m' (?q + 4 * PTX va) = (if PTX va = t then w else load32 m (?q + 4 * PTX va))"
  proof (cases "PTX va = t")
    case False
    then have "?q + 4 * PTX va + 4 \<le> ?q + 4 * t \<or> ?q + 4 * t + 4 \<le> ?q + 4 * PTX va" by linarith
    then show ?thesis using False unfolding m' by (simp add: load_store32_other)
  qed (simp add: m')
  have diff: "load32 m' (pgtab_at m pd (PDX va) + 4 * PTX va) = load32 m (pgtab_at m pd (PDX va) + 4 * PTX va)"
    if "PDX va \<noteq> d" "bit (pde_at m pd (PDX va)) 0"
    using ok that d by (intro other) (auto simp: vm_ok_def)
  show "lookup m' pd va = (if PDX va = d \<and> PTX va = t then if bit w 0 then Some w else None else lookup m pd va)"
  proof (cases "PDX va = d")
    case True
    then show ?thesis using same d pde [OF d(1)] tab [OF d(1)] by (simp add: lookup_def)
  next
    case False
    then show ?thesis using diff pde [of "PDX va"] tab [of "PDX va"]
      by (cases "bit (pde_at m pd (PDX va)) 0") (simp_all add: lookup_def)
  qed
qed

section \<open>Address spaces and the free list\<close>

text \<open>
  The invariant of an address space in the kernel: its tables are pages of memory that
  are not on the free list.
\<close>

definition vm_inv :: "'a kmemory_scheme \<Rightarrow> nat \<Rightarrow> nat list \<Rightarrow> bool" where
  "vm_inv s pd ps \<longleftrightarrow> free_pages s ps \<and> lock_free Lkmem s \<and> vm_ok (kend s) (kbytes s) pd \<and>
     vm_pages (kbytes s) pd \<inter> set ps = {}"

text \<open>What a routine that only uses memory leaves alone.\<close>

definition mem_only :: "'a kmemory_scheme \<Rightarrow> 'a kmemory_scheme \<Rightarrow> bool" where
  "mem_only s s' \<longleftrightarrow> (\<exists>m f. s' = s\<lparr>kbytes := m, freelist := f\<rparr>)"

lemma mem_only_intros [intro, simp]:
  "mem_only s s" "mem_only s (s\<lparr>kbytes := m\<rparr>)" "mem_only s (s\<lparr>freelist := f\<rparr>)" "mem_only s (s\<lparr>kbytes := m, freelist := f\<rparr>)"
proof -
  have "s = s\<lparr>kbytes := kbytes s, freelist := freelist s\<rparr>" "s\<lparr>kbytes := m\<rparr> = s\<lparr>kbytes := m, freelist := freelist s\<rparr>"
    "s\<lparr>freelist := f\<rparr> = s\<lparr>kbytes := kbytes s, freelist := f\<rparr>" by simp_all
  then show "mem_only s s" "mem_only s (s\<lparr>kbytes := m\<rparr>)" "mem_only s (s\<lparr>freelist := f\<rparr>)" "mem_only s (s\<lparr>kbytes := m, freelist := f\<rparr>)"
    unfolding mem_only_def by metis+
qed

lemma mem_only_trans [trans]: "mem_only s t \<Longrightarrow> mem_only t u \<Longrightarrow> mem_only s u"
  unfolding mem_only_def by (elim exE, hypsubst, simp) (intro exI, rule refl)

lemma mem_only_fields:
  "mem_only s t \<Longrightarrow> lk t = lk s \<and> procs t = procs s \<and> cur t = cur s \<and> kend t = kend s \<and> use_lock t = use_lock s"
  by (auto simp: mem_only_def)

lemma free_pages_frame:
  assumes "free_pages s ps" "\<forall>p \<in> set ps. \<forall>i < PGSIZE. m (p + i) = kbytes s (p + i)"
  shows "free_pages (s\<lparr>kbytes := m\<rparr>) ps"
proof -
  have "fchain m p ps = fchain (kbytes s) p ps" for p by (rule fchain_cong) (use assms(2) in simp)
  then show ?thesis using assms(1) by (simp add: free_pages_def)
qed

lemma walkpgdir_present:
  "bit (pde_at (kbytes s) pd (PDX va)) 0 \<Longrightarrow>
     walkpgdir pd va alloc s = Ok (pgtab_at (kbytes s) pd (PDX va) + 4 * PTX va) s"
  by (simp add: walkpgdir_def pde_at_def pgtab_at_def)

lemma walkpgdir_absent:
  "\<not> bit (pde_at (kbytes s) pd (PDX va)) 0 \<Longrightarrow> walkpgdir pd va False s = Ok 0 s"
  by (simp add: walkpgdir_def pde_at_def)

lemma table_entry_bytes:
  "a + 4 * d \<le> b \<Longrightarrow> b < a + 4 * d + 4 \<Longrightarrow> d < 1024 \<Longrightarrow> \<exists>i < PGSIZE. b = a + i"
  by (intro exI [of _ "b - a"]) auto

lemma walkpgdir_alloc:
  assumes inv: "vm_inv s pd ps"
  shows "(\<exists>s'. walkpgdir pd va True s = Ok 0 s' \<and> s' = s \<and> ps = []) \<or>
     (\<exists>s' ps' zs. walkpgdir pd va True s = Ok (pgtab_at (kbytes s') pd (PDX va) + 4 * PTX va) s' \<and>
        bit (pde_at (kbytes s') pd (PDX va)) 0 \<and> vm_inv s' pd ps' \<and> ps = zs @ ps' \<and> length zs \<le> 1 \<and> mem_only s s' \<and>
        vm_pages (kbytes s') pd = vm_pages (kbytes s) pd \<union> set zs \<and>
        (\<forall>wa. lookup (kbytes s') pd wa = lookup (kbytes s) pd wa) \<and>
        (\<forall>b. (\<forall>i < PGSIZE. \<forall>p \<in> insert pd (set zs). b \<noteq> p + i) \<longrightarrow> kbytes s' b = kbytes s b))"
proof (cases "bit (pde_at (kbytes s) pd (PDX va)) 0")
  case True
  then show ?thesis using inv
    by (intro disjI2 exI [of _ s] exI [of _ ps] exI [of _ "[]"]) (simp add: walkpgdir_present)
next
  case False
  have fp: "free_pages s ps" and lf: "lock_free Lkmem s" and ok: "vm_ok (kend s) (kbytes s) pd"
    and dj: "vm_pages (kbytes s) pd \<inter> set ps = {}" using inv by (auto simp: vm_inv_def)
  show ?thesis
  proof (cases ps)
    case Nil
    then show ?thesis using False free_pages_none [of s] fp lf
      by (intro disjI1 exI [of _ s]) (simp add: walkpgdir_def pde_at_def)
  next
    case (Cons p qs)
    note k = free_pages_kalloc [OF fp [unfolded Cons] lf]
    let ?f = "unat (load32 (kbytes s) p)"
    let ?m = "store32 (fill (kbytes s) p 0 PGSIZE) (pd + 4 * PDX va) (of_nat (v2p p) OR (2 OR 4) OR 1)"
    let ?s = "s\<lparr>kbytes := ?m, freelist := ?f\<rparr>"
    have pn: "p \<notin> vm_pages (kbytes s) pd" using dj Cons by auto
    note a = vm_add_table [OF ok k(3) pn PDX_less False refl, of "2 OR 4", simplified]
    have p0: "p \<noteq> 0" using k(3) fp by (auto simp: page_ok_def free_pages_def)
    have w: "walkpgdir pd va True s = Ok (p + 4 * PTX va) ?s"
      using False k(1) p0 by (simp add: walkpgdir_def pde_at_def or.assoc or.commute or.left_commute)
    have out: "?m b = kbytes s b" if "\<forall>i < PGSIZE. \<forall>q \<in> {pd, p}. b \<noteq> q + i" for b
    proof -
      have "b < p \<or> p + PGSIZE \<le> b" using that by (metis insertCI le_add_diff_inverse nat_add_left_cancel_less not_le)
      moreover have "b < pd + 4 * PDX va \<or> pd + 4 * PDX va + 4 \<le> b"
        using that table_entry_bytes [of pd "PDX va" b] by (metis PDX_less insertCI not_le)
      ultimately show ?thesis by (simp add: store32_out fill_out)
    qed
    have pk: "page_ok (kend s) q" "q \<noteq> pd" "q \<noteq> p" if "q \<in> set qs" for q
      using fp that dj Cons by (auto simp: free_pages_def vm_pages_def)
    have pdk: "page_ok (kend s) pd" using ok by (simp add: vm_ok_def)
    have "free_pages ((s\<lparr>freelist := ?f\<rparr>)\<lparr>kbytes := ?m\<rparr>) qs"
    proof (rule free_pages_frame [OF k(2)], intro ballI allI impI)
      fix q i assume q: "q \<in> set qs" and i: "i < PGSIZE"
      have "?m (q + i) = kbytes s (q + i)"
        using page_disjoint [OF pk(1) [OF q] pdk pk(2) [OF q] i] page_disjoint [OF pk(1) [OF q] k(3) pk(3) [OF q] i]
        by (intro out) auto
      then show "?m (q + i) = kbytes (s\<lparr>freelist := ?f\<rparr>) (q + i)" by simp
    qed
    then have "free_pages ?s qs" by (simp add: free_pages_def)
    then have "vm_inv ?s pd qs" using a lf dj Cons fp by (auto simp: vm_inv_def lock_free_def free_pages_def)
    then show ?thesis using w a out Cons
      by (intro disjI2 exI [of _ ?s] exI [of _ qs] exI [of _ "[p]"]) auto
  qed
qed

text \<open>
  \<open>vm_grow n s pd ps s' ps'\<close>: at most \<open>n\<close> pages were taken off the free list for tables of
  \<open>pd\<close>, and no byte outside its tables changed.
\<close>

definition vm_grow :: "nat \<Rightarrow> 'a kmemory_scheme \<Rightarrow> nat \<Rightarrow> nat list \<Rightarrow> 'a kmemory_scheme \<Rightarrow> nat list \<Rightarrow> bool" where
  "vm_grow n s pd ps s' ps' \<longleftrightarrow> vm_inv s' pd ps' \<and> mem_only s s' \<and>
     (\<exists>zs. ps = zs @ ps' \<and> length zs \<le> n \<and> vm_pages (kbytes s') pd = vm_pages (kbytes s) pd \<union> set zs) \<and>
     (\<forall>b. (\<forall>p \<in> vm_pages (kbytes s') pd. \<forall>i < PGSIZE. b \<noteq> p + i) \<longrightarrow> kbytes s' b = kbytes s b)"

lemma vm_grow_trans:
  assumes "vm_grow n s pd ps t qs" "vm_grow k t pd qs u rs"
  shows "vm_grow (n + k) s pd ps u rs"
proof -
  obtain zs where z: "ps = zs @ qs" "length zs \<le> n" "vm_pages (kbytes t) pd = vm_pages (kbytes s) pd \<union> set zs"
    using assms(1) by (auto simp: vm_grow_def)
  obtain ys where y: "qs = ys @ rs" "length ys \<le> k" "vm_pages (kbytes u) pd = vm_pages (kbytes t) pd \<union> set ys"
    using assms(2) by (auto simp: vm_grow_def)
  have "kbytes u b = kbytes s b" if "\<forall>p \<in> vm_pages (kbytes u) pd. \<forall>i < PGSIZE. b \<noteq> p + i" for b
    using assms that y(3) unfolding vm_grow_def by (metis UnI1)
  moreover have "mem_only s u" using assms mem_only_trans unfolding vm_grow_def by blast
  moreover have "\<exists>zs. ps = zs @ rs \<and> length zs \<le> n + k \<and> vm_pages (kbytes u) pd = vm_pages (kbytes s) pd \<union> set zs"
    by (rule exI [of _ "zs @ ys"]) (use z y in auto)
  moreover have "vm_inv u pd rs" using assms(2) by (simp add: vm_grow_def)
  ultimately show ?thesis unfolding vm_grow_def by blast
qed

lemma vm_grow_mono: "vm_grow n s pd ps s' ps' \<Longrightarrow> n \<le> k \<Longrightarrow> vm_grow k s pd ps s' ps'"
  unfolding vm_grow_def by (elim conjE exE) (intro conjI exI; simp)

lemma vm_grow_refl: "vm_inv s pd ps \<Longrightarrow> vm_grow 0 s pd ps s ps"
  by (simp add: vm_grow_def)

lemma walkpgdir_grow:
  assumes "vm_inv s pd ps"
  obtains "walkpgdir pd va True s = Ok 0 s" "ps = []"
  | s' ps' where "walkpgdir pd va True s = Ok (pgtab_at (kbytes s') pd (PDX va) + 4 * PTX va) s'"
      "bit (pde_at (kbytes s') pd (PDX va)) 0" "vm_grow 1 s pd ps s' ps'"
      "\<forall>wa. lookup (kbytes s') pd wa = lookup (kbytes s) pd wa"
  using walkpgdir_alloc [OF assms, of va]
proof (elim disjE exE conjE)
  fix s' ps' zs
  assume w: "walkpgdir pd va True s = Ok (pgtab_at (kbytes s') pd (PDX va) + 4 * PTX va) s'"
    "bit (pde_at (kbytes s') pd (PDX va)) 0" "vm_inv s' pd ps'" "ps = zs @ ps'" "length zs \<le> 1" "mem_only s s'"
    "vm_pages (kbytes s') pd = vm_pages (kbytes s) pd \<union> set zs"
    "\<forall>wa. lookup (kbytes s') pd wa = lookup (kbytes s) pd wa"
    "\<forall>b. (\<forall>i < PGSIZE. \<forall>p \<in> insert pd (set zs). b \<noteq> p + i) \<longrightarrow> kbytes s' b = kbytes s b"
  have "insert pd (set zs) \<subseteq> vm_pages (kbytes s') pd" using w(7) by (auto simp: vm_pages_def)
  then have "\<forall>b. (\<forall>p \<in> vm_pages (kbytes s') pd. \<forall>i < PGSIZE. b \<noteq> p + i) \<longrightarrow> kbytes s' b = kbytes s b"
    using w(9) by (meson subsetD)
  moreover have "\<exists>zs. ps = zs @ ps' \<and> length zs \<le> 1 \<and> vm_pages (kbytes s') pd = vm_pages (kbytes s) pd \<union> set zs"
    using w(4,5,7) by (intro exI [of _ zs]) simp
  ultimately have "vm_grow 1 s pd ps s' ps'" unfolding vm_grow_def using w(3,6) by blast
  then show thesis using that(2) w(1,2,8) by blast
qed (use that(1) in auto)

lemma vm_inv_set_entry:
  assumes inv: "vm_inv s pd ps" and d: "d < 1024" "bit (pde_at (kbytes s) pd d) 0" and t: "t < 1024"
    and s': "s' = s\<lparr>kbytes := store32 (kbytes s) (pgtab_at (kbytes s) pd d + 4 * t) w\<rparr>"
  shows "vm_grow 0 s pd ps s' ps"
    "lookup (kbytes s') pd va = (if PDX va = d \<and> PTX va = t then if bit w 0 then Some w else None else lookup (kbytes s) pd va)"
proof -
  let ?q = "pgtab_at (kbytes s) pd d"
  have fp: "free_pages s ps" and lf: "lock_free Lkmem s" and ok: "vm_ok (kend s) (kbytes s) pd"
    and dj: "vm_pages (kbytes s) pd \<inter> set ps = {}" using inv by (auto simp: vm_inv_def)
  note a = vm_set_entry [OF ok d t refl, where w = w]
  have q: "page_ok (kend s) ?q" "?q \<in> vm_pages (kbytes s) pd" using pgtab_in [OF d] vm_pages_ok [OF ok] by auto
  have out: "kbytes s' b = kbytes s b" if "\<forall>i < PGSIZE. b \<noteq> ?q + i" for b
  proof -
    have "b < ?q + 4 * t \<or> ?q + 4 * t + 4 \<le> b"
      using that table_entry_bytes [of ?q t b] t by (metis not_le)
    then show ?thesis by (simp add: s' store32_out)
  qed
  have pk: "page_ok (kend s) p" "p \<noteq> ?q" if "p \<in> set ps" for p using fp that dj q(2) by (auto simp: free_pages_def)
  have "free_pages s' ps" unfolding s'
  proof (rule free_pages_frame [OF fp], intro ballI allI impI)
    fix p i assume p: "p \<in> set ps" and i: "i < PGSIZE"
    show "store32 (kbytes s) (?q + 4 * t) w (p + i) = kbytes s (p + i)"
      using out [of "p + i"] page_disjoint [OF pk(1) [OF p] q(1) pk(2) [OF p] i] s' by simp
  qed
  then have "vm_inv s' pd ps" using a dj lf by (simp add: vm_inv_def s' lock_free_def)
  then show "vm_grow 0 s pd ps s' ps" unfolding vm_grow_def using out a(2) q(2) by (simp add: s')
  show "lookup (kbytes s') pd va = (if PDX va = d \<and> PTX va = t then if bit w 0 then Some w else None else lookup (kbytes s) pd va)"
    using a(4) by (simp add: s')
qed

section \<open>Mapping pages\<close>

definition entry :: "nat \<Rightarrow> u32 \<Rightarrow> u32" where
  "entry pa perm = of_nat pa OR perm OR PTE_P"

lemma entry_present' [simp]: "bit (entry pa perm) 0"
  by (simp add: entry_def)

text \<open>The address space after \<open>k\<close> pages from \<open>a\<close> on have been mapped to \<open>pa\<close>, \<open>pa + PGSIZE\<close>, ...\<close>

definition mapped :: "nat \<Rightarrow> nat \<Rightarrow> nat \<Rightarrow> u32 \<Rightarrow> (nat \<Rightarrow> u32 option) \<Rightarrow> nat \<Rightarrow> u32 option" where
  "mapped k a pa perm f va =
     (if a \<le> va \<and> va < a + k * PGSIZE then Some (entry (pa + (va - a) div PGSIZE * PGSIZE) perm) else f va)"

lemma mapped_0 [simp]: "mapped 0 a pa perm f va = f va"
  by (auto simp: mapped_def)

lemma mapped_1: "mapped 1 a pa perm f va = (if a \<le> va \<and> va < a + PGSIZE then Some (entry pa perm) else f va)"
proof -
  have "a \<le> va \<Longrightarrow> va < a + PGSIZE \<Longrightarrow> (va - a) div PGSIZE = 0" by (intro div_less) linarith
  then show ?thesis by (auto simp: mapped_def)
qed

lemma same_page_aligned:
  assumes "a mod PGSIZE = 0" "a < 2 ^ 32" "va < 2 ^ 32"
  shows "PDX va = PDX a \<and> PTX va = PTX a \<longleftrightarrow> a \<le> va \<and> va < a + PGSIZE"
proof -
  obtain k where k: "a = k * PGSIZE" using assms(1) by (auto elim!: dvdE simp: mod_eq_0_iff_dvd)
  have "va div PGSIZE = k \<longleftrightarrow> k * PGSIZE \<le> va \<and> va < k * PGSIZE + PGSIZE" by linarith
  moreover have "a div PGSIZE = k" by (simp add: k)
  ultimately have "va div PGSIZE = a div PGSIZE \<longleftrightarrow> k * PGSIZE \<le> va \<and> va < k * PGSIZE + PGSIZE" by metis
  then show ?thesis using same_page_iff [OF assms(3,2)] k by simp
qed

lemma mapped_step:
  assumes "\<forall>va < 2 ^ 32. g va = (if a \<le> va \<and> va < a + PGSIZE then Some (entry pa perm) else f va)" "va < 2 ^ 32"
  shows "mapped k (a + PGSIZE) (pa + PGSIZE) perm g va = mapped (Suc k) a pa perm f va"
proof (cases "a + PGSIZE \<le> va")
  case True
  then obtain c where "va = a + PGSIZE + c" using le_Suc_ex by blast
  moreover have "(PGSIZE + c) div PGSIZE * PGSIZE = PGSIZE + c div PGSIZE * PGSIZE" using div_add_self1 [of PGSIZE c] by (simp del: div_add_self1)
  ultimately show ?thesis using True assms by (simp add: mapped_def add.assoc)
qed (use assms in \<open>auto simp: mapped_def\<close>)

lemma pgtab_pos:
  assumes "vm_inv s pd ps" "d < 1024" "bit (pde_at (kbytes s) pd d) 0"
  shows "0 < pgtab_at (kbytes s) pd d"
proof -
  have "page_ok (kend s) (pgtab_at (kbytes s) pd d)" "KERNBASE < kend s"
    using assms by (auto simp: vm_inv_def vm_ok_def)
  then show ?thesis by (auto simp: page_ok_def)
qed

lemma mappages_loop_step:
  assumes "vm_inv s pd ps" "a mod PGSIZE = 0" "a < 2 ^ 32" "lookup (kbytes s) pd a = None"
  obtains "mappages_loop n pd a pa perm s = Ok (- 1) s" "ps = []"
  | u qs where "mappages_loop n pd a pa perm s = (case n of 0 \<Rightarrow> Ok 0 u
        | Suc m \<Rightarrow> mappages_loop m pd ((a + PGSIZE) mod 2 ^ 32) ((pa + PGSIZE) mod 2 ^ 32) perm u)"
      "vm_grow 1 s pd ps u qs"
      "\<forall>va < 2 ^ 32. lookup (kbytes u) pd va = mapped 1 a pa perm (lookup (kbytes s) pd) va"
  using assms(1)
proof (cases rule: walkpgdir_grow [where va = a])
  case 1
  then show thesis using that(1) by (simp add: mappages_loop.simps)
next
  case (2 t qs)
  let ?q = "pgtab_at (kbytes t) pd (PDX a)"
  let ?u = "t\<lparr>kbytes := store32 (kbytes t) (?q + 4 * PTX a) (entry pa perm)\<rparr>"
  have ti: "vm_inv t pd qs" using 2(3) by (simp add: vm_grow_def)
  note e = vm_inv_set_entry [OF ti PDX_less 2(2) PTX_less refl, where w = "entry pa perm"]
  have "lookup (kbytes t) pd a = None" using assms(4) 2(4) by simp
  then have "\<not> bit (load32 (kbytes t) (?q + 4 * PTX a)) 0" using 2(2) by (auto simp: lookup_def Let_def split: if_splits)
  then have "mappages_loop n pd a pa perm s = (case n of 0 \<Rightarrow> Ok 0 ?u
        | Suc m \<Rightarrow> mappages_loop m pd ((a + PGSIZE) mod 2 ^ 32) ((pa + PGSIZE) mod 2 ^ 32) perm ?u)"
    using 2(1) pgtab_pos [OF ti PDX_less 2(2)] by (subst mappages_loop.simps) (simp add: entry_def split: nat.split)
  moreover have "vm_grow 1 s pd ps ?u qs" using vm_grow_trans [OF 2(3) e(1)] by simp
  moreover have "lookup (kbytes ?u) pd va = mapped 1 a pa perm (lookup (kbytes s) pd) va" if "va < 2 ^ 32" for va
    using e(2) [where va = va] 2(4) same_page_aligned [OF assms(2,3) that] unfolding mapped_1 by simp
  ultimately show thesis using that(2) by blast
qed

lemma mappages_loop_grow:
  assumes "vm_inv s pd ps" "a mod PGSIZE = 0" "a + Suc n * PGSIZE \<le> 2 ^ 32" "pa + Suc n * PGSIZE \<le> 2 ^ 32"
    "\<forall>va. a \<le> va \<and> va < a + Suc n * PGSIZE \<longrightarrow> lookup (kbytes s) pd va = None"
  shows "\<exists>s' ps' k. mappages_loop n pd a pa perm s = Ok (if k = Suc n then 0 else - 1) s' \<and> k \<le> Suc n \<and>
     (k < Suc n \<longrightarrow> ps' = []) \<and> vm_grow k s pd ps s' ps' \<and>
     (\<forall>va < 2 ^ 32. lookup (kbytes s') pd va = mapped k a pa perm (lookup (kbytes s) pd) va)"
  using assms
proof (induction n arbitrary: s ps a pa)
  case (0 s ps a pa)
  have "a < 2 ^ 32" "lookup (kbytes s) pd a = None" using 0(3,5) by simp_all
  from 0(1,2) this show ?case
  proof (cases rule: mappages_loop_step [where n = 0 and pa = pa and perm = perm])
    case 1
    then show ?thesis using vm_grow_refl [OF 0(1)]
      by (intro exI [of _ s] exI [of _ "[]"] exI [of _ "0 :: nat"]) simp
  next
    case (2 u qs)
    then show ?thesis by (intro exI [of _ u] exI [of _ qs] exI [of _ "1 :: nat"]) simp
  qed
next
  case (Suc n s ps a pa)
  have "a < 2 ^ 32" "lookup (kbytes s) pd a = None" using Suc(4,6) by simp_all
  from Suc(2,3) this show ?case
  proof (cases rule: mappages_loop_step [where n = "Suc n" and pa = pa and perm = perm])
    case 1
    then show ?thesis using vm_grow_refl [OF Suc(2)]
      by (intro exI [of _ s] exI [of _ "[]"] exI [of _ "0 :: nat"]) simp
  next
    case (2 u qs)
    have run: "mappages_loop (Suc n) pd a pa perm s = mappages_loop n pd (a + PGSIZE) (pa + PGSIZE) perm u"
      using 2(1) Suc(4,5) by simp
    note l = 2(3) [unfolded mapped_1]
    have "\<exists>s' ps' k. mappages_loop n pd (a + PGSIZE) (pa + PGSIZE) perm u = Ok (if k = Suc n then 0 else - 1) s' \<and> k \<le> Suc n \<and>
      (k < Suc n \<longrightarrow> ps' = []) \<and> vm_grow k u pd qs s' ps' \<and>
      (\<forall>va < 2 ^ 32. lookup (kbytes s') pd va = mapped k (a + PGSIZE) (pa + PGSIZE) perm (lookup (kbytes u) pd) va)"
    proof (rule Suc.IH)
      show "vm_inv u pd qs" using 2(2) by (simp add: vm_grow_def)
      show "\<forall>va. a + PGSIZE \<le> va \<and> va < a + PGSIZE + Suc n * PGSIZE \<longrightarrow> lookup (kbytes u) pd va = None"
      proof (intro allI impI)
        fix va assume "a + PGSIZE \<le> va \<and> va < a + PGSIZE + Suc n * PGSIZE"
        moreover from this have "va < 2 ^ 32" using Suc(4) by simp
        ultimately show "lookup (kbytes u) pd va = None" using l Suc(6) by simp
      qed
    qed (use Suc(3-5) in simp_all)
    then obtain s' ps' k where r: "mappages_loop n pd (a + PGSIZE) (pa + PGSIZE) perm u = Ok (if k = Suc n then 0 else - 1) s'"
      "k \<le> Suc n" "k < Suc n \<longrightarrow> ps' = []" "vm_grow k u pd qs s' ps'"
      "\<forall>va < 2 ^ 32. lookup (kbytes s') pd va = mapped k (a + PGSIZE) (pa + PGSIZE) perm (lookup (kbytes u) pd) va" by blast
    have "lookup (kbytes s') pd va = mapped (Suc k) a pa perm (lookup (kbytes s) pd) va" if "va < 2 ^ 32" for va
      using r(5) mapped_step [OF l that, of k] that by simp
    moreover have "vm_grow (Suc k) s pd ps s' ps'" using vm_grow_trans [OF 2(2) r(4)] by simp
    ultimately show ?thesis using r(1-3) run by (intro exI [of _ s'] exI [of _ ps'] exI [of _ "Suc k"]) simp
  qed
qed

text \<open>The number of pages that \<open>len\<close> bytes at \<open>va\<close> lie on.\<close>

definition npages :: "nat \<Rightarrow> nat \<Rightarrow> nat" where
  "npages va len = (va + len - 1) div PGSIZE - va div PGSIZE + 1"

lemma mappages_grow:
  assumes "vm_inv s pd ps" "0 < len" "va + len \<le> 2 ^ 32" "pa + npages va len * PGSIZE \<le> 2 ^ 32"
    "\<forall>wa. PGROUNDDOWN va \<le> wa \<and> wa < PGROUNDDOWN va + npages va len * PGSIZE \<longrightarrow> lookup (kbytes s) pd wa = None"
  shows "\<exists>s' ps' k. mappages pd va len pa perm s = Ok (if k = npages va len then 0 else - 1) s' \<and> k \<le> npages va len \<and>
     (k < npages va len \<longrightarrow> ps' = []) \<and> vm_grow k s pd ps s' ps' \<and>
     (\<forall>wa < 2 ^ 32. lookup (kbytes s') pd wa = mapped k (PGROUNDDOWN va) pa perm (lookup (kbytes s) pd) wa)"
proof -
  let ?n = "(va + len - 1) div PGSIZE - va div PGSIZE"
  have m: "(va + len + (2 ^ 32 - 1)) mod 2 ^ 32 = va + len - 1"
  proof -
    have "va + len + (2 ^ 32 - 1) = (va + len - 1) + 2 ^ 32" using assms(2) by simp
    then have "(va + len + (2 ^ 32 - 1)) mod 2 ^ 32 = (va + len - 1) mod 2 ^ 32" by (metis mod_add_self2)
    then show ?thesis using assms(3) by simp
  qed
  have le: "va div PGSIZE \<le> (va + len - 1) div PGSIZE" using assms(2) by (intro div_le_mono) simp
  have lt: "(va + len - 1) div PGSIZE < 2 ^ 20" using assms(3) by simp
  have d: "(va + len - 1) div PGSIZE * PGSIZE + 2 ^ 32 - va div PGSIZE * PGSIZE = ?n * PGSIZE + 2 ^ 32"
    using le by (simp add: diff_mult_distrib)
  have "(?n * PGSIZE + 2 ^ 32) mod 2 ^ 32 = ?n * PGSIZE" using lt by simp
  then have "mappages pd va len pa perm = mappages_loop ?n pd (PGROUNDDOWN va) pa perm"
    unfolding mappages_def m Let_def PGROUNDDOWN_def d by simp
  moreover have "PGROUNDDOWN va + Suc ?n * PGSIZE \<le> 2 ^ 32"
  proof -
    have "PGROUNDDOWN va + Suc ?n * PGSIZE = ((va + len - 1) div PGSIZE + 1) * PGSIZE"
      using le by (simp add: PGROUNDDOWN_def diff_mult_distrib)
    then show ?thesis using lt by simp
  qed
  moreover have "npages va len = Suc ?n" by (simp add: npages_def)
  moreover have "PGROUNDDOWN va mod PGSIZE = 0" by (simp add: PGROUNDDOWN_def)
  ultimately show ?thesis using mappages_loop_grow [OF assms(1), of "PGROUNDDOWN va" ?n pa perm] assms(4,5) by metis
qed

section \<open>User memory\<close>

text \<open>
  The page of physical memory behind the user address \<open>va\<close>, and the byte. In a
  well-formed user space no two pages share a frame, and no frame is free or holds
  a table.
\<close>

definition frame :: "mem \<Rightarrow> nat \<Rightarrow> nat \<Rightarrow> nat" where
  "frame m pd va = p2v (PTE_ADDR (the (lookup m pd va)))"

definition ua :: "mem \<Rightarrow> nat \<Rightarrow> nat \<Rightarrow> nat" where
  "ua m pd va = frame m pd va + va mod PGSIZE"

definition frames_ok :: "nat \<Rightarrow> mem \<Rightarrow> nat \<Rightarrow> nat set \<Rightarrow> bool" where
  "frames_ok e m pd F \<longleftrightarrow>
     (\<forall>va < KERNBASE. lookup m pd va \<noteq> None \<longrightarrow>
        page_ok e (frame m pd va) \<and> frame m pd va \<notin> vm_pages m pd \<union> F \<and>
        (\<forall>wa < KERNBASE. lookup m pd wa \<noteq> None \<and> frame m pd wa = frame m pd va \<longrightarrow>
           wa div PGSIZE = va div PGSIZE))"

definition user_ok :: "'a kmemory_scheme \<Rightarrow> nat \<Rightarrow> nat list \<Rightarrow> bool" where
  "user_ok s pd ps \<longleftrightarrow> vm_inv s pd ps \<and> frames_ok (kend s) (kbytes s) pd (set ps)"

lemma frames_okD:
  assumes "frames_ok e m pd F" "va < KERNBASE" "lookup m pd va \<noteq> None"
  shows "page_ok e (frame m pd va)" "frame m pd va \<notin> vm_pages m pd" "frame m pd va \<notin> F"
    "wa < KERNBASE \<Longrightarrow> lookup m pd wa \<noteq> None \<Longrightarrow> frame m pd wa = frame m pd va \<Longrightarrow> wa div PGSIZE = va div PGSIZE"
  using assms unfolding frames_ok_def by blast+

lemma lookup_same_page:
  "va < 2 ^ 32 \<Longrightarrow> wa < 2 ^ 32 \<Longrightarrow> va div PGSIZE = wa div PGSIZE \<Longrightarrow> lookup m pd va = lookup m pd wa"
  using same_page_iff [of va wa] by (simp add: lookup_def)

lemma ua_inj:
  assumes ok: "user_ok s pd ps" and va: "va < KERNBASE" "lookup (kbytes s) pd va \<noteq> None"
    and wa: "wa < KERNBASE" "lookup (kbytes s) pd wa \<noteq> None" and eq: "ua (kbytes s) pd va = ua (kbytes s) pd wa"
  shows "va = wa"
proof -
  have p: "page_ok (kend s) (frame (kbytes s) pd va)" "page_ok (kend s) (frame (kbytes s) pd wa)"
    using ok va wa frames_okD(1) unfolding user_ok_def by blast+
  have f: "frame (kbytes s) pd va = frame (kbytes s) pd wa"
    using page_disjoint [OF p, of "va mod PGSIZE" "wa mod PGSIZE"] eq by (auto simp: ua_def)
  then have "va div PGSIZE = wa div PGSIZE" using ok va wa frames_okD(4) unfolding user_ok_def by metis
  moreover have "va mod PGSIZE = wa mod PGSIZE" using eq f by (simp add: ua_def)
  ultimately show ?thesis by (metis div_mult_mod_eq)
qed

text \<open>Writing to the frames of user pages changes neither the tables nor the free list.\<close>

lemma user_ok_write:
  assumes ok: "user_ok s pd ps"
    and w: "\<forall>b. m b \<noteq> kbytes s b \<longrightarrow> (\<exists>va < KERNBASE. lookup (kbytes s) pd va \<noteq> None \<and> b = ua (kbytes s) pd va)"
  shows "user_ok (s\<lparr>kbytes := m\<rparr>) pd ps" "lookup m pd va = lookup (kbytes s) pd va"
    "frame m pd va = frame (kbytes s) pd va" "ua m pd va = ua (kbytes s) pd va"
proof -
  have inv: "vm_inv s pd ps" using ok by (simp add: user_ok_def)
  have same: "m (p + i) = kbytes s (p + i)" if p: "p \<in> vm_pages (kbytes s) pd \<union> set ps" "i < PGSIZE" for p i
  proof (rule ccontr)
    assume "m (p + i) \<noteq> kbytes s (p + i)"
    then obtain va where va: "va < KERNBASE" "lookup (kbytes s) pd va \<noteq> None" "p + i = ua (kbytes s) pd va" using w by blast
    have "page_ok (kend s) p" using p inv vm_pages_ok by (auto simp: vm_inv_def free_pages_def)
    moreover have "page_ok (kend s) (frame (kbytes s) pd va)" "frame (kbytes s) pd va \<noteq> p"
      using ok va p frames_okD(1-3) unfolding user_ok_def by blast+
    ultimately show False using page_disjoint [of "kend s" p "kend s" "frame (kbytes s) pd va" i "va mod PGSIZE"] va(3) p(2)
      by (auto simp: ua_def)
  qed
  then have fr: "\<forall>p \<in> vm_pages (kbytes s) pd. \<forall>i < PGSIZE. m (p + i) = kbytes s (p + i)" by blast
  note v = vm_frame [OF fr]
  have l: "lookup m pd va = lookup (kbytes s) pd va" for va by (rule v(5))
  have f: "frame m pd va = frame (kbytes s) pd va" for va unfolding frame_def l ..
  show "lookup m pd va = lookup (kbytes s) pd va" "frame m pd va = frame (kbytes s) pd va"
    "ua m pd va = ua (kbytes s) pd va" using l f by (simp_all add: ua_def)
  have "free_pages s ps" using inv by (simp add: vm_inv_def)
  moreover have "\<forall>p \<in> set ps. \<forall>i < PGSIZE. m (p + i) = kbytes s (p + i)" using same by blast
  ultimately have fp: "free_pages (s\<lparr>kbytes := m\<rparr>) ps" by (rule free_pages_frame)
  have "lock_free Lkmem (s\<lparr>kbytes := m\<rparr>)" "vm_ok (kend s) m pd" "vm_pages m pd \<inter> set ps = {}"
    using inv unfolding vm_inv_def v(3,4) by (simp_all add: lock_free_def)
  with fp have "vm_inv (s\<lparr>kbytes := m\<rparr>) pd ps" by (simp add: vm_inv_def)
  moreover have "frames_ok (kend s) m pd (set ps)"
    using ok unfolding user_ok_def frames_ok_def v(3) l f by blast
  ultimately show "user_ok (s\<lparr>kbytes := m\<rparr>) pd ps" by (simp add: user_ok_def)
qed

lemma uva2ka_Ok:
  assumes "lookup (kbytes s) pd va = Some e" "bit e 2"
  shows "uva2ka pd va s = Ok (frame (kbytes s) pd va) s"
proof -
  have b: "(w :: u32) AND 4 = 0 \<longleftrightarrow> \<not> bit w 2" for w
    using and_exp_eq_0_iff_not_bit [of w 2] by simp
  have p: "bit (pde_at (kbytes s) pd (PDX va)) 0" and e: "load32 (kbytes s) (pgtab_at (kbytes s) pd (PDX va) + 4 * PTX va) = e" "bit e 0"
    using assms(1) by (auto simp: lookup_def Let_def split: if_splits)
  show ?thesis using walkpgdir_present [OF p, of False] e assms b by (simp add: uva2ka_def frame_def)
qed

lemma div_mod_add:
  fixes x :: nat
  assumes "x mod P + i < P"
  shows "(x + i) div P = x div P" "(x + i) mod P = x mod P + i"
proof -
  obtain q r where x: "x = q * P + r" "r < P" using assms div_mult_mod_eq [of x P] by (metis add_lessD1 mod_less_divisor gr_zeroI less_zeroE)
  then have "r + i < P" using assms by simp
  then show "(x + i) div P = x div P" "(x + i) mod P = x mod P + i" using x by (simp_all add: add.assoc)
qed

lemma ua_chunk:
  assumes "va mod PGSIZE + i < PGSIZE" "va + i < 2 ^ 32"
  shows "lookup m pd (va + i) = lookup m pd va" "ua m pd (va + i) = ua m pd va + i"
proof -
  note d = div_mod_add [OF assms(1)]
  show l: "lookup m pd (va + i) = lookup m pd va" using lookup_same_page [of "va + i" va] d(1) assms(2) by simp
  show "ua m pd (va + i) = ua m pd va + i" by (simp add: ua_def frame_def l d(2))
qed

definition user_range :: "mem \<Rightarrow> nat \<Rightarrow> nat \<Rightarrow> nat \<Rightarrow> bool" where
  "user_range m pd va len \<longleftrightarrow> va + len \<le> KERNBASE \<and>
     (\<forall>i < len. case lookup m pd (va + i) of None \<Rightarrow> False | Some e \<Rightarrow> bit e 2)"

lemma user_rangeD:
  assumes "user_range m pd va len" "i < len"
  obtains e where "lookup m pd (va + i) = Some e" "bit e 2" "va + i < KERNBASE"
  using assms unfolding user_range_def by (fastforce split: option.splits)

lemma copyout_Ok:
  assumes "user_ok s pd ps" "user_range (kbytes s) pd va len"
    "\<forall>i < len. \<forall>j < len. p + i \<noteq> ua (kbytes s) pd (va + j)"
  shows "\<exists>m. copyout pd va p len s = Ok 0 (s\<lparr>kbytes := m\<rparr>) \<and>
     (\<forall>i < len. m (ua (kbytes s) pd (va + i)) = kbytes s (p + i)) \<and>
     (\<forall>b. (\<forall>i < len. b \<noteq> ua (kbytes s) pd (va + i)) \<longrightarrow> m b = kbytes s b)"
  using assms
proof (induction pd va p len arbitrary: s rule: copyout.induct)
  case (1 pd va p len s)
  show ?case
  proof (cases "len = 0")
    case True
    then show ?thesis by (intro exI [of _ "kbytes s"]) (simp add: copyout.simps)
  next
    case False
    let ?va0 = "PGROUNDDOWN va" and ?off = "va mod PGSIZE"
    define n where "n = min (PGSIZE - ?off) len"
    let ?m = "move (kbytes s) (ua (kbytes s) pd va) p n"
    have n: "0 < n" "n \<le> len" "?off + n \<le> PGSIZE" using False by (auto simp: n_def min_def)
    have off: "va - ?va0 = ?off" "?va0 \<le> va" by (simp_all add: PGROUNDDOWN_def minus_div_mult_eq_mod)
    have lim: "va + len \<le> KERNBASE" using 1(3) by (simp add: user_range_def)
    obtain e where e: "lookup (kbytes s) pd va = Some e" "bit e 2" using user_rangeD [OF 1(3), of 0] False by auto
    have "?va0 div PGSIZE = va div PGSIZE" by (simp add: PGROUNDDOWN_def)
    then have l0: "lookup (kbytes s) pd ?va0 = lookup (kbytes s) pd va"
      using lim off(2) by (intro lookup_same_page) auto
    have fr: "frame (kbytes s) pd ?va0 = frame (kbytes s) pd va" by (simp add: frame_def l0)
    have uv: "uva2ka pd ?va0 s = Ok (frame (kbytes s) pd va) s"
      using uva2ka_Ok [of s pd ?va0 e] e l0 fr by simp
    have f0: "frame (kbytes s) pd va \<noteq> 0"
    proof -
      have "page_ok (kend s) (frame (kbytes s) pd va)" "KERNBASE < kend s"
        using 1(2) frames_okD(1) [of "kend s" "kbytes s" pd "set ps" va] e lim False
        by (auto simp: user_ok_def vm_inv_def free_pages_def)
      then show ?thesis by (auto simp: page_ok_def)
    qed
    have run: "copyout pd va p len s = copyout pd ((?va0 + PGSIZE) mod 2 ^ 32) (p + n) (len - n) (s\<lparr>kbytes := ?m\<rparr>)"
      using False uv f0 off(1) by (subst copyout.simps) (simp add: Let_def ua_def n_def)
    have chunk: "ua (kbytes s) pd (va + i) = ua (kbytes s) pd va + i" if "i < n" for i
      using that n lim by (intro ua_chunk) auto
    have mapd: "va + i < KERNBASE" "lookup (kbytes s) pd (va + i) \<noteq> None" if "i < len" for i
      using user_rangeD [OF 1(3) that] by auto
    have inj: "ua (kbytes s) pd (va + i) = ua (kbytes s) pd (va + j) \<Longrightarrow> i = j" if "i < len" "j < len" for i j
      using ua_inj [OF 1(2) mapd [OF that(1)] mapd [OF that(2)]] by simp
    have mb: "?m (ua (kbytes s) pd (va + i)) = kbytes s (p + i)" if "i < n" for i
      using that chunk [OF that] by (simp add: move_def)
    have mo: "?m b = kbytes s b" if "\<forall>i < n. b \<noteq> ua (kbytes s) pd (va + i)" for b
    proof (cases "ua (kbytes s) pd va \<le> b \<and> b < ua (kbytes s) pd va + n")
      case True
      then obtain c where c: "b = ua (kbytes s) pd va + c" using le_Suc_ex by blast
      then have "c < n" using True by linarith
      then show ?thesis using that chunk [of c] c by auto
    qed (auto simp: move_def)
    show ?thesis
    proof (cases "len - n = 0")
      case True
      then have "n = len" using n by simp
      then show ?thesis using run mb mo True
        by (intro exI [of _ ?m]) (simp add: copyout.simps)
    next
      case rest: False
      then have nn: "?off + n = PGSIZE" by (auto simp: n_def min_def)
      have nx: "(?va0 + PGSIZE) mod 2 ^ 32 = va + n"
      proof -
        have "?va0 + PGSIZE = va + n" using nn off by linarith
        then show ?thesis using lim n by simp
      qed
      have w: "\<forall>b. ?m b \<noteq> kbytes s b \<longrightarrow> (\<exists>wa < KERNBASE. lookup (kbytes s) pd wa \<noteq> None \<and> b = ua (kbytes s) pd wa)"
      proof (intro allI impI)
        fix b assume "?m b \<noteq> kbytes s b"
        then obtain i where i: "i < n" "b = ua (kbytes s) pd (va + i)" using mo by blast
        then have "i < len" using n by linarith
        then show "\<exists>wa < KERNBASE. lookup (kbytes s) pd wa \<noteq> None \<and> b = ua (kbytes s) pd wa" using mapd i(2) by blast
      qed
      note k = user_ok_write [OF 1(2) w]
      let ?t = "s\<lparr>kbytes := ?m\<rparr>"
      have ur: "user_range ?m pd (va + n) (len - n)"
        unfolding user_range_def k(2)
      proof (intro conjI allI impI)
        show "va + n + (len - n) \<le> KERNBASE" using lim n by simp
        fix i assume i: "i < len - n"
        then have "n + i < len" by linarith
        then obtain e' where "lookup (kbytes s) pd (va + (n + i)) = Some e'" "bit e' 2"
          by (rule user_rangeD [OF 1(3)])
        then show "case lookup (kbytes s) pd (va + n + i) of None \<Rightarrow> False | Some e \<Rightarrow> bit e 2" by (simp add: add.assoc)
      qed
      have dj: "p + n + i \<noteq> ua ?m pd (va + n + j)" if "i < len - n" "j < len - n" for i j
      proof -
        have "n + i < len" "n + j < len" using that by linarith+
        then have "p + (n + i) \<noteq> ua (kbytes s) pd (va + (n + j))" using 1(4) by blast
        moreover have "ua ?m pd (va + n + j) = ua (kbytes s) pd (va + (n + j))" unfolding k(4) add.assoc ..
        ultimately show ?thesis by (simp only: add.assoc not_False_eq_True)
      qed
      have nd: "0 < len" "n = min (PGSIZE - (va - ?va0)) len" using False by (simp_all add: n_def off(1))
      have kb: "kbytes ?t = ?m" by simp
      have "\<exists>m. copyout pd (va + n) (p + n) (len - n) ?t = Ok 0 (?t\<lparr>kbytes := m\<rparr>) \<and>
         (\<forall>i < len - n. m (ua ?m pd (va + n + i)) = ?m (p + n + i)) \<and>
         (\<forall>b. (\<forall>i < len - n. b \<noteq> ua ?m pd (va + n + i)) \<longrightarrow> m b = ?m b)"
        using 1(1) [OF nd(1) refl f0 nd(2) k(1)] ur dj unfolding nx kb by blast
      then obtain m where m: "copyout pd (va + n) (p + n) (len - n) ?t = Ok 0 (s\<lparr>kbytes := m\<rparr>)"
         "\<forall>i < len - n. m (ua (kbytes s) pd (va + (n + i))) = ?m (p + (n + i))"
         "\<forall>b. (\<forall>i < len - n. b \<noteq> ua (kbytes s) pd (va + (n + i))) \<longrightarrow> m b = ?m b"
        by (auto simp: k(4) add.assoc)
      have src: "?m (p + i) = kbytes s (p + i)" if "i < len" for i
        using mo [of "p + i"] 1(4) that n by auto
      have "m (ua (kbytes s) pd (va + i)) = kbytes s (p + i)" if i: "i < len" for i
      proof (cases "i < n")
        case True
        have "ua (kbytes s) pd (va + i) \<noteq> ua (kbytes s) pd (va + (n + j))" if "j < len - n" for j
        proof -
          have "n + j < len" "i \<noteq> n + j" using that True by linarith+
          then show ?thesis using inj [OF i] by blast
        qed
        then show ?thesis using m(3) mb [OF True] by simp
      next
        case f: False
        have "i - n < len - n" "i = n + (i - n)" using f i n by auto
        then show ?thesis using m(2) src [OF i] by metis
      qed
      moreover have "m b = kbytes s b" if b: "\<forall>i < len. b \<noteq> ua (kbytes s) pd (va + i)" for b
      proof -
        have "b \<noteq> ua (kbytes s) pd (va + (n + i))" if "i < len - n" for i
          using b that by (metis add.commute less_diff_conv)
        then have "m b = ?m b" using m(3) by blast
        then show ?thesis using mo [of b] b n by auto
      qed
      ultimately show ?thesis using run m(1) nx by (intro exI [of _ m]) simp
    qed
  qed
qed

end
