(* ===== verification/Uvm.thy ===== *)
theory Uvm
  imports Vm
begin

text \<open>
  What \<^verbatim>\<open>mappages\<close>, \<^verbatim>\<open>allocuvm\<close> and \<^verbatim>\<open>copyout\<close> of \<^verbatim>\<open>vm.c\<close> do to an address space, in terms of the
  entries the processor finds when it walks the tables and of the bytes behind the
  user's addresses. The operations and their invariant are in the theory \<^verbatim>\<open>Vm\<close>.
\<close>

section \<open>Growing a user space\<close>

lemma aligned_page:
  assumes "a mod PGSIZE = 0" "a \<le> x" "x < a + PGSIZE"
  shows "x div PGSIZE = a div PGSIZE"
proof -
  obtain c where c: "x = a + c" using assms(2) le_Suc_ex by blast
  then have "c < PGSIZE" using assms(3) by simp
  then show ?thesis unfolding c using assms(1) by (intro div_mod_add(1)) simp
qed

text \<open>
  Taking a page off the free list, filling it with zeros and mapping it at \<open>a\<close>: one
  round of the loop of \<^verbatim>\<open>allocuvm\<close>.
\<close>

lemma user_ok_map_page:
  assumes ok: "user_ok s pd (p # qs)" and a: "a mod PGSIZE = 0" "a < KERNBASE" "lookup (kbytes s) pd a = None" and qs: "qs \<noteq> []"
    and t: "t = s\<lparr>freelist := unat (load32 (kbytes s) p), kbytes := fill (kbytes s) p 0 PGSIZE\<rparr>"
  shows "\<exists>u rs. mappages pd a PGSIZE (v2p p) (PTE_W OR PTE_U) t = Ok 0 u \<and> user_ok u pd rs \<and> mem_only s u \<and>
     (\<exists>zs. qs = zs @ rs \<and> length zs \<le> 1 \<and> vm_pages (kbytes u) pd = vm_pages (kbytes s) pd \<union> set zs) \<and>
     (\<forall>va < 2 ^ 32. lookup (kbytes u) pd va = mapped 1 a (v2p p) (PTE_W OR PTE_U) (lookup (kbytes s) pd) va) \<and>
     (\<forall>i < PGSIZE. kbytes u (p + i) = 0) \<and>
     (\<forall>b. (\<forall>q \<in> vm_pages (kbytes s) pd \<union> set (p # qs). \<forall>i < PGSIZE. b \<noteq> q + i) \<longrightarrow> kbytes u b = kbytes s b)"
proof -
  let ?m = "kbytes s"
  have inv: "vm_inv s pd (p # qs)" and fr: "frames_ok (kend s) ?m pd (set (p # qs))" using ok by (auto simp: user_ok_def)
  have fp: "free_pages s (p # qs)" and lf: "lock_free Lkmem s" and vok: "vm_ok (kend s) ?m pd"
    and dj: "vm_pages ?m pd \<inter> set (p # qs) = {}" using inv by (auto simp: vm_inv_def)
  note k = free_pages_kalloc [OF fp lf]
  have pq: "page_ok (kend s) q" if "q \<in> set (p # qs)" for q using fp that by (auto simp: free_pages_def)
  have dist: "p \<notin> set qs" "distinct qs" using fp by (auto simp: free_pages_def)
  have out: "kbytes t (q + i) = ?m (q + i)" if "page_ok (kend s) q" "q \<noteq> p" "i < PGSIZE" for q i
    using pages_apart [of q p] that pq [of p] unfolding t by (auto simp: page_ok_def fill_out)
  have same: "\<forall>q \<in> vm_pages ?m pd. \<forall>i < PGSIZE. kbytes t (q + i) = ?m (q + i)"
    using out vm_pages_ok [OF vok] dj by (metis disjoint_iff list.set_intros(1))
  note v = vm_frame [OF same]
  have tinv: "vm_inv t pd qs"
  proof -
    have "\<forall>q \<in> set qs. \<forall>i < PGSIZE. fill ?m p 0 PGSIZE (q + i) = kbytes (s\<lparr>freelist := unat (load32 ?m p)\<rparr>) (q + i)"
      using out pq dist(1) by (auto simp: t)
    from free_pages_frame [OF k(2) this] have "free_pages t qs" by (simp add: t)
    moreover have "lock_free Lkmem t" "kend t = kend s" using lf by (simp_all add: t lock_free_def)
    ultimately show ?thesis using v(3,4) vok dj by (simp add: vm_inv_def)
  qed
  have np: "npages a PGSIZE = 1"
  proof -
    have "(a + PGSIZE - 1) div PGSIZE = a div PGSIZE" using div_mod_add(1) [of a PGSIZE "PGSIZE - 1"] a(1) by simp
    then show ?thesis by (simp add: npages_def)
  qed
  have rd: "PGROUNDDOWN a = a" using a(1) by (auto elim!: dvdE simp: PGROUNDDOWN_def mod_eq_0_iff_dvd)
  have vp: "v2p p + npages a PGSIZE * PGSIZE \<le> 2 ^ 32"
    using k(3) fp page_ok_p2v(4) [OF k(3)] unfolding np by (auto simp: free_pages_def page_ok_def)
  have "lookup (kbytes t) pd wa = None" if "a \<le> wa" "wa < a + PGSIZE" for wa
  proof -
    have "wa div PGSIZE = a div PGSIZE" using aligned_page [OF a(1) that] .
    then show ?thesis using v(5) lookup_same_page [of wa a] a(2,3) that by simp
  qed
  then have "\<forall>wa. PGROUNDDOWN a \<le> wa \<and> wa < PGROUNDDOWN a + npages a PGSIZE * PGSIZE \<longrightarrow> lookup (kbytes t) pd wa = None"
    unfolding np rd by simp
  from mappages_grow [OF tinv _ _ vp this, of "PTE_W OR PTE_U", unfolded np rd] a(2)
  obtain u rs n where u: "mappages pd a PGSIZE (v2p p) (PTE_W OR PTE_U) t = Ok (if n = 1 then 0 else - 1) u" "n \<le> 1"
    "n < 1 \<longrightarrow> rs = []" "vm_grow n t pd qs u rs"
    "\<forall>va < 2 ^ 32. lookup (kbytes u) pd va = mapped n a (v2p p) (PTE_W OR PTE_U) (lookup (kbytes t) pd) va" by auto
  obtain zs where zs: "qs = zs @ rs" "length zs \<le> n" "vm_pages (kbytes u) pd = vm_pages ?m pd \<union> set zs"
    using u(4) v(3) by (auto simp: vm_grow_def)
  have n1: "n = 1" using u(2,3) zs(1,2) qs by (cases n) auto
  have lk': "lookup (kbytes u) pd va = mapped 1 a (v2p p) (PTE_W OR PTE_U) (lookup ?m pd) va" if "va < 2 ^ 32" for va
    using u(5) that v(5) unfolding n1 mapped_def by simp
  have "t = s\<lparr>kbytes := fill ?m p 0 PGSIZE, freelist := unat (load32 ?m p)\<rparr>" by (simp add: t)
  then have "mem_only s t" by (simp only: mem_only_intros)
  then have mo: "mem_only s u" using u(4) mem_only_trans unfolding vm_grow_def by blast
  have uk: "kend u = kend s" using mem_only_fields [OF mo] by simp
  have bytes: "kbytes u b = kbytes t b" if "\<forall>q \<in> vm_pages ?m pd \<union> set zs. \<forall>i < PGSIZE. b \<noteq> q + i" for b
    using u(4) that unfolding vm_grow_def zs(3) by blast
  have zero: "kbytes u (p + i) = 0" if "i < PGSIZE" for i
  proof -
    have "\<forall>q \<in> vm_pages ?m pd \<union> set zs. \<forall>j < PGSIZE. p + i \<noteq> q + j"
      using page_disjoint [OF k(3)] vm_pages_ok [OF vok] pq zs(1) dj dist(1) that by (metis Un_iff disjoint_iff list.set_intros set_append)
    then show ?thesis using bytes that by (simp add: t fill_def)
  qed
  have rest: "kbytes u b = ?m b" if "\<forall>q \<in> vm_pages ?m pd \<union> set (p # qs). \<forall>i < PGSIZE. b \<noteq> q + i" for b
  proof -
    have "\<forall>i < PGSIZE. b \<noteq> p + i" using that by simp
    then have "b < p \<or> p + PGSIZE \<le> b" by (metis le_add_diff_inverse nat_add_left_cancel_less not_le)
    then have "kbytes t b = ?m b" by (simp add: t fill_out)
    moreover have "\<forall>q \<in> vm_pages ?m pd \<union> set zs. \<forall>i < PGSIZE. b \<noteq> q + i" using that unfolding zs(1) by auto
    ultimately show ?thesis using bytes by simp
  qed
  have ps: "p \<notin> vm_pages (kbytes u) pd \<union> set rs" using dj dist zs(1,3) by auto
  have fa: "frame (kbytes u) pd va = (if a \<le> va \<and> va < a + PGSIZE then p else frame ?m pd va)" if "va < KERNBASE" for va
  proof -
    have "PTE_ADDR (entry (v2p p) (PTE_W OR PTE_U)) = v2p p"
      unfolding entry_def using page_ok_p2v(2,3) [OF k(3)] fp by (intro entry_addr) (auto simp: free_pages_def)
    then show ?thesis unfolding frame_def using lk' [of va] that page_ok_p2v(1) [OF k(3)] fp
      unfolding mapped_1 by (simp add: free_pages_def)
  qed
  have lu: "lookup (kbytes u) pd va \<noteq> None \<longleftrightarrow> a \<le> va \<and> va < a + PGSIZE \<or> lookup ?m pd va \<noteq> None" if "va < KERNBASE" for va
    using lk' [of va] that unfolding mapped_1 by auto
  have "frames_ok (kend u) (kbytes u) pd (set rs)"
    unfolding frames_ok_def
  proof (intro allI impI conjI)
    fix va assume va: "va < KERNBASE" "lookup (kbytes u) pd va \<noteq> None"
    let ?A = "\<lambda>x. a \<le> x \<and> x < a + PGSIZE"
    have o: "\<not> ?A va \<Longrightarrow> lookup ?m pd va \<noteq> None" using lu [OF va(1)] va(2) by blast
    note F = frames_okD [OF fr va(1) o]
    show "page_ok (kend u) (frame (kbytes u) pd va)" using fa [OF va(1)] k(3) F(1) uk by auto
    show "frame (kbytes u) pd va \<notin> vm_pages (kbytes u) pd \<union> set rs"
      using fa [OF va(1)] ps F(2,3) zs(1,3) by auto
    fix wa assume wa: "wa < KERNBASE" "lookup (kbytes u) pd wa \<noteq> None \<and> frame (kbytes u) pd wa = frame (kbytes u) pd va"
    have o': "\<not> ?A wa \<Longrightarrow> lookup ?m pd wa \<noteq> None" using lu [OF wa(1)] wa(2) by blast
    have fp1: "\<not> ?A va \<Longrightarrow> frame ?m pd va \<noteq> p" and fp2: "\<not> ?A wa \<Longrightarrow> frame ?m pd wa \<noteq> p"
      using F(3) frames_okD(3) [OF fr wa(1) o'] by auto
    show "wa div PGSIZE = va div PGSIZE"
    proof (cases "?A va")
      case True
      then have "frame (kbytes u) pd va = p" using fa [OF va(1)] by metis
      then have "?A wa" using fp2 fa [OF wa(1)] wa(2) by (cases "?A wa") auto
      then show ?thesis using True aligned_page [OF a(1), of wa] aligned_page [OF a(1), of va] by metis
    next
      case False
      then have e: "frame (kbytes u) pd va = frame ?m pd va" using fa [OF va(1)] by metis
      then have w: "\<not> ?A wa" using fp1 [OF False] fa [OF wa(1)] wa(2) by (cases "?A wa") auto
      then have "frame (kbytes u) pd wa = frame ?m pd wa" using fa [OF wa(1)] by metis
      then show ?thesis using F(4) [OF False wa(1) o' [OF w]] e wa(2) by simp
    qed
  qed
  then have "user_ok u pd rs" using u(4) by (simp add: user_ok_def vm_grow_def)
  then show ?thesis using u(1) n1 mo zs lk' zero rest
    by (intro exI [of _ u] exI [of _ rs]) auto
qed

lemma entry_perm: "bit (entry pa (PTE_W OR PTE_U)) 1" "bit (entry pa (PTE_W OR PTE_U)) 2"
  by (simp_all add: entry_def bit_simps)

lemma allocuvm_loop_Ok:
  assumes "user_ok s pd ps" "a mod PGSIZE = 0" "newsz < KERNBASE" "\<forall>va < KERNBASE. a \<le> va \<longrightarrow> lookup (kbytes s) pd va = None"
    "2 * ((newsz - a + (PGSIZE - 1)) div PGSIZE) \<le> length ps"
  shows "\<exists>s' ps'. allocuvm_loop pd a oldsz newsz s = Ok newsz s' \<and> user_ok s' pd ps' \<and> mem_only s s' \<and> set ps' \<subseteq> set ps \<and>
     (\<forall>va < KERNBASE. if a \<le> va \<and> PGROUNDDOWN va < newsz
        then (\<exists>e. lookup (kbytes s') pd va = Some e \<and> bit e 1 \<and> bit e 2 \<and> kbytes s' (ua (kbytes s') pd va) = 0)
        else lookup (kbytes s') pd va = lookup (kbytes s) pd va) \<and>
     (\<forall>b. (\<forall>q \<in> vm_pages (kbytes s) pd \<union> set ps. \<forall>i < PGSIZE. b \<noteq> q + i) \<longrightarrow> kbytes s' b = kbytes s b)"
  using assms
proof (induction pd a oldsz newsz arbitrary: s ps rule: allocuvm_loop.induct)
  case (1 pd a oldsz newsz s ps)
  show ?case
  proof (cases "a < newsz")
    case False
    then have "\<not> (a \<le> va \<and> PGROUNDDOWN va < newsz)" for va
    proof -
      have "a \<le> va \<Longrightarrow> a \<le> PGROUNDDOWN va"
        using 1(3) div_le_mono [of a va PGSIZE] by (auto elim!: dvdE simp: PGROUNDDOWN_def mod_eq_0_iff_dvd)
      then show ?thesis using False by auto
    qed
    then show ?thesis using False 1(2)
      by (intro exI [of _ s] exI [of _ ps]) (auto simp: allocuvm_loop.simps)
  next
    case True
    have cnt: "(newsz - a + (PGSIZE - 1)) div PGSIZE = Suc ((newsz - (a + PGSIZE) + (PGSIZE - 1)) div PGSIZE)"
    proof (cases "a + PGSIZE \<le> newsz")
      case t: True
      then have "newsz - a + (PGSIZE - 1) = PGSIZE + (newsz - (a + PGSIZE) + (PGSIZE - 1))" by simp
      then show ?thesis by (simp only: div_add_self1)
    next
      case False
      then have "newsz - a + (PGSIZE - 1) = PGSIZE + (newsz - a - 1)" "newsz - a - 1 < PGSIZE" "newsz - (a + PGSIZE) = 0" using True by auto
      then show ?thesis by (simp only: div_add_self1 div_less)
    qed
    then obtain p qs where ps: "ps = p # qs" and qs: "qs \<noteq> []" using 1(6) by (cases ps; cases "tl ps") auto
    have aK: "a < KERNBASE" "lookup (kbytes s) pd a = None" using True 1(4,5) by auto
    let ?t = "s\<lparr>freelist := unat (load32 (kbytes s) p), kbytes := fill (kbytes s) p 0 PGSIZE\<rparr>"
    obtain u rs zs where u: "mappages pd a PGSIZE (v2p p) (PTE_W OR PTE_U) ?t = Ok 0 u" "user_ok u pd rs" "mem_only s u"
      "qs = zs @ rs" "length zs \<le> 1" "vm_pages (kbytes u) pd = vm_pages (kbytes s) pd \<union> set zs"
      "\<forall>va < 2 ^ 32. lookup (kbytes u) pd va = mapped 1 a (v2p p) (PTE_W OR PTE_U) (lookup (kbytes s) pd) va"
      "\<forall>i < PGSIZE. kbytes u (p + i) = 0"
      "\<forall>b. (\<forall>q \<in> vm_pages (kbytes s) pd \<union> set (p # qs). \<forall>i < PGSIZE. b \<noteq> q + i) \<longrightarrow> kbytes u b = kbytes s b"
      using user_ok_map_page [OF 1(2) [unfolded ps] 1(3) aK qs refl] by blast
    have fp: "free_pages s (p # qs)" and lf: "lock_free Lkmem s" using 1(2) ps by (auto simp: user_ok_def vm_inv_def)
    note k = free_pages_kalloc [OF fp lf]
    have p0: "p \<noteq> 0" using k(3) fp by (auto simp: free_pages_def page_ok_def)
    have run: "allocuvm_loop pd a oldsz newsz s = allocuvm_loop pd (a + PGSIZE) oldsz newsz u"
      using True k(1) p0 u(1) by (subst allocuvm_loop.simps) simp
    have lu: "lookup (kbytes u) pd va = (if a \<le> va \<and> va < a + PGSIZE then Some (entry (v2p p) (PTE_W OR PTE_U)) else lookup (kbytes s) pd va)"
      if "va < KERNBASE" for va using u(7) that unfolding mapped_1 by simp
    have "\<exists>s' ps'. allocuvm_loop pd (a + PGSIZE) oldsz newsz u = Ok newsz s' \<and> user_ok s' pd ps' \<and> mem_only u s' \<and> set ps' \<subseteq> set rs \<and>
       (\<forall>va < KERNBASE. if a + PGSIZE \<le> va \<and> PGROUNDDOWN va < newsz
          then (\<exists>e. lookup (kbytes s') pd va = Some e \<and> bit e 1 \<and> bit e 2 \<and> kbytes s' (ua (kbytes s') pd va) = 0)
          else lookup (kbytes s') pd va = lookup (kbytes u) pd va) \<and>
       (\<forall>b. (\<forall>q \<in> vm_pages (kbytes u) pd \<union> set rs. \<forall>i < PGSIZE. b \<noteq> q + i) \<longrightarrow> kbytes s' b = kbytes u b)"
    proof (rule 1(1) [OF True p0 u(2) _ 1(4)])
      show "\<forall>va < KERNBASE. a + PGSIZE \<le> va \<longrightarrow> lookup (kbytes u) pd va = None" using lu 1(5) by simp
      show "2 * ((newsz - (a + PGSIZE) + (PGSIZE - 1)) div PGSIZE) \<le> length rs"
        using 1(6) u(4,5) unfolding ps cnt by simp
    qed (use 1(3) in simp)
    then obtain s' ps' where r: "allocuvm_loop pd (a + PGSIZE) oldsz newsz u = Ok newsz s'" "user_ok s' pd ps'" "mem_only u s'" "set ps' \<subseteq> set rs"
      and rl: "\<And>va. va < KERNBASE \<Longrightarrow> if a + PGSIZE \<le> va \<and> PGROUNDDOWN va < newsz
          then (\<exists>e. lookup (kbytes s') pd va = Some e \<and> bit e 1 \<and> bit e 2 \<and> kbytes s' (ua (kbytes s') pd va) = 0)
          else lookup (kbytes s') pd va = lookup (kbytes u) pd va"
      and rb: "\<forall>b. (\<forall>q \<in> vm_pages (kbytes u) pd \<union> set rs. \<forall>i < PGSIZE. b \<noteq> q + i) \<longrightarrow> kbytes s' b = kbytes u b" by blast
    have "if a \<le> va \<and> PGROUNDDOWN va < newsz
          then (\<exists>e. lookup (kbytes s') pd va = Some e \<and> bit e 1 \<and> bit e 2 \<and> kbytes s' (ua (kbytes s') pd va) = 0)
          else lookup (kbytes s') pd va = lookup (kbytes s) pd va" if va: "va < KERNBASE" for va
    proof (cases "a \<le> va \<and> va < a + PGSIZE")
      case A: True
      have "va div PGSIZE = a div PGSIZE" using aligned_page [OF 1(3)] A by blast
      then have "PGROUNDDOWN va = a" using 1(3) by (auto elim!: dvdE simp: PGROUNDDOWN_def mod_eq_0_iff_dvd)
      then have G: "a \<le> va \<and> PGROUNDDOWN va < newsz" using True A by simp
      have l: "lookup (kbytes s') pd va = Some (entry (v2p p) (PTE_W OR PTE_U))" using rl [OF va] lu [OF va] A by simp
      have "frame (kbytes s') pd va = p"
      proof -
        have "PTE_ADDR (entry (v2p p) (PTE_W OR PTE_U)) = v2p p"
          unfolding entry_def using page_ok_p2v(2,3) [OF k(3)] fp by (intro entry_addr) (auto simp: free_pages_def)
        then show ?thesis using l page_ok_p2v(1) [OF k(3)] fp by (simp add: frame_def free_pages_def)
      qed
      moreover have "kbytes s' (p + i) = 0" if i: "i < PGSIZE" for i
      proof -
        have "frame (kbytes u) pd va = p" using l lu [OF va] A \<open>frame (kbytes s') pd va = p\<close> by (simp add: frame_def)
        then have "page_ok (kend u) p" "p \<notin> vm_pages (kbytes u) pd \<union> set rs"
          using u(2) va lu [OF va] A frames_okD(1-3) [of "kend u" "kbytes u" pd "set rs" va] by (auto simp: user_ok_def)
        moreover have "page_ok (kend u) q" if "q \<in> vm_pages (kbytes u) pd \<union> set rs" for q
          using u(2) that vm_pages_ok by (auto simp: user_ok_def vm_inv_def free_pages_def)
        ultimately have "\<forall>q \<in> vm_pages (kbytes u) pd \<union> set rs. \<forall>j < PGSIZE. p + i \<noteq> q + j"
          using page_disjoint i by metis
        then show ?thesis using rb u(8) i by simp
      qed
      ultimately have "kbytes s' (ua (kbytes s') pd va) = 0" by (simp add: ua_def)
      then show ?thesis using G l entry_perm by simp
    next
      case False
      then have "(a \<le> va \<and> PGROUNDDOWN va < newsz) = (a + PGSIZE \<le> va \<and> PGROUNDDOWN va < newsz)" by auto
      then show ?thesis using rl [OF va] lu [OF va] False by auto
    qed
    moreover have "kbytes s' b = kbytes s b" if "\<forall>q \<in> vm_pages (kbytes s) pd \<union> set ps. \<forall>i < PGSIZE. b \<noteq> q + i" for b
    proof -
      have "vm_pages (kbytes u) pd \<union> set rs \<subseteq> vm_pages (kbytes s) pd \<union> set ps" using u(4,6) ps by auto
      then have "kbytes s' b = kbytes u b" using rb that by (meson subsetD)
      then show ?thesis using u(9) that ps by metis
    qed
    moreover have "mem_only s s'" using mem_only_trans [OF u(3) r(3)] .
    moreover have "allocuvm_loop pd a oldsz newsz s = Ok newsz s'" "set ps' \<subseteq> set ps" using run r(1,4) u(4) ps by auto
    ultimately show ?thesis using r(2) by blast
  qed
qed

section \<open>Properties\<close>

text \<open>
  A small address space: one table, one user page at address 0, two free pages.
\<close>

definition demo_uvm :: kmemory where
  "demo_uvm = demo_kmemory\<lparr>freelist := 0x80203000, kbytes :=
     store32 (store32 (store32 (\<lambda>_. 0) 0x80200000 0x201007) 0x80201000 0x202007) 0x80203000 0x80204000\<rparr>"

lemma demo_uvm_fields [simp]:
  "freelist demo_uvm = 0x80203000" "kend demo_uvm = 0x80110000" "lk demo_uvm = no_locks"
  by (simp_all add: demo_uvm_def)

lemma demo_bytes:
  "kbytes demo_uvm = store32 (store32 (store32 (\<lambda>_. 0) 0x80200000 0x201007) 0x80201000 0x202007) 0x80203000 0x80204000"
  by (simp add: demo_uvm_def)

lemma load32_0 [simp]: "load32 (\<lambda>_. 0) a = 0"
  by (simp add: load32_def)

lemma demo_pde: "d < 1024 \<Longrightarrow> pde_at (kbytes demo_uvm) 0x80200000 d = (if d = 0 then 0x201007 else 0)"
  by (auto simp: pde_at_def demo_bytes load_store32_other)

lemma demo_tab: "pgtab_at (kbytes demo_uvm) 0x80200000 0 = 0x80201000"
  by (simp add: pgtab_at_def demo_pde PTE_ADDR_def p2v_def)

lemma demo_lookup: "va < 2 ^ 32 \<Longrightarrow> lookup (kbytes demo_uvm) 0x80200000 va = (if va < PGSIZE then Some 0x202007 else None)"
proof -
  assume va: "va < 2 ^ 32"
  have t: "load32 (kbytes demo_uvm) (0x80201000 + 4 * t) = (if t = 0 then 0x202007 else 0)" if "t < 1024" for t
    using that by (auto simp: demo_bytes load_store32_other)
  have "PDX va = 0 \<and> PTX va = 0 \<longleftrightarrow> va < PGSIZE"
    using same_page_iff [OF va, of 0] by (simp add: PDX_def PTX_def div_eq_0_iff)
  then show ?thesis using t [OF PTX_less, of va] demo_pde [OF PDX_less, of va] demo_tab
    by (cases "PDX va = 0"; cases "PTX va = 0") (simp_all add: lookup_def Let_def bit_0)
qed

lemma demo_user_ok: "user_ok demo_uvm 0x80200000 [0x80203000, 0x80204000]"
proof -
  have vp: "vm_pages (kbytes demo_uvm) 0x80200000 = {0x80200000, 0x80201000}"
    unfolding vm_pages_def using demo_pde demo_tab by (auto simp: bit_0 split: if_splits)
  have "vm_ok (kend demo_uvm) (kbytes demo_uvm) 0x80200000"
    unfolding vm_ok_def using demo_pde demo_tab
    by (auto simp: page_ok_def split: if_splits)
  moreover have "free_pages demo_uvm [0x80203000, 0x80204000]"
    by (simp add: free_pages_def page_ok_def demo_bytes load_store32_other)
  ultimately have "vm_inv demo_uvm 0x80200000 [0x80203000, 0x80204000]"
    using vp by (simp add: vm_inv_def lock_free_def)
  moreover have "frame (kbytes demo_uvm) 0x80200000 va = 0x80202000" if "va < PGSIZE" for va
    unfolding frame_def using demo_lookup [of va] that by (simp add: PTE_ADDR_def p2v_def)
  ultimately show ?thesis unfolding user_ok_def frames_ok_def vp
    using demo_lookup by (auto simp: page_ok_def split: if_splits)
qed

text \<open>
  C25: \<^verbatim>\<open>mappages\<close> on addresses that are not mapped maps a number \<open>k\<close> of their pages, in
  order, to consecutive frames with the given permissions and returns 0 when these are
  all of them; it returns -1 with fewer only when no free page is left for a table.
  Every other address is translated as before, the tables stay well formed, and no byte
  outside them changes.
\<close>

theorem mappages_correct:
  assumes "vm_inv s pd ps" and "0 < len" and "va + len \<le> 2 ^ 32" and "pa + npages va len * PGSIZE \<le> 2 ^ 32"
    and "\<forall>wa. PGROUNDDOWN va \<le> wa \<and> wa < PGROUNDDOWN va + npages va len * PGSIZE \<longrightarrow> lookup (kbytes s) pd wa = None"
  shows "\<exists>s' ps' k. mappages pd va len pa perm s = Ok (if k = npages va len then 0 else - 1) s' \<and> k \<le> npages va len \<and>
     (k < npages va len \<longrightarrow> ps' = []) \<and> vm_grow k s pd ps s' ps' \<and>
     (\<forall>wa < 2 ^ 32. lookup (kbytes s') pd wa = mapped k (PGROUNDDOWN va) pa perm (lookup (kbytes s) pd) wa)"
  using mappages_grow [OF assms] .

theorem mappages_correct_witness:
  "\<exists>s' ps' k. mappages 0x80200000 0x1800 0x1000 0x205000 PTE_W demo_uvm = Ok (if k = 2 then 0 else - 1) s' \<and>
     vm_grow k demo_uvm 0x80200000 [0x80203000, 0x80204000] s' ps'"
proof -
  have n: "npages 0x1800 0x1000 = 2" by (simp add: npages_def)
  have h: "\<forall>wa. PGROUNDDOWN 0x1800 \<le> wa \<and> wa < PGROUNDDOWN 0x1800 + npages 0x1800 0x1000 * PGSIZE \<longrightarrow>
      lookup (kbytes demo_uvm) 0x80200000 wa = None"
    using demo_lookup by (auto simp: n PGROUNDDOWN_def)
  have v: "vm_inv demo_uvm 0x80200000 [0x80203000, 0x80204000]" using demo_user_ok by (simp add: user_ok_def)
  have "0 < (0x1000 :: nat)" "0x1800 + 0x1000 \<le> (2 :: nat) ^ 32" "0x205000 + npages 0x1800 0x1000 * PGSIZE \<le> 2 ^ 32"
    by (simp_all add: n)
  from mappages_correct [OF v this h, of PTE_W] show ?thesis unfolding n by blast
qed

text \<open>
  C26: \<^verbatim>\<open>allocuvm\<close> with enough free pages (two per page to be mapped, one of them for a
  table) returns the new size. Every page from the old size to the new one is then mapped
  writable and accessible to the user, on a frame of its own that holds zeros; what was
  mapped stays mapped, and bytes of pages that were in use outside the tables do not change.
\<close>

theorem allocuvm_correct:
  assumes "user_ok s pd ps" and "oldsz \<le> newsz" and "newsz < KERNBASE"
    and "\<forall>va < KERNBASE. PGROUNDUP oldsz \<le> va \<longrightarrow> lookup (kbytes s) pd va = None"
    and "2 * ((newsz - PGROUNDUP oldsz + (PGSIZE - 1)) div PGSIZE) \<le> length ps"
  shows "\<exists>s' ps'. allocuvm pd oldsz newsz s = Ok newsz s' \<and> user_ok s' pd ps' \<and> mem_only s s' \<and> set ps' \<subseteq> set ps \<and>
     (\<forall>va < KERNBASE. if PGROUNDUP oldsz \<le> va \<and> PGROUNDDOWN va < newsz
        then (\<exists>e. lookup (kbytes s') pd va = Some e \<and> bit e 1 \<and> bit e 2 \<and> kbytes s' (ua (kbytes s') pd va) = 0)
        else lookup (kbytes s') pd va = lookup (kbytes s) pd va) \<and>
     (\<forall>b. (\<forall>q \<in> vm_pages (kbytes s) pd \<union> set ps. \<forall>i < PGSIZE. b \<noteq> q + i) \<longrightarrow> kbytes s' b = kbytes s b)"
proof -
  have "allocuvm pd oldsz newsz s = allocuvm_loop pd (PGROUNDUP oldsz) oldsz newsz s" using assms(2,3) by (simp add: allocuvm_def)
  then show ?thesis using allocuvm_loop_Ok [OF assms(1) PGROUNDUP_mod assms(3-5), of oldsz] by (simp only:)
qed

theorem allocuvm_correct_witness:
  "\<exists>s' ps'. allocuvm 0x80200000 0x900 0x1001 demo_uvm = Ok 0x1001 s' \<and> user_ok s' 0x80200000 ps' \<and>
     kbytes s' (ua (kbytes s') 0x80200000 0x1FFF) = 0"
proof -
  have r: "PGROUNDUP 0x900 = 0x1000" by (simp add: PGROUNDUP_def)
  have "\<forall>va < KERNBASE. PGROUNDUP 0x900 \<le> va \<longrightarrow> lookup (kbytes demo_uvm) 0x80200000 va = None"
    using demo_lookup by (auto simp: r)
  from allocuvm_correct [OF demo_user_ok _ _ this, of "0x1001", unfolded r]
  obtain s' ps' where s': "allocuvm 0x80200000 0x900 0x1001 demo_uvm = Ok 0x1001 s'" "user_ok s' 0x80200000 ps'"
    "\<forall>va < KERNBASE. if 0x1000 \<le> va \<and> PGROUNDDOWN va < 0x1001
        then (\<exists>e. lookup (kbytes s') 0x80200000 va = Some e \<and> bit e 1 \<and> bit e 2 \<and> kbytes s' (ua (kbytes s') 0x80200000 va) = 0)
        else lookup (kbytes s') 0x80200000 va = lookup (kbytes demo_uvm) 0x80200000 va" by auto
  from s'(3) [rule_format, of "0x1FFF"] have "kbytes s' (ua (kbytes s') 0x80200000 0x1FFF) = 0" by (auto simp: PGROUNDDOWN_def)
  then show ?thesis using s'(1,2) by blast
qed

text \<open>
  C27: \<^verbatim>\<open>copyout\<close> to addresses that are mapped for the user returns 0, and the bytes behind
  them are then those of the source, across page boundaries; nothing else changes, so
  the address space stays well formed.
\<close>

theorem copyout_correct:
  assumes "user_ok s pd ps" and "user_range (kbytes s) pd va len"
    and "\<forall>i < len. \<forall>j < len. p + i \<noteq> ua (kbytes s) pd (va + j)"
  shows "\<exists>m. copyout pd va p len s = Ok 0 (s\<lparr>kbytes := m\<rparr>) \<and> user_ok (s\<lparr>kbytes := m\<rparr>) pd ps \<and>
     (\<forall>i < len. m (ua m pd (va + i)) = kbytes s (p + i)) \<and>
     (\<forall>b. (\<forall>i < len. b \<noteq> ua (kbytes s) pd (va + i)) \<longrightarrow> m b = kbytes s b)"
proof -
  obtain m where m: "copyout pd va p len s = Ok 0 (s\<lparr>kbytes := m\<rparr>)" "\<forall>i < len. m (ua (kbytes s) pd (va + i)) = kbytes s (p + i)"
    "\<forall>b. (\<forall>i < len. b \<noteq> ua (kbytes s) pd (va + i)) \<longrightarrow> m b = kbytes s b"
    using copyout_Ok [OF assms] by blast
  have "\<exists>wa < KERNBASE. lookup (kbytes s) pd wa \<noteq> None \<and> b = ua (kbytes s) pd wa" if "m b \<noteq> kbytes s b" for b
  proof -
    obtain i where "i < len" "b = ua (kbytes s) pd (va + i)" using m(3) \<open>m b \<noteq> kbytes s b\<close> by blast
    then show ?thesis using user_rangeD [OF assms(2), of i] by (metis option.distinct(1))
  qed
  then have "\<forall>b. m b \<noteq> kbytes s b \<longrightarrow> (\<exists>wa < KERNBASE. lookup (kbytes s) pd wa \<noteq> None \<and> b = ua (kbytes s) pd wa)" by blast
  note k = user_ok_write [OF assms(1) this]
  show ?thesis using m k(1,4) by (intro exI [of _ m]) simp
qed

theorem copyout_correct_witness:
  "\<exists>m. copyout 0x80200000 0x20 0x80203000 4 demo_uvm = Ok 0 (demo_uvm\<lparr>kbytes := m\<rparr>) \<and>
     m (ua m 0x80200000 0x23) = 0x80"
proof -
  have a: "ua (kbytes demo_uvm) 0x80200000 va = 0x80202000 + va" if "va < PGSIZE" for va
    using demo_lookup [of va] that by (simp add: ua_def frame_def PTE_ADDR_def p2v_def)
  have "user_range (kbytes demo_uvm) 0x80200000 0x20 4" using demo_lookup by (simp add: user_range_def bit_simps)
  moreover have "\<forall>i < 4. \<forall>j < 4. 0x80203000 + i \<noteq> ua (kbytes demo_uvm) 0x80200000 (0x20 + j)" using a by simp
  ultimately obtain m where "copyout 0x80200000 0x20 0x80203000 4 demo_uvm = Ok 0 (demo_uvm\<lparr>kbytes := m\<rparr>)"
     "\<forall>i < 4. m (ua m 0x80200000 (0x20 + i)) = kbytes demo_uvm (0x80203000 + i)"
    using copyout_correct [OF demo_user_ok, of "0x20" 4 "0x80203000"] by blast
  moreover from this(2) [rule_format, of 3] have "m (ua m 0x80200000 0x23) = 0x80"
    by (simp add: demo_bytes store32_def)
  ultimately show ?thesis by blast
qed

end
