(* ===== verification/Bio.thy ===== *)
theory Bio
  imports Uvm
begin

text \<open>
  The buffer cache of \<^verbatim>\<open>bio.c\<close> over the memory disk of \<^verbatim>\<open>memide.c\<close>, the driver of the
  \<^verbatim>\<open>kernelmemfs\<close> build. Buffers are numbered; number \<open>NBUF\<close> is \<^verbatim>\<open>bcache.head\<close>. The links
  \<^verbatim>\<open>prev\<close> and \<^verbatim>\<open>next\<close> are those of the code; the invariant says that they thread the
  buffers in one order, forwards and backwards. \<open>whist\<close> is a history of the sectors
  written to the disk, the latest first: it records what the disk held at each moment.
\<close>

section \<open>State and operations\<close>

abbreviation (input) NBUF :: nat where "NBUF \<equiv> 10"
abbreviation (input) BSIZE :: nat where "BSIZE \<equiv> 512"

record buf =
  b_busy :: bool
  b_valid :: bool
  b_dirty :: bool
  b_dev :: u32
  b_sector :: nat
  b_prev :: nat
  b_next :: nat
  b_data :: "u8 list"

record kbio = kvm +
  bcache :: "nat \<Rightarrow> buf"
  memdisk :: "nat \<Rightarrow> u8 list"
  disksize :: nat
  whist :: "(nat \<times> u8 list) list"

definition upd_buf :: "nat \<Rightarrow> (buf \<Rightarrow> buf) \<Rightarrow> ('a kbio_scheme, unit) kernel" where
  "upd_buf b f = modify (\<lambda>s. s\<lparr>bcache := (bcache s)(b := f (bcache s b))\<rparr>)"

definition get_buf :: "nat \<Rightarrow> ('a kbio_scheme, buf) kernel" where
  "get_buf b = gets_st (\<lambda>s. bcache s b)"

text \<open>\<^verbatim>\<open>ideinit\<close> and \<^verbatim>\<open>iderw\<close> of \<^verbatim>\<open>memide.c\<close>; \<open>img\<close> and \<open>size\<close> are the linker's file system image.\<close>

definition ideinit :: "(nat \<Rightarrow> u8 list) \<Rightarrow> nat \<Rightarrow> ('a kbio_scheme, unit) kernel" where
  "ideinit img img_size = modify (\<lambda>s. s\<lparr>memdisk := img, disksize := img_size div 512\<rparr>)"

definition iderw :: "nat \<Rightarrow> ('a kbio_scheme, unit) kernel" where
  "iderw b =
     bind (get_buf b) (\<lambda>x.
       if \<not> b_busy x then panic ''iderw: buf not busy''
       else if b_valid x \<and> \<not> b_dirty x then panic ''iderw: nothing to do''
       else if b_dev x \<noteq> 1 then panic ''iderw: request not for disk 1''
       else bind (gets_st disksize) (\<lambda>n.
         if b_sector x \<ge> n then panic ''iderw: sector out of range''
         else andthen
           (if b_dirty x
            then andthen (upd_buf b (\<lambda>x. x\<lparr>b_dirty := False\<rparr>))
              (modify (\<lambda>s. s\<lparr>memdisk := (memdisk s)(b_sector x := b_data x), whist := (b_sector x, b_data x) # whist s\<rparr>))
            else bind (gets_st (\<lambda>s. memdisk s (b_sector x))) (\<lambda>d. upd_buf b (\<lambda>x. x\<lparr>b_data := d\<rparr>)))
           (upd_buf b (\<lambda>x. x\<lparr>b_valid := True\<rparr>))))"

text \<open>One round of the loop of \<^verbatim>\<open>binit\<close>.\<close>

definition blink :: "nat \<Rightarrow> (nat \<Rightarrow> buf) \<Rightarrow> nat \<Rightarrow> buf" where
  "blink b c =
     (let c1 = c(b := (c b)\<lparr>b_next := b_next (c NBUF)\<rparr>);
          c2 = c1(b := (c1 b)\<lparr>b_prev := NBUF, b_dev := - 1\<rparr>);
          c3 = c2(b_next (c2 NBUF) := (c2 (b_next (c2 NBUF)))\<lparr>b_prev := b\<rparr>)
      in c3(NBUF := (c3 NBUF)\<lparr>b_next := b\<rparr>))"

definition binit :: "('a kbio_scheme, unit) kernel" where
  "binit =
     andthen (initlock Lbcache)
       (andthen (upd_buf NBUF (\<lambda>h. h\<lparr>b_prev := NBUF, b_next := NBUF\<rparr>))
         (modify (\<lambda>s. s\<lparr>bcache := fold blink [0..<NBUF] (bcache s)\<rparr>)))"

text \<open>
  The two scans of \<^verbatim>\<open>bget\<close>, forwards and backwards: the first buffer with the property, or
  \<open>NBUF\<close>. A scan that never meets the head never returns.
\<close>

partial_function (option) bscan :: "(nat \<Rightarrow> nat) \<Rightarrow> (nat \<Rightarrow> bool) \<Rightarrow> nat \<Rightarrow> nat option" where
  "bscan nxt P b = (if b = NBUF then Some NBUF else if P b then Some b else bscan nxt P (nxt b))"

text \<open>
  Going to sleep in the middle of a routine ends the run with \<open>Switch\<close> (or a panic of
  \<^verbatim>\<open>sched\<close>), so what would follow is never reached.
\<close>

definition suspend :: "chan \<Rightarrow> lockid \<Rightarrow> ('a kproc_scheme, 'b) kernel" where
  "suspend ch l = bind (sleep ch l) (\<lambda>_. panic ''sched'')"

text \<open>
  \<^verbatim>\<open>bget\<close> up to its first sleep; a process that is woken starts again at \<^verbatim>\<open>loop\<close>, holding the
  lock, with \<open>bget_loop\<close>.
\<close>

definition bget_loop :: "u32 \<Rightarrow> nat \<Rightarrow> ('a kbio_scheme, nat) kernel" where
  "bget_loop dev sector s =
     (let c = bcache s in
      case bscan (\<lambda>b. b_next (c b)) (\<lambda>b. b_dev (c b) = dev \<and> b_sector (c b) = sector) (b_next (c NBUF)) of
        None \<Rightarrow> Spin s
      | Some b \<Rightarrow>
          if b \<noteq> NBUF
          then if \<not> b_busy (c b)
            then andthen (upd_buf b (\<lambda>x. x\<lparr>b_busy := True\<rparr>)) (andthen (release Lbcache) (ret b)) s
            else suspend (ChBuf b) Lbcache s
          else case bscan (\<lambda>b. b_prev (c b)) (\<lambda>b. \<not> b_busy (c b) \<and> \<not> b_dirty (c b)) (b_prev (c NBUF)) of
              None \<Rightarrow> Spin s
            | Some b \<Rightarrow>
                if b \<noteq> NBUF
                then andthen (upd_buf b (\<lambda>x. x\<lparr>b_dev := dev, b_sector := sector, b_busy := True, b_valid := False, b_dirty := False\<rparr>))
                  (andthen (release Lbcache) (ret b)) s
                else Panic ''bget: no buffers'')"

definition bget :: "u32 \<Rightarrow> nat \<Rightarrow> ('a kbio_scheme, nat) kernel" where
  "bget dev sector = andthen (acquire Lbcache) (bget_loop dev sector)"

definition bread :: "u32 \<Rightarrow> nat \<Rightarrow> ('a kbio_scheme, nat) kernel" where
  "bread dev sector =
     bind (bget dev sector) (\<lambda>b. bind (get_buf b) (\<lambda>x.
       andthen (if \<not> b_valid x then iderw b else ret ()) (ret b)))"

definition bwrite :: "nat \<Rightarrow> ('a kbio_scheme, unit) kernel" where
  "bwrite b =
     bind (get_buf b) (\<lambda>x.
       if \<not> b_busy x then panic ''bwrite''
       else andthen (upd_buf b (\<lambda>x. x\<lparr>b_dirty := True\<rparr>)) (iderw b))"

text \<open>The pointer updates of \<^verbatim>\<open>brelse\<close>, in order.\<close>

definition bmove :: "nat \<Rightarrow> (nat \<Rightarrow> buf) \<Rightarrow> nat \<Rightarrow> buf" where
  "bmove b c =
     (let c1 = c(b_next (c b) := (c (b_next (c b)))\<lparr>b_prev := b_prev (c b)\<rparr>);
          c2 = c1(b_prev (c1 b) := (c1 (b_prev (c1 b)))\<lparr>b_next := b_next (c1 b)\<rparr>);
          c3 = c2(b := (c2 b)\<lparr>b_next := b_next (c2 NBUF)\<rparr>);
          c4 = c3(b := (c3 b)\<lparr>b_prev := NBUF\<rparr>);
          c5 = c4(b_next (c4 NBUF) := (c4 (b_next (c4 NBUF)))\<lparr>b_prev := b\<rparr>)
      in c5(NBUF := (c5 NBUF)\<lparr>b_next := b\<rparr>))"

definition brelse :: "nat \<Rightarrow> ('a kbio_scheme, unit) kernel" where
  "brelse b =
     bind (get_buf b) (\<lambda>x.
       if \<not> b_busy x then panic ''brelse''
       else andthen (acquire Lbcache)
         (andthen (modify (\<lambda>s. s\<lparr>bcache := bmove b (bcache s)\<rparr>))
           (andthen (upd_buf b (\<lambda>x. x\<lparr>b_busy := False\<rparr>))
             (andthen (wakeup (ChBuf b)) (release Lbcache)))))"

end
