(* ===== verification/Bcache.thy ===== *)
theory Bcache
  imports Bio
begin

text \<open>
  The buffer cache of \<^verbatim>\<open>bio.c\<close> is correct: the links between the buffers are those of a list
  in the order of use, and what a reader gets is what was written last. The locale
  \<open>block_store\<close> is the interface that the log and the file system rely on; it is
  interpreted on \<^verbatim>\<open>bread\<close>, \<^verbatim>\<open>bwrite\<close> and \<^verbatim>\<open>brelse\<close>.
\<close>

section \<open>The list of buffers\<close>

text \<open>
  \<open>seg n p a xs z\<close>: going from \<open>a\<close> by the links \<open>n\<close> passes through \<open>xs\<close> to \<open>z\<close>, and the links
  \<open>p\<close> lead back.
\<close>

fun seg :: "(nat \<Rightarrow> nat) \<Rightarrow> (nat \<Rightarrow> nat) \<Rightarrow> nat \<Rightarrow> nat list \<Rightarrow> nat \<Rightarrow> bool" where
  "seg n p a [] z \<longleftrightarrow> n a = z \<and> p z = a"
| "seg n p a (x # xs) z \<longleftrightarrow> n a = x \<and> p x = a \<and> seg n p x xs z"

lemma seg_append: "seg n p a (xs @ y # ys) z \<longleftrightarrow> seg n p a xs y \<and> seg n p y ys z"
  by (induction xs arbitrary: a) auto

lemma seg_cong:
  "seg n p a xs z \<Longrightarrow> (\<And>x. x \<in> set (a # xs) \<Longrightarrow> n' x = n x) \<Longrightarrow> (\<And>x. x \<in> set (xs @ [z]) \<Longrightarrow> p' x = p x) \<Longrightarrow>
     seg n' p' a xs z"
  by (induction xs arbitrary: a) auto

lemma seg_ends: "seg n p a xs z \<Longrightarrow> n a = hd (xs @ [z]) \<and> p z = last (a # xs)"
  by (induction xs arbitrary: a) auto

text \<open>Taking an element out, and putting one in after the head.\<close>

lemma seg_remove:
  assumes "seg n p a (as @ b # bs) z" "distinct (as @ b # bs)" "a \<notin> set (as @ b # bs)" "z \<notin> set (as @ b # bs)"
  shows "seg (n(p b := n b)) (p(n b := p b)) a (as @ bs) z"
  using assms
proof (induction as arbitrary: a)
  case Nil
  then show ?case
    by (cases bs) (auto elim!: seg_cong)
next
  case (Cons x as)
  have "seg n p x as b" "seg n p b bs z"
    using Cons.prems by (simp_all add: seg_append)
  then have "p b = last (x # as)" "n b = hd (bs @ [z])"
    using seg_ends by blast+
  then have "p b \<in> set (x # as)" "n b \<in> set (bs @ [z])"
    by (simp_all only: last_in_set hd_in_set list.distinct append_is_Nil_conv simp_thms)
  then have "p b \<noteq> a" "n b \<noteq> x"
    using Cons.prems(2-4) by auto
  moreover have "seg (n(p b := n b)) (p(n b := p b)) x (as @ bs) z"
    using Cons.prems by (intro Cons.IH) auto
  ultimately show ?case
    using Cons.prems(1) by (simp add: fun_upd_def)
qed

lemma seg_insert:
  assumes "seg n p h ys h" "distinct ys" "h \<notin> set ys" "b \<notin> set ys" "b \<noteq> h"
  shows "seg (n(b := n h, h := b)) (p(b := h, n h := b)) h (b # ys) h"
  using assms by (cases ys) (auto elim!: seg_cong)

definition nexts :: "(nat \<Rightarrow> buf) \<Rightarrow> nat \<Rightarrow> nat" where
  "nexts c b = b_next (c b)"

definition prevs :: "(nat \<Rightarrow> buf) \<Rightarrow> nat \<Rightarrow> nat" where
  "prevs c b = b_prev (c b)"

definition set_next :: "nat \<Rightarrow> nat \<Rightarrow> (nat \<Rightarrow> buf) \<Rightarrow> nat \<Rightarrow> buf" where
  "set_next b v c = c(b := (c b)\<lparr>b_next := v\<rparr>)"

definition set_prev :: "nat \<Rightarrow> nat \<Rightarrow> (nat \<Rightarrow> buf) \<Rightarrow> nat \<Rightarrow> buf" where
  "set_prev b v c = c(b := (c b)\<lparr>b_prev := v\<rparr>)"

definition blist :: "(nat \<Rightarrow> buf) \<Rightarrow> nat list \<Rightarrow> bool" where
  "blist c xs \<longleftrightarrow> seg (nexts c) (prevs c) NBUF xs NBUF \<and> distinct xs \<and> set xs = {..<NBUF}"

text \<open>The contents of a buffer, apart from its links.\<close>

definition payload :: "buf \<Rightarrow> buf" where
  "payload x = x\<lparr>b_prev := 0, b_next := 0\<rparr>"

lemma set_link_simps [simp]:
  "nexts (set_next b v c) = (nexts c)(b := v)" "nexts (set_prev b v c) = nexts c"
  "prevs (set_next b v c) = prevs c" "prevs (set_prev b v c) = (prevs c)(b := v)"
  "payload (set_next b v c x) = payload (c x)" "payload (set_prev b v c x) = payload (c x)"
  by (auto simp: nexts_def prevs_def set_next_def set_prev_def payload_def fun_eq_iff)

lemma bmove_links:
  "bmove b c = (let c2 = set_next (prevs (set_prev (nexts c b) (prevs c b) c) b) (nexts (set_prev (nexts c b) (prevs c b) c) b)
       (set_prev (nexts c b) (prevs c b) c);
     c4 = set_prev b NBUF (set_next b (nexts c2 NBUF) c2)
   in set_next NBUF b (set_prev (nexts c4 NBUF) b c4))"
  by (simp only: bmove_def Let_def set_next_def set_prev_def nexts_def prevs_def)

lemma bmove_payload [simp]: "payload (bmove b c x) = payload (c x)"
  by (simp add: bmove_links Let_def)

lemma bmove_blist:
  assumes "blist c (as @ b # bs)"
  shows "blist (bmove b c) (b # as @ bs)"
proof -
  let ?n = "nexts c" and ?p = "prevs c"
  have sg: "seg ?n ?p NBUF (as @ b # bs) NBUF" and d: "distinct (as @ b # bs)" and st: "set (as @ b # bs) = {..<NBUF}"
    using assms unfolding blist_def by blast+
  have nb: "NBUF \<notin> set (as @ b # bs)"
    unfolding st by simp
  have "seg ?n ?p NBUF as b" "seg ?n ?p b bs NBUF"
    using sg by (simp_all add: seg_append)
  then have "?p b = last (NBUF # as)" "?n b = hd (bs @ [NBUF])"
    using seg_ends by blast+
  then have "?p b \<in> set (NBUF # as)" "?n b \<in> set (bs @ [NBUF])"
    by (simp_all only: last_in_set hd_in_set list.distinct append_is_Nil_conv simp_thms)
  then have ne: "?p b \<noteq> b" "?n b \<noteq> b"
    using d nb by auto
  have "seg (?n(?p b := ?n b)) (?p(?n b := ?p b)) NBUF (as @ bs) NBUF"
    using seg_remove [OF sg d nb nb] .
  from seg_insert [OF this] have "seg (nexts (bmove b c)) (prevs (bmove b c)) NBUF (b # as @ bs) NBUF"
    using d nb ne by (simp add: bmove_links Let_def)
  moreover have "set (b # as @ bs) = set (as @ b # bs)"
    by auto
  ultimately show ?thesis
    using d unfolding blist_def st [symmetric] by simp
qed

lemma blink_links:
  assumes "b \<noteq> NBUF"
  shows "nexts (blink b c) = (nexts c)(b := nexts c NBUF, NBUF := b)"
    "prevs (blink b c) = (prevs c)(b := NBUF, nexts c NBUF := b)"
  using assms by (auto simp: blink_def Let_def nexts_def prevs_def fun_eq_iff)

lemma blink_payload: "payload (blink b c x) = (if x = b then payload ((c b)\<lparr>b_dev := - 1\<rparr>) else payload (c x))"
  by (simp add: blink_def Let_def payload_def)

lemma blink_all:
  assumes "nexts c NBUF = NBUF" "prevs c NBUF = NBUF" "n \<le> NBUF"
  shows "seg (nexts (fold blink [0..<n] c)) (prevs (fold blink [0..<n] c)) NBUF (rev [0..<n]) NBUF \<and>
    (\<forall>b. payload (fold blink [0..<n] c b) = (if b < n then payload ((c b)\<lparr>b_dev := - 1\<rparr>) else payload (c b)))"
  using assms(3)
proof (induction n)
  case (Suc n)
  let ?c = "fold blink [0..<n] c"
  have "seg (nexts ?c) (prevs ?c) NBUF (rev [0..<n]) NBUF" and p: "payload (?c b) = (if b < n then payload ((c b)\<lparr>b_dev := - 1\<rparr>) else payload (c b))" for b
    using Suc by simp_all
  from seg_insert [OF this(1), of n] have "seg (nexts (blink n ?c)) (prevs (blink n ?c)) NBUF (n # rev [0..<n]) NBUF"
    using Suc.prems by (simp add: blink_links del: seg.simps)
  moreover have "payload ((?c n)\<lparr>b_dev := - 1\<rparr>) = payload ((c n)\<lparr>b_dev := - 1\<rparr>)"
    using p [of n] by (cases "?c n", cases "c n") (simp add: payload_def)
  ultimately show ?case
    using p by (auto simp: blink_payload less_Suc_eq simp del: seg.simps)
qed (use assms in simp)

lemma bscan_forward:
  assumes "seg n p a xs NBUF" "NBUF \<notin> set xs"
  shows "bscan n P (n a) = Some (case find P xs of None \<Rightarrow> NBUF | Some b \<Rightarrow> b)"
  using assms
proof (induction xs arbitrary: a)
  case (Cons x xs)
  then show ?case by (subst bscan.simps) auto
qed (subst bscan.simps, simp)

lemma bscan_backward:
  assumes "seg n p NBUF xs z" "NBUF \<notin> set xs"
  shows "bscan p P (p z) = Some (case find P (rev xs) of None \<Rightarrow> NBUF | Some b \<Rightarrow> b)"
  using assms
proof (induction xs arbitrary: z rule: rev_induct)
  case (snoc x xs)
  then show ?case by (subst bscan.simps) (auto simp: seg_append)
qed (subst bscan.simps, simp)

section \<open>What the cache holds\<close>

text \<open>
  \<open>bufs_ok c D B\<close>: the buffers \<open>B\<close> are the busy ones, a sector of the disk has at most one
  buffer, a dirty buffer holds a sector, and the data of a valid buffer that is neither
  dirty nor in use is that of its sector on the disk \<open>D\<close>.
\<close>

definition bufs_ok :: "(nat \<Rightarrow> buf) \<Rightarrow> (nat \<Rightarrow> u8 list) \<Rightarrow> nat set \<Rightarrow> bool" where
  "bufs_ok c D B \<longleftrightarrow> B = {b. b < NBUF \<and> b_busy (c b)} \<and>
     (\<forall>b < NBUF. \<forall>b' < NBUF. b_dev (c b) = 1 \<longrightarrow> b_dev (c b') = 1 \<longrightarrow> b_sector (c b) = b_sector (c b') \<longrightarrow> b = b') \<and>
     (\<forall>b < NBUF. b_dirty (c b) \<longrightarrow> b_valid (c b) \<and> b_dev (c b) = 1) \<and>
     (\<forall>b < NBUF. b \<notin> B \<longrightarrow> b_dev (c b) = 1 \<longrightarrow> b_valid (c b) \<longrightarrow> \<not> b_dirty (c b) \<longrightarrow> b_data (c b) = D (b_sector (c b)))"

definition cache_ok :: "'a kbio_scheme \<Rightarrow> nat set \<Rightarrow> bool" where
  "cache_ok s B \<longleftrightarrow> (\<exists>xs. blist (bcache s) xs) \<and> bufs_ok (bcache s) (memdisk s) B \<and>
     lk_ok (lk s) \<and> \<not> locked (lk s) Lbcache \<and> \<not> locked (lk s) Lptable"

text \<open>The buffer of a sector, and what a reader of the sector sees.\<close>

definition cached :: "(nat \<Rightarrow> buf) \<Rightarrow> nat \<Rightarrow> nat option" where
  "cached c sec = find (\<lambda>b. b_dev (c b) = 1 \<and> b_sector (c b) = sec) [0..<NBUF]"

definition view :: "'a kbio_scheme \<Rightarrow> nat \<Rightarrow> u8 list" where
  "view s sec = (case cached (bcache s) sec of
     Some b \<Rightarrow> if b_valid (bcache s b) then b_data (bcache s b) else memdisk s sec
   | None \<Rightarrow> memdisk s sec)"

definition is_dirty :: "'a kbio_scheme \<Rightarrow> nat \<Rightarrow> bool" where
  "is_dirty s sec \<longleftrightarrow> (\<exists>b. cached (bcache s) sec = Some b \<and> b_dirty (bcache s b))"

definition clean :: "'a kbio_scheme \<Rightarrow> nat set" where
  "clean s = {b. b < NBUF \<and> \<not> b_busy (bcache s b) \<and> \<not> b_dirty (bcache s b)}"

lemma payload_fields:
  assumes "payload x = payload y"
  shows "b_busy x = b_busy y" "b_valid x = b_valid y" "b_dirty x = b_dirty y" "b_dev x = b_dev y"
    "b_sector x = b_sector y" "b_data x = b_data y"
  using assms by (cases x, cases y, simp add: payload_def)+

lemma find_SomeD: "find P xs = Some b \<Longrightarrow> P b \<and> b \<in> set xs"
  by (induction xs) (auto split: if_splits)

lemma find_unique:
  assumes "set xs = set ys" "\<And>a b. a \<in> set xs \<Longrightarrow> b \<in> set xs \<Longrightarrow> P a \<Longrightarrow> P b \<Longrightarrow> a = b"
  shows "find P xs = find P ys"
proof (cases "find P xs")
  case None
  then have "find P ys = None"
    using assms(1) by (simp add: find_None_iff)
  with None show ?thesis
    by simp
next
  case (Some a)
  then have a: "a \<in> set xs" "P a"
    by (auto simp: find_Some_iff)
  then obtain b where b: "find P ys = Some b"
    using assms(1) by (metis find_None_iff not_None_eq)
  then have "b \<in> set ys" "P b"
    by (auto simp: find_Some_iff)
  with a assms Some b show ?thesis
    by metis
qed

lemma bufs_unique:
  assumes "bufs_ok c D B" "b < NBUF" "b' < NBUF" "b_dev (c b) = 1" "b_dev (c b') = 1" "b_sector (c b) = b_sector (c b')"
  shows "b = b'"
  using assms unfolding bufs_ok_def by blast

lemma cached_None: "cached c sec = None \<longleftrightarrow> (\<forall>b < NBUF. \<not> (b_dev (c b) = 1 \<and> b_sector (c b) = sec))"
  by (auto simp: cached_def find_None_iff)

lemma cached_SomeD: "cached c sec = Some b \<Longrightarrow> b < NBUF \<and> b_dev (c b) = 1 \<and> b_sector (c b) = sec"
  unfolding cached_def find_Some_iff by force

lemma cached_SomeI:
  assumes "bufs_ok c D B" "b < NBUF" "b_dev (c b) = 1"
  shows "cached c (b_sector (c b)) = Some b"
proof (cases "cached c (b_sector (c b))")
  case None
  from None [unfolded cached_None, rule_format, OF assms(2)] assms(3) show ?thesis
    by simp
next
  case (Some b')
  have "b' = b"
    by (rule bufs_unique [OF assms(1)]) (use cached_SomeD [OF Some] assms in simp_all)
  with Some show ?thesis
    by simp
qed

lemma find_cached:
  assumes "bufs_ok c D B" "blist c xs"
  shows "find (\<lambda>b. b_dev (c b) = 1 \<and> b_sector (c b) = sec) xs = cached c sec"
  unfolding cached_def
proof (rule find_unique)
  show "set xs = set [0..<NBUF]"
    using assms(2) unfolding blist_def by (simp add: lessThan_atLeast0)
  show "a = b" if "a \<in> set xs" "b \<in> set xs" "b_dev (c a) = 1 \<and> b_sector (c a) = sec" "b_dev (c b) = 1 \<and> b_sector (c b) = sec" for a b
    by (rule bufs_unique [OF assms(1)]) (use that assms(2) in \<open>auto simp: blist_def\<close>)
qed

lemma view_clean:
  assumes "bufs_ok (bcache s) (memdisk s) B" "\<not> is_dirty s sec" "\<And>b. cached (bcache s) sec = Some b \<Longrightarrow> b \<notin> B"
  shows "view s sec = memdisk s sec"
proof (cases "cached (bcache s) sec")
  case (Some b)
  then have "b < NBUF" "b_dev (bcache s b) = 1" "b_sector (bcache s b) = sec" "\<not> b_dirty (bcache s b)" "b \<notin> B"
    using assms cached_SomeD [OF Some] by (auto simp: is_dirty_def)
  then show ?thesis
    using assms(1) Some unfolding bufs_ok_def view_def by auto
qed (simp add: view_def)

section \<open>The operations on the cache\<close>

lemma get_buf_run [simp]: "get_buf b s = Ok (bcache s b) s"
  by (simp add: get_buf_def)

lemma upd_buf_run [simp]: "upd_buf b f s = Ok () (s\<lparr>bcache := (bcache s)(b := f (bcache s b))\<rparr>)"
  by (simp add: upd_buf_def)

lemma blist_less: "blist c xs \<Longrightarrow> b \<in> set xs \<longleftrightarrow> b < NBUF"
  by (simp add: blist_def)

lemma bget_run:
  assumes "blist (bcache s) xs" "lk_ok (lk s)" "\<not> locked (lk s) Lbcache"
  shows "bget dev sec s =
    (case find (\<lambda>b. b_dev (bcache s b) = dev \<and> b_sector (bcache s b) = sec) xs of
       Some b \<Rightarrow>
         if \<not> b_busy (bcache s b)
         then Ok b (s\<lparr>bcache := (bcache s)(b := (bcache s b)\<lparr>b_busy := True\<rparr>)\<rparr>)
         else suspend (ChBuf b) Lbcache (s\<lparr>lk := acq Lbcache (lk s)\<rparr>)
     | None \<Rightarrow>
         (case find (\<lambda>b. \<not> b_busy (bcache s b) \<and> \<not> b_dirty (bcache s b)) (rev xs) of
            Some b \<Rightarrow> Ok b (s\<lparr>bcache := (bcache s)(b := (bcache s b)
                \<lparr>b_dev := dev, b_sector := sec, b_busy := True, b_valid := False, b_dirty := False\<rparr>)\<rparr>)
          | None \<Rightarrow> Panic ''bget: no buffers''))"
proof -
  let ?c = "bcache s" and ?s = "s\<lparr>lk := acq Lbcache (lk s)\<rparr>"
  have sg: "seg (\<lambda>b. b_next (?c b)) (\<lambda>b. b_prev (?c b)) NBUF xs NBUF" and nb: "NBUF \<notin> set xs"
    using assms(1) by (auto simp: blist_def nexts_def [abs_def] prevs_def [abs_def])
  have in_list: "b \<noteq> NBUF" if "find P xs = Some b \<or> find P (rev xs) = Some b" for P b
    using that nb by (auto simp: find_Some_iff in_set_conv_nth rev_nth)
  have "bget dev sec s = bget_loop dev sec ?s"
    using assms by (simp add: bget_def acquire_Ok)
  moreover have "release Lbcache (?s\<lparr>bcache := c\<rparr>) = Ok () (s\<lparr>bcache := c\<rparr>)" for c
    using assms by simp
  ultimately show ?thesis
    using in_list bscan_forward [OF sg nb] bscan_backward [OF sg nb]
    by (auto simp: bget_loop_def Let_def split: option.split)
qed

lemma iderw_read:
  assumes "b_busy (bcache s b)" "\<not> b_valid (bcache s b)" "\<not> b_dirty (bcache s b)" "b_dev (bcache s b) = 1"
    "b_sector (bcache s b) < disksize s"
  shows "iderw b s = Ok () (s\<lparr>bcache := (bcache s)(b := (bcache s b)\<lparr>b_data := memdisk s (b_sector (bcache s b)), b_valid := True\<rparr>)\<rparr>)"
  using assms by (simp add: iderw_def)

lemma bwrite_Ok:
  assumes "b_busy (bcache s b)" "b_dev (bcache s b) = 1" "b_sector (bcache s b) < disksize s"
  shows "bwrite b s = Ok () (s\<lparr>bcache := (bcache s)(b := (bcache s b)\<lparr>b_dirty := False, b_valid := True\<rparr>),
     memdisk := (memdisk s)(b_sector (bcache s b) := b_data (bcache s b)),
     whist := (b_sector (bcache s b), b_data (bcache s b)) # whist s\<rparr>)"
  using assms by (simp add: bwrite_def iderw_def)

lemma brelse_Ok:
  assumes "b_busy (bcache s b)" "lk_ok (lk s)" "\<not> locked (lk s) Lbcache" "\<not> locked (lk s) Lptable"
  shows "brelse b s = Ok () (s\<lparr>bcache := (bmove b (bcache s))(b := (bmove b (bcache s) b)\<lparr>b_busy := False\<rparr>),
     procs := map (wake (ChBuf b)) (procs s)\<rparr>)"
  using assms by (simp add: brelse_def acquire_Ok)

text \<open>
  Input and output change the cache, the disk and, by waking processes, the process
  table; everything else stays.
\<close>

definition io_frame :: "'a kbio_scheme \<Rightarrow> 'a kbio_scheme \<Rightarrow> bool" where
  "io_frame s s' \<longleftrightarrow> (\<exists>c m w ps. s' = s\<lparr>bcache := c, memdisk := m, whist := w, procs := ps\<rparr>)"

lemma io_frameI: "s' = s\<lparr>bcache := c, memdisk := m, whist := w, procs := ps\<rparr> \<Longrightarrow> io_frame s s'"
  by (auto simp: io_frame_def)

lemma io_frame_upd [simp]:
  "io_frame s s" "io_frame s (s\<lparr>bcache := c\<rparr>)" "io_frame s (s\<lparr>bcache := c, procs := ps\<rparr>)"
  "io_frame s (s\<lparr>bcache := c, memdisk := m, whist := w\<rparr>)"
  by (rule io_frameI [where c = "bcache s" and m = "memdisk s" and w = "whist s" and ps = "procs s"]
      io_frameI [where c = c and m = "memdisk s" and w = "whist s" and ps = "procs s"]
      io_frameI [where c = c and m = "memdisk s" and w = "whist s" and ps = ps]
      io_frameI [where c = c and m = m and w = w and ps = "procs s"]; simp)+

lemma io_frame_trans [trans]: "io_frame s s' \<Longrightarrow> io_frame s' s'' \<Longrightarrow> io_frame s s''"
  unfolding io_frame_def by (elim exE) (simp, blast)

lemma io_frame_fields:
  assumes "io_frame s s'"
  shows "lk s' = lk s" "disksize s' = disksize s" "cur s' = cur s"
  using assms by (auto simp: io_frame_def)

lemma cached_iff:
  "bufs_ok c D B \<Longrightarrow> cached c x = Some b \<longleftrightarrow> b < NBUF \<and> b_dev (c b) = 1 \<and> b_sector (c b) = x"
  using cached_SomeD cached_SomeI by blast

lemma view_buf:
  assumes "bufs_ok (bcache s) D B" "b < NBUF" "b_dev (bcache s b) = 1" "b_valid (bcache s b)"
  shows "view s (b_sector (bcache s b)) = b_data (bcache s b)"
  using assms by (simp add: view_def cached_SomeI)

lemma is_dirty_iff:
  "bufs_ok (bcache s) D B \<Longrightarrow> is_dirty s x \<longleftrightarrow> (\<exists>b < NBUF. b_dev (bcache s b) = 1 \<and> b_sector (bcache s b) = x \<and> b_dirty (bcache s b))"
  by (auto simp: is_dirty_def cached_iff)

lemma option_eqI: "(\<And>a. x = Some a \<longleftrightarrow> y = Some a) \<Longrightarrow> x = y"
  by (cases x; cases y) auto

text \<open>Changing one buffer: what readers of the other sectors see stays.\<close>

lemma view_upd_other:
  assumes "bufs_ok (bcache s) (memdisk s) B" "bufs_ok c D B'" "\<And>b'. b' \<noteq> b \<Longrightarrow> payload (c b') = payload (bcache s b')"
    "b_dev (c b) = 1 \<Longrightarrow> x \<noteq> b_sector (c b)" "bcache s' = c" "memdisk s' x = memdisk s x"
    "cached (bcache s) x = Some b \<Longrightarrow> b \<notin> B \<and> \<not> b_dirty (bcache s b)"
  shows "view s' x = view s x" "is_dirty s' x = is_dirty s x"
proof -
  have c': "cached c x = Some b' \<longleftrightarrow> b' \<noteq> b \<and> cached (bcache s) x = Some b'" for b'
    using payload_fields(4,5) [OF assms(3), of b'] assms(4) unfolding cached_iff [OF assms(1)] cached_iff [OF assms(2)]
    by (cases "b' = b") auto
  have "is_dirty s' x \<longleftrightarrow> (\<exists>b'. b' \<noteq> b \<and> cached (bcache s) x = Some b' \<and> b_dirty (bcache s b'))"
    using payload_fields(3) [OF assms(3)] by (auto simp: is_dirty_def assms(5) c')
  also have "\<dots> \<longleftrightarrow> is_dirty s x"
    using assms(7) by (auto simp: is_dirty_def)
  finally show "is_dirty s' x = is_dirty s x" .
  show "view s' x = view s x"
  proof (cases "cached (bcache s) x = Some b")
    case True
    then have "cached c x \<noteq> Some b'" for b'
      using c' [of b'] by auto
    then have "cached c x = None"
      by (metis not_Some_eq)
    moreover have "view s x = memdisk s x"
      using assms(1,7) True by (intro view_clean) (auto simp: is_dirty_def)
    ultimately show ?thesis
      by (simp add: view_def assms(5,6))
  next
    case False
    then have "cached c x = Some b' \<longleftrightarrow> cached (bcache s) x = Some b'" for b'
      using c' [of b'] by auto
    then have eq: "cached c x = cached (bcache s) x"
      by (rule option_eqI)
    show ?thesis
    proof (cases "cached (bcache s) x")
      case (Some b')
      with False payload_fields [OF assms(3), of b'] eq show ?thesis
        by (simp add: view_def assms(5,6))
    qed (simp add: view_def assms(5,6) eq)
  qed
qed

lemma bufs_ok_upd:
  assumes ok: "bufs_ok c D B" and b: "b < NBUF" and oth: "\<And>b'. b' \<noteq> b \<Longrightarrow> payload (c' b') = payload (c b')"
    and uniq: "\<And>b'. b' < NBUF \<Longrightarrow> b' \<noteq> b \<Longrightarrow> b_dev (c b') = 1 \<Longrightarrow> b_dev (c' b) = 1 \<Longrightarrow> b_sector (c b') \<noteq> b_sector (c' b)"
    and dirty: "b_dirty (c' b) \<Longrightarrow> b_valid (c' b) \<and> b_dev (c' b) = 1"
    and coh: "\<not> b_busy (c' b) \<Longrightarrow> b_dev (c' b) = 1 \<Longrightarrow> b_valid (c' b) \<Longrightarrow> \<not> b_dirty (c' b) \<Longrightarrow> b_data (c' b) = D' (b_sector (c' b))"
    and disk: "\<And>b'. b' < NBUF \<Longrightarrow> b' \<noteq> b \<Longrightarrow> b_dev (c b') = 1 \<Longrightarrow> D' (b_sector (c b')) = D (b_sector (c b'))"
  shows "bufs_ok c' D' (if b_busy (c' b) then insert b B else B - {b})"
proof -
  note f = payload_fields [OF oth]
  have B: "B = {b. b < NBUF \<and> b_busy (c b)}"
    using ok by (simp add: bufs_ok_def)
  have 1: "(if b_busy (c' b) then insert b B else B - {b}) = {b. b < NBUF \<and> b_busy (c' b)}"
  proof (rule set_eqI)
    fix x
    show "x \<in> (if b_busy (c' b) then insert b B else B - {b}) \<longleftrightarrow> x \<in> {b. b < NBUF \<and> b_busy (c' b)}"
      unfolding B by (cases "x = b") (use b f(1) [of x] in auto)
  qed
  have 2: "b1 = b2" if "b1 < NBUF" "b2 < NBUF" "b_dev (c' b1) = 1" "b_dev (c' b2) = 1" "b_sector (c' b1) = b_sector (c' b2)" for b1 b2
  proof (cases "b1 = b"; cases "b2 = b")
    assume "b1 \<noteq> b" "b2 \<noteq> b"
    then show ?thesis
      using that bufs_unique [OF ok, of b1 b2] by (simp add: f)
  qed (use that uniq [of b1] uniq [of b2] f in auto)
  have 3: "b_valid (c' x) \<and> b_dev (c' x) = 1" if "x < NBUF" "b_dirty (c' x)" for x
    using that ok dirty f [of x] unfolding bufs_ok_def by (cases "x = b") auto
  have 4: "b_data (c' x) = D' (b_sector (c' x))"
    if "x < NBUF" "\<not> b_busy (c' x)" "b_dev (c' x) = 1" "b_valid (c' x)" "\<not> b_dirty (c' x)" for x
  proof (cases "x = b")
    case False
    then have "b_data (c x) = D (b_sector (c x))"
      using that ok unfolding bufs_ok_def by (simp add: f)
    then show ?thesis
      using False that disk [of x] by (simp add: f)
  qed (use that coh in simp)
  show ?thesis
    unfolding 1 unfolding bufs_ok_def using 2 3 4 by simp
qed

lemma blist_upd:
  "blist c xs \<Longrightarrow> b_next x = b_next (c b) \<Longrightarrow> b_prev x = b_prev (c b) \<Longrightarrow> blist (c(b := x)) xs"
proof -
  assume "blist c xs" "b_next x = b_next (c b)" "b_prev x = b_prev (c b)"
  moreover from this have "nexts (c(b := x)) = nexts c" "prevs (c(b := x)) = prevs c"
    by (auto simp: nexts_def prevs_def)
  ultimately show ?thesis
    by (simp add: blist_def)
qed

text \<open>
  The laws of reading, writing and releasing a buffer: the value a reader sees (\<open>view\<close>),
  which sectors are dirty, and how many buffers can be reused.
\<close>

lemma bread_law:
  assumes ok: "cache_ok s B" and sec: "sec < disksize s"
    and free: "case cached (bcache s) sec of Some b \<Rightarrow> b \<notin> B | None \<Rightarrow> clean s \<noteq> {}"
  shows "\<exists>b x. bread 1 sec s = Ok b (s\<lparr>bcache := (bcache s)(b := x)\<rparr>) \<and> b < NBUF \<and> b \<notin> B \<and>
    cache_ok (s\<lparr>bcache := (bcache s)(b := x)\<rparr>) (insert b B) \<and> b_busy x \<and> b_valid x \<and> b_dev x = 1 \<and> b_sector x = sec \<and>
    b_data x = view s sec \<and> (b_dirty x \<longleftrightarrow> is_dirty s sec) \<and>
    (if is_dirty s sec then cached (bcache s) sec = Some b else b \<in> clean s)"
proof -
  obtain xs where xs: "blist (bcache s) xs" and bo: "bufs_ok (bcache s) (memdisk s) B"
    and lk: "lk_ok (lk s)" "\<not> locked (lk s) Lbcache" "\<not> locked (lk s) Lptable"
    using ok by (auto simp: cache_ok_def)
  note run = bget_run [OF xs lk(1,2), of 1 sec, unfolded find_cached [OF bo xs]]
  show ?thesis
  proof (cases "cached (bcache s) sec")
    case (Some b)
    let ?y = "bcache s b"
    have b: "b < NBUF" "b_dev ?y = 1" "b_sector ?y = sec" "b \<notin> B" "\<not> b_busy ?y"
      using cached_SomeD [OF Some] free bo Some by (auto simp: bufs_ok_def)
    have dv: "b_dirty ?y \<longrightarrow> b_valid ?y"
      using bo b(1) by (simp add: bufs_ok_def)
    define x where "x = ?y\<lparr>b_busy := True, b_data := view s sec, b_valid := True\<rparr>"
    have x: "b_busy x" "b_valid x" "b_dev x = 1" "b_sector x = sec" "b_data x = view s sec" "b_dirty x = b_dirty ?y"
      "b_next x = b_next ?y" "b_prev x = b_prev ?y"
      using b by (simp_all add: x_def)
    have g: "bget 1 sec s = Ok b (s\<lparr>bcache := (bcache s)(b := ?y\<lparr>b_busy := True\<rparr>)\<rparr>)"
      using run Some b by simp
    have rd: "bread 1 sec s = Ok b (s\<lparr>bcache := (bcache s)(b := x)\<rparr>)"
    proof (cases "b_valid ?y")
      case True
      then have "x = ?y\<lparr>b_busy := True\<rparr>"
        using Some by (simp add: x_def view_def)
      then show ?thesis
        using g True by (simp add: bread_def)
    next
      case False
      let ?s = "s\<lparr>bcache := (bcache s)(b := ?y\<lparr>b_busy := True\<rparr>)\<rparr>"
      have "view s sec = memdisk s sec"
        using Some False by (simp add: view_def)
      then have "iderw b ?s = Ok () (s\<lparr>bcache := (bcache s)(b := x)\<rparr>)"
        using False b dv sec by (subst iderw_read) (simp_all add: x_def)
      then show ?thesis
        using g False by (simp add: bread_def)
    qed
    have "b_sector (bcache s b') \<noteq> sec" if "b' < NBUF" "b' \<noteq> b" "b_dev (bcache s b') = 1" for b'
      using bufs_unique [OF bo that(1) b(1) that(3) b(2)] that b by auto
    then have "bufs_ok ((bcache s)(b := x)) (memdisk s) (insert b B)"
      using bufs_ok_upd [OF bo b(1), of "(bcache s)(b := x)" "memdisk s"] x by simp
    then have "cache_ok (s\<lparr>bcache := (bcache s)(b := x)\<rparr>) (insert b B)"
      using blist_upd [OF xs x(7,8)] lk by (auto simp: cache_ok_def)
    moreover have "b_dirty ?y \<longleftrightarrow> is_dirty s sec" "\<not> is_dirty s sec \<longrightarrow> b \<in> clean s"
      using Some b by (auto simp: is_dirty_def clean_def)
    ultimately show ?thesis
      using rd x b Some by (intro exI [of _ b] exI [of _ x]) simp
  next
    case None
    then obtain b0 where "b0 \<in> clean s"
      using free by auto
    then obtain b where b: "find (\<lambda>b. \<not> b_busy (bcache s b) \<and> \<not> b_dirty (bcache s b)) (rev xs) = Some b"
      using xs by (cases "find (\<lambda>b. \<not> b_busy (bcache s b) \<and> \<not> b_dirty (bcache s b)) (rev xs)")
        (auto simp: find_None_iff clean_def blist_less)
    let ?y = "(bcache s b)\<lparr>b_dev := 1, b_sector := sec, b_busy := True, b_valid := False, b_dirty := False\<rparr>"
    have bc: "b < NBUF" "b \<in> clean s"
      using find_SomeD [OF b] blist_less [OF xs, of b] by (auto simp: clean_def)
    then have bB: "b \<notin> B"
      using bo by (simp add: bufs_ok_def clean_def)
    have v: "view s sec = memdisk s sec" "\<not> is_dirty s sec"
      using None by (simp_all add: view_def is_dirty_def)
    define x where "x = ?y\<lparr>b_data := memdisk s sec, b_valid := True\<rparr>"
    have x: "b_busy x" "b_valid x" "b_dev x = 1" "b_sector x = sec" "b_data x = view s sec" "\<not> b_dirty x"
      "b_next x = b_next (bcache s b)" "b_prev x = b_prev (bcache s b)"
      using v by (simp_all add: x_def)
    let ?s = "s\<lparr>bcache := (bcache s)(b := ?y)\<rparr>"
    have "bget 1 sec s = Ok b ?s"
      using run None b by simp
    moreover have "iderw b ?s = Ok () (s\<lparr>bcache := (bcache s)(b := x)\<rparr>)"
      using sec by (subst iderw_read) (simp_all add: x_def)
    ultimately have rd: "bread 1 sec s = Ok b (s\<lparr>bcache := (bcache s)(b := x)\<rparr>)"
      by (simp add: bread_def)
    have "bufs_ok ((bcache s)(b := x)) (memdisk s) (insert b B)"
      using bufs_ok_upd [OF bo bc(1), of "(bcache s)(b := x)" "memdisk s"] x None by (simp add: cached_None)
    then have "cache_ok (s\<lparr>bcache := (bcache s)(b := x)\<rparr>) (insert b B)"
      using blist_upd [OF xs x(7,8)] lk by (auto simp: cache_ok_def)
    then show ?thesis
      using rd x bc bB v by (intro exI [of _ b] exI [of _ x]) simp
  qed
qed

definition holds :: "'a kbio_scheme \<Rightarrow> nat \<Rightarrow> nat \<Rightarrow> bool" where
  "holds s b sec \<longleftrightarrow> b < NBUF \<and> b_busy (bcache s b) \<and> b_valid (bcache s b) \<and> b_dev (bcache s b) = 1 \<and> b_sector (bcache s b) = sec"

lemma holds_view: "cache_ok s B \<Longrightarrow> holds s b sec \<Longrightarrow> view s sec = b_data (bcache s b)"
  using view_buf by (auto simp: holds_def cache_ok_def)

lemma holds_dirty: "cache_ok s B \<Longrightarrow> holds s b sec \<Longrightarrow> is_dirty s sec \<longleftrightarrow> b_dirty (bcache s b)"
  using cached_SomeI [of "bcache s" "memdisk s" B b] by (auto simp: holds_def cache_ok_def is_dirty_def)

text \<open>Changing a buffer that is held: its sector gets the new data, the others stay as they are.\<close>

lemma upd_held:
  assumes ok: "cache_ok s B" and h: "holds s b sec"
    and oth: "\<And>b'. b' \<noteq> b \<Longrightarrow> payload (bcache s' b') = payload (bcache s b')"
    and y: "b_dev (bcache s' b) = 1" "b_sector (bcache s' b) = sec" "b_valid (bcache s' b)"
    and disk: "\<And>x. x \<noteq> sec \<Longrightarrow> memdisk s' x = memdisk s x"
    and coh: "\<not> b_busy (bcache s' b) \<Longrightarrow> \<not> b_dirty (bcache s' b) \<Longrightarrow> b_data (bcache s' b) = memdisk s' sec"
    and bl: "\<exists>xs. blist (bcache s') xs" and lk: "lk s' = lk s"
  shows "cache_ok s' (if b_busy (bcache s' b) then B else B - {b})" (is ?ok)
    and "view s' = (view s)(sec := b_data (bcache s' b))" (is ?view)
    and "is_dirty s' = (is_dirty s)(sec := b_dirty (bcache s' b))" (is ?dirty)
proof -
  have bo: "bufs_ok (bcache s) (memdisk s) B"
    using ok by (simp add: cache_ok_def)
  have b: "b < NBUF" "b_dev (bcache s b) = 1" "b_sector (bcache s b) = sec" "b \<in> B"
    using h bo by (auto simp: holds_def bufs_ok_def)
  have ne: "b_sector (bcache s b') \<noteq> sec" if "b' < NBUF" "b' \<noteq> b" "b_dev (bcache s b') = 1" for b'
    using bufs_unique [OF bo that(1) b(1) that(3) b(2)] that b by auto
  have "bufs_ok (bcache s') (memdisk s') (if b_busy (bcache s' b) then insert b B else B - {b})"
    by (rule bufs_ok_upd [OF bo b(1) oth]) (use y coh ne disk in auto)
  then have bo': "bufs_ok (bcache s') (memdisk s') (if b_busy (bcache s' b) then B else B - {b})"
    by (simp only: insert_absorb [OF b(4)])
  then show ?ok
    using ok bl by (simp add: cache_ok_def lk)
  have ov: "view s' x = view s x" if "x \<noteq> sec" for x
    by (rule view_upd_other(1) [OF bo bo' oth]) (use that b cached_SomeD [of "bcache s" x b] disk [OF that] y in auto)
  have od: "is_dirty s' x = is_dirty s x" if "x \<noteq> sec" for x
    by (rule view_upd_other(2) [OF bo bo' oth]) (use that b cached_SomeD [of "bcache s" x b] disk [OF that] y in auto)
  have "view s' sec = b_data (bcache s' b)"
    using view_buf [OF bo' b(1) y(1,3)] y(2) by simp
  with ov show ?view
    by (simp add: fun_eq_iff)
  have "is_dirty s' sec = b_dirty (bcache s' b)"
    using cached_SomeI [OF bo' b(1) y(1)] y(2) by (simp add: is_dirty_def)
  with od show ?dirty
    by (simp add: fun_eq_iff)
qed

lemma cache_ok_blist:
  "cache_ok s B \<Longrightarrow> b_next x = b_next (bcache s b) \<Longrightarrow> b_prev x = b_prev (bcache s b) \<Longrightarrow> \<exists>xs. blist ((bcache s)(b := x)) xs"
  unfolding cache_ok_def using blist_upd by blast

lemma clean_held:
  assumes "cache_ok s B" "holds s b sec" "\<And>b'. b' \<noteq> b \<Longrightarrow> payload (bcache s' b') = payload (bcache s b')"
  shows "clean s' = (if b_busy (bcache s' b) \<or> b_dirty (bcache s' b) then clean s else insert b (clean s))"
proof (rule set_eqI)
  fix x
  show "x \<in> clean s' \<longleftrightarrow> x \<in> (if b_busy (bcache s' b) \<or> b_dirty (bcache s' b) then clean s else insert b (clean s))"
    using assms(2) payload_fields [OF assms(3), of x] by (cases "x = b") (auto simp: clean_def holds_def)
qed

lemma data_law:
  assumes "cache_ok s B" "holds s b sec" "s' = s\<lparr>bcache := (bcache s)(b := (bcache s b)\<lparr>b_data := d\<rparr>)\<rparr>"
  shows "cache_ok s' B" "holds s' b sec" "view s' = (view s)(sec := d)" "is_dirty s' = is_dirty s" "clean s' = clean s"
    "\<And>b' sec'. b' \<noteq> b \<Longrightarrow> holds s' b' sec' = holds s b' sec'"
proof -
  have s': "bcache s' = (bcache s)(b := (bcache s b)\<lparr>b_data := d\<rparr>)" "memdisk s' = memdisk s" "lk s' = lk s"
    by (simp_all add: assms(3))
  have h: "b_busy (bcache s b)" "b_dev (bcache s b) = 1" "b_sector (bcache s b) = sec" "b_valid (bcache s b)"
    using assms(2) by (simp_all add: holds_def)
  have bl: "\<exists>xs. blist (bcache s') xs"
    unfolding s' by (rule cache_ok_blist [OF assms(1)]) simp_all
  have y: "b_dev (bcache s' b) = 1" "b_sector (bcache s' b) = sec" "b_valid (bcache s' b)" "b_busy (bcache s' b)"
    "b_dirty (bcache s' b) = is_dirty s sec" "b_data (bcache s' b) = d"
    using h holds_dirty [OF assms(1,2)] by (simp_all add: s')
  have oth: "payload (bcache s' b') = payload (bcache s b')" if "b' \<noteq> b" for b'
    using that by (simp add: s')
  have disk: "memdisk s' x = memdisk s x" for x
    by (simp add: s')
  note u = upd_held [OF assms(1,2) oth y(1-3) disk notE [OF _ y(4)] bl s'(3)] and cl = clean_held [OF assms(1,2) oth]
  show "cache_ok s' B" "view s' = (view s)(sec := d)" "clean s' = clean s" "is_dirty s' = is_dirty s"
    using u cl y(4-6) by (simp_all add: fun_upd_idem)
  show "holds s' b sec" "\<And>b' sec'. b' \<noteq> b \<Longrightarrow> holds s' b' sec' = holds s b' sec'"
    using assms(2) by (auto simp: holds_def s')
qed

lemma bwrite_law:
  assumes "cache_ok s B" "holds s b sec" "sec < disksize s"
  shows "\<exists>s'. bwrite b s = Ok () s' \<and> cache_ok s' B \<and> holds s' b sec \<and> io_frame s s' \<and>
    memdisk s' = (memdisk s)(sec := view s sec) \<and> whist s' = (sec, view s sec) # whist s \<and> procs s' = procs s \<and>
    view s' = view s \<and> is_dirty s' = (is_dirty s)(sec := False) \<and> clean s' = clean s \<and>
    (\<forall>b' sec'. b' \<noteq> b \<longrightarrow> holds s' b' sec' = holds s b' sec')"
proof -
  have h: "b_busy (bcache s b)" "b_dev (bcache s b) = 1" "b_sector (bcache s b) = sec" "b_valid (bcache s b)"
    using assms(2) by (simp_all add: holds_def)
  have v: "view s sec = b_data (bcache s b)"
    by (rule holds_view [OF assms(1,2)])
  define s' where "s' = s\<lparr>bcache := (bcache s)(b := (bcache s b)\<lparr>b_dirty := False, b_valid := True\<rparr>),
     memdisk := (memdisk s)(sec := view s sec), whist := (sec, view s sec) # whist s\<rparr>"
  have w: "bwrite b s = Ok () s'"
    using assms(3) h v by (simp add: bwrite_Ok s'_def)
  have s': "bcache s' = (bcache s)(b := (bcache s b)\<lparr>b_dirty := False, b_valid := True\<rparr>)"
    "memdisk s' = (memdisk s)(sec := view s sec)" "lk s' = lk s"
    by (simp_all add: s'_def)
  have bl: "\<exists>xs. blist (bcache s') xs"
    unfolding s' by (rule cache_ok_blist [OF assms(1)]) simp_all
  have y: "b_dev (bcache s' b) = 1" "b_sector (bcache s' b) = sec" "b_valid (bcache s' b)" "b_busy (bcache s' b)"
    "\<not> b_dirty (bcache s' b)" "b_data (bcache s' b) = view s sec"
    using h v by (simp_all add: s')
  have oth: "payload (bcache s' b') = payload (bcache s b')" if "b' \<noteq> b" for b'
    using that by (simp add: s')
  have disk: "memdisk s' x = memdisk s x" if "x \<noteq> sec" for x
    using that by (simp add: s')
  note u = upd_held [OF assms(1,2) oth y(1-3) disk notE [OF _ y(4)] bl s'(3)] and cl = clean_held [OF assms(1,2) oth]
  have "cache_ok s' B" "is_dirty s' = (is_dirty s)(sec := False)" "clean s' = clean s" "view s' = view s"
    using u cl y(4-6) by (simp_all add: fun_upd_idem)
  moreover have "holds s' b sec" "\<forall>b' sec'. b' \<noteq> b \<longrightarrow> holds s' b' sec' = holds s b' sec'"
    using assms(2) by (auto simp: holds_def s')
  moreover have "io_frame s s'" "whist s' = (sec, view s sec) # whist s" "procs s' = procs s"
    by (simp_all add: s'_def)
  ultimately show ?thesis
    using w s' by (intro exI [of _ s']) simp
qed

lemma brelse_law:
  assumes "cache_ok s B" "holds s b sec" "is_dirty s sec \<or> view s sec = memdisk s sec"
  shows "\<exists>s'. brelse b s = Ok () s' \<and> cache_ok s' (B - {b}) \<and> io_frame s s' \<and>
    memdisk s' = memdisk s \<and> whist s' = whist s \<and> procs s' = map (wake (ChBuf b)) (procs s) \<and>
    view s' = view s \<and> is_dirty s' = is_dirty s \<and> clean s' = (if is_dirty s sec then clean s else insert b (clean s)) \<and>
    (\<forall>b' sec'. b' \<noteq> b \<longrightarrow> holds s' b' sec' = holds s b' sec') \<and> (\<forall>b'. b' \<noteq> b \<longrightarrow> payload (bcache s' b') = payload (bcache s b'))"
proof -
  have h: "b_busy (bcache s b)" "b_dev (bcache s b) = 1" "b_sector (bcache s b) = sec" "b_valid (bcache s b)" "b < NBUF"
    using assms(2) by (simp_all add: holds_def)
  note v = holds_view [OF assms(1,2)] and d = holds_dirty [OF assms(1,2)]
  define c where "c = bmove b (bcache s)"
  define s' where "s' = s\<lparr>bcache := c(b := (c b)\<lparr>b_busy := False\<rparr>), procs := map (wake (ChBuf b)) (procs s)\<rparr>"
  have r: "brelse b s = Ok () s'"
    using assms(1) h by (simp add: brelse_Ok cache_ok_def s'_def c_def)
  have s': "bcache s' = c(b := (c b)\<lparr>b_busy := False\<rparr>)" "memdisk s' = memdisk s" "lk s' = lk s"
    by (simp_all add: s'_def)
  note p = payload_fields [OF bmove_payload [of b "bcache s"], folded c_def]
  have oth: "payload (bcache s' b') = payload (bcache s b')" if "b' \<noteq> b" for b'
    using that by (simp add: s' c_def)
  obtain xs where xs: "blist (bcache s) xs"
    using assms(1) by (auto simp: cache_ok_def)
  obtain as bs where "xs = as @ b # bs"
    using blist_less [OF xs, of b] h(5) split_list by metis
  then have "blist c (b # as @ bs)"
    using bmove_blist xs by (simp add: c_def)
  then have bl: "\<exists>xs. blist (bcache s') xs"
    using blist_upd [of c _ "(c b)\<lparr>b_busy := False\<rparr>" b] by (auto simp: s')
  have y: "b_dev (bcache s' b) = 1" "b_sector (bcache s' b) = sec" "b_valid (bcache s' b)" "\<not> b_busy (bcache s' b)"
    "b_dirty (bcache s' b) = is_dirty s sec" "b_data (bcache s' b) = view s sec"
    using h v d by (simp_all add: s' p)
  have disk: "memdisk s' x = memdisk s x" for x
    by (simp add: s')
  have coh: "b_data (bcache s' b) = memdisk s' sec" if "\<not> b_dirty (bcache s' b)"
    using that assms(3) y(5,6) by (simp add: s'(2))
  note u = upd_held [OF assms(1,2) oth y(1-3) disk coh bl s'(3)] and cl = clean_held [OF assms(1,2) oth]
  have "cache_ok s' (B - {b})" "view s' = view s" "is_dirty s' = is_dirty s"
    "clean s' = (if is_dirty s sec then clean s else insert b (clean s))"
    using u cl y(4-6) by (simp_all add: fun_upd_idem)
  moreover have "\<forall>b' sec'. b' \<noteq> b \<longrightarrow> holds s' b' sec' = holds s b' sec'"
    by (auto simp: holds_def s' p)
  moreover have "io_frame s s'" "whist s' = whist s" "procs s' = map (wake (ChBuf b)) (procs s)"
    by (simp_all add: s'_def)
  ultimately show ?thesis
    using r s'(2) oth by (intro exI [of _ s']) simp
qed

lemma bread_holds:
  assumes "cache_ok s B" "sec < disksize s"
    "case cached (bcache s) sec of Some b \<Rightarrow> b \<notin> B | None \<Rightarrow> clean s \<noteq> {}"
  shows "\<exists>b s'. bread 1 sec s = Ok b s' \<and> b \<notin> B \<and> cache_ok s' (insert b B) \<and> holds s' b sec \<and> io_frame s s' \<and>
    memdisk s' = memdisk s \<and> whist s' = whist s \<and> procs s' = procs s \<and>
    view s' = view s \<and> is_dirty s' = is_dirty s \<and> clean s' = clean s - {b} \<and>
    (\<forall>b'. b' \<noteq> b \<longrightarrow> bcache s' b' = bcache s b')"
proof -
  obtain b x where rd: "bread 1 sec s = Ok b (s\<lparr>bcache := (bcache s)(b := x)\<rparr>)" and b: "b < NBUF" "b \<notin> B"
    and ok: "cache_ok (s\<lparr>bcache := (bcache s)(b := x)\<rparr>) (insert b B)"
    and x: "b_busy x" "b_valid x" "b_dev x = 1" "b_sector x = sec" "b_data x = view s sec" "b_dirty x \<longleftrightarrow> is_dirty s sec"
    and c: "if is_dirty s sec then cached (bcache s) sec = Some b else b \<in> clean s"
    using bread_law [OF assms] by blast
  define s' where "s' = s\<lparr>bcache := (bcache s)(b := x)\<rparr>"
  have bc: "bcache s' = (bcache s)(b := x)" and m: "memdisk s' = memdisk s"
    by (simp_all add: s'_def)
  have bo: "bufs_ok (bcache s) (memdisk s) B" "bufs_ok (bcache s') (memdisk s') (insert b B)"
    using assms(1) ok by (simp_all add: cache_ok_def s'_def)
  have h: "holds s' b sec"
    using b x by (simp add: holds_def bc)
  have oth: "payload (bcache s' b') = payload (bcache s b')" if "b' \<noteq> b" for b'
    using that by (simp add: bc)
  have vic: "b \<notin> B \<and> \<not> b_dirty (bcache s b)" if "cached (bcache s) y = Some b" "y \<noteq> sec" for y
    using that b c cached_SomeD [of "bcache s" y b] cached_SomeD [of "bcache s" sec b]
    by (auto simp: clean_def split: if_splits)
  have "view s' y = view s y \<and> is_dirty s' y = is_dirty s y" for y
  proof (cases "y = sec")
    case True
    then show ?thesis
      using holds_view [OF ok [folded s'_def] h] holds_dirty [OF ok [folded s'_def] h] x by (simp add: bc)
  next
    case False
    have n: "b_dev (bcache s' b) = 1 \<Longrightarrow> y \<noteq> b_sector (bcache s' b)"
      using False x by (simp add: bc)
    have my: "memdisk s' y = memdisk s y"
      by (simp add: m)
    show ?thesis
      using view_upd_other [OF bo oth n refl my vic [OF _ False]] by blast
  qed
  then have "view s' = view s" "is_dirty s' = is_dirty s"
    by auto
  moreover have "clean s' = clean s - {b}"
    using x by (auto simp: clean_def bc)
  ultimately show ?thesis
    using rd b ok h by (intro exI [of _ b] exI [of _ s']) (simp add: s'_def)
qed

section \<open>The interface of the cache\<close>

text \<open>
  What the log and the file system rely on. \<open>inv s B\<close> says that the caller holds the
  buffers \<open>B\<close>, \<open>holds s b sec\<close> that \<open>b\<close> is the buffer of sector \<open>sec\<close>; \<open>view\<close> is what a
  reader of a sector gets, \<open>disk\<close> what is on the disk, and \<open>spare\<close> are the buffers that can
  be reused for another sector.
\<close>

locale block_store =
  fixes rd :: "nat \<Rightarrow> ('s, nat) kernel" and wr :: "nat \<Rightarrow> ('s, unit) kernel" and rel :: "nat \<Rightarrow> ('s, unit) kernel"
    and fetch :: "'s \<Rightarrow> nat \<Rightarrow> u8 list" and put :: "nat \<Rightarrow> u8 list \<Rightarrow> 's \<Rightarrow> 's"
    and inv :: "'s \<Rightarrow> nat set \<Rightarrow> bool" and holds :: "'s \<Rightarrow> nat \<Rightarrow> nat \<Rightarrow> bool" and size :: "'s \<Rightarrow> nat"
    and disk :: "'s \<Rightarrow> nat \<Rightarrow> u8 list" and view :: "'s \<Rightarrow> nat \<Rightarrow> u8 list" and dirty :: "'s \<Rightarrow> nat \<Rightarrow> bool"
    and spare :: "'s \<Rightarrow> nat set" and hist :: "'s \<Rightarrow> (nat \<times> u8 list) list" and frame :: "'s \<Rightarrow> 's \<Rightarrow> bool"
  assumes rd_law: "inv s B \<Longrightarrow> sec < size s \<Longrightarrow> \<forall>b\<in>B. \<not> holds s b sec \<Longrightarrow> dirty s sec \<or> spare s \<noteq> {} \<Longrightarrow>
      \<exists>b s'. rd sec s = Ok b s' \<and> b \<notin> B \<and> inv s' (insert b B) \<and> holds s' b sec \<and> frame s s' \<and>
        disk s' = disk s \<and> hist s' = hist s \<and> view s' = view s \<and> dirty s' = dirty s \<and> spare s' = spare s - {b} \<and>
        (\<forall>b' sec'. b' \<noteq> b \<longrightarrow> holds s' b' sec' = holds s b' sec') \<and> (dirty s sec \<longrightarrow> b \<notin> spare s)"
    and fetch_law: "inv s B \<Longrightarrow> holds s b sec \<Longrightarrow> fetch s b = view s sec"
    and put_law: "inv s B \<Longrightarrow> holds s b sec \<Longrightarrow>
      inv (put b d s) B \<and> frame s (put b d s) \<and> disk (put b d s) = disk s \<and> hist (put b d s) = hist s \<and>
      view (put b d s) = (view s)(sec := d) \<and> dirty (put b d s) = dirty s \<and> spare (put b d s) = spare s \<and>
      (\<forall>b' sec'. holds (put b d s) b' sec' = holds s b' sec')"
    and wr_law: "inv s B \<Longrightarrow> holds s b sec \<Longrightarrow> sec < size s \<Longrightarrow>
      \<exists>s'. wr b s = Ok () s' \<and> inv s' B \<and> frame s s' \<and>
        disk s' = (disk s)(sec := view s sec) \<and> hist s' = (sec, view s sec) # hist s \<and>
        view s' = view s \<and> dirty s' = (dirty s)(sec := False) \<and> spare s' = spare s \<and>
        (\<forall>b' sec'. holds s' b' sec' = holds s b' sec')"
    and rel_law: "inv s B \<Longrightarrow> holds s b sec \<Longrightarrow> dirty s sec \<or> view s sec = disk s sec \<Longrightarrow>
      \<exists>s'. rel b s = Ok () s' \<and> inv s' (B - {b}) \<and> frame s s' \<and> disk s' = disk s \<and> hist s' = hist s \<and>
        view s' = view s \<and> dirty s' = dirty s \<and> spare s' = (if dirty s sec then spare s else insert b (spare s)) \<and>
        (\<forall>b' sec'. b' \<noteq> b \<longrightarrow> holds s' b' sec' = holds s b' sec')"
    and holds_sector: "holds s b sec \<Longrightarrow> holds s b sec' \<Longrightarrow> sec = sec'"
    and frame_size: "frame s s' \<Longrightarrow> size s' = size s"
    and frame_trans: "frame s s' \<Longrightarrow> frame s' s'' \<Longrightarrow> frame s s''"
    and unheld_view: "inv s B \<Longrightarrow> \<forall>b\<in>B. \<not> holds s b sec \<Longrightarrow> \<not> dirty s sec \<Longrightarrow> view s sec = disk s sec"
begin

lemma clean_view: "inv s {} \<Longrightarrow> \<not> dirty s sec \<Longrightarrow> view s sec = disk s sec"
  using unheld_view [of s "{}"] by simp

text \<open>Reading a block and releasing it.\<close>

lemma read_block:
  assumes ok: "inv s B" and sec: "sec < size s" and nh: "\<forall>b\<in>B. \<not> holds s b sec" and av: "dirty s sec \<or> spare s \<noteq> {}"
  shows "\<exists>b s' s''. rd sec s = Ok b s' \<and> fetch s' b = view s sec \<and> frame s s' \<and> rel b s' = Ok () s'' \<and>
    inv s'' B \<and> frame s s'' \<and> disk s'' = disk s \<and> hist s'' = hist s \<and>
    view s'' = view s \<and> dirty s'' = dirty s \<and> spare s \<subseteq> spare s'' \<and> b \<notin> B \<and>
    (\<forall>b' sec'. b' \<noteq> b \<longrightarrow> holds s'' b' sec' = holds s b' sec')"
proof -
  obtain b s1 where 1: "rd sec s = Ok b s1" "b \<notin> B" "inv s1 (insert b B)" "holds s1 b sec" "frame s s1"
    "disk s1 = disk s" "hist s1 = hist s" "view s1 = view s" "dirty s1 = dirty s" "spare s1 = spare s - {b}"
    "\<And>b' sec'. b' \<noteq> b \<Longrightarrow> holds s1 b' sec' = holds s b' sec'" "dirty s sec \<Longrightarrow> b \<notin> spare s"
    using rd_law [OF ok sec nh av] by blast
  have "dirty s1 sec \<or> view s1 sec = disk s1 sec"
    using unheld_view [OF ok nh] by (auto simp: 1)
  from rel_law [OF 1(3,4) this]
  obtain s2 where 2: "rel b s1 = Ok () s2" "inv s2 (insert b B - {b})" "frame s1 s2" "disk s2 = disk s1" "hist s2 = hist s1"
    "view s2 = view s1" "dirty s2 = dirty s1" "spare s2 = (if dirty s1 sec then spare s1 else insert b (spare s1))"
    "\<And>b' sec'. b' \<noteq> b \<Longrightarrow> holds s2 b' sec' = holds s1 b' sec'"
    by blast
  have "insert b B - {b} = B"
    using 1(2) by simp
  moreover have "spare s \<subseteq> spare s2"
    using 2(8) 1(9,10,12) by auto
  moreover have "fetch s1 b = view s sec"
    using fetch_law [OF 1(3,4)] 1(8) by simp
  ultimately show ?thesis
    using 1 2 frame_trans [OF 1(5) 2(3)] by - (rule exI [of _ b], rule exI [of _ s1], rule exI [of _ s2], simp)
qed

text \<open>Reading a block, changing it, writing it through and releasing it.\<close>

lemma update_block:
  assumes ok: "inv s B" and sec: "sec < size s" and nh: "\<forall>b\<in>B. \<not> holds s b sec" and av: "dirty s sec \<or> spare s \<noteq> {}"
  shows "\<exists>b s' s''. rd sec s = Ok b s' \<and> fetch s' b = view s sec \<and>
    bind (wr b) (\<lambda>_. rel b) (put b d s') = Ok () s'' \<and>
    inv s'' B \<and> frame s s'' \<and> disk s'' = (disk s)(sec := d) \<and> hist s'' = (sec, d) # hist s \<and>
    view s'' = (view s)(sec := d) \<and> dirty s'' = (dirty s)(sec := False) \<and> spare s \<subseteq> spare s'' \<and> spare s'' \<noteq> {} \<and>
    b \<notin> B \<and> (\<forall>b' sec'. b' \<noteq> b \<longrightarrow> holds s'' b' sec' = holds s b' sec')"
proof -
  obtain b s1 where 1: "rd sec s = Ok b s1" "b \<notin> B" "inv s1 (insert b B)" "holds s1 b sec" "frame s s1"
    "disk s1 = disk s" "hist s1 = hist s" "view s1 = view s" "dirty s1 = dirty s" "spare s1 = spare s - {b}"
    "\<And>b' sec'. b' \<noteq> b \<Longrightarrow> holds s1 b' sec' = holds s b' sec'"
    using rd_law [OF ok sec nh av] by blast
  have p: "inv (put b d s1) (insert b B)" "frame s1 (put b d s1)" "disk (put b d s1) = disk s" "hist (put b d s1) = hist s"
    "view (put b d s1) = (view s)(sec := d)" "dirty (put b d s1) = dirty s" "spare (put b d s1) = spare s - {b}"
    "\<And>b' sec'. holds (put b d s1) b' sec' = holds s1 b' sec'"
    using put_law [OF 1(3,4), of d] 1(6-10) by simp_all
  have h2: "holds (put b d s1) b sec" and sz: "sec < size (put b d s1)"
    using p(8) 1(4) sec frame_size [OF p(2)] frame_size [OF 1(5)] by simp_all
  obtain s3 where 3: "wr b (put b d s1) = Ok () s3" "inv s3 (insert b B)" "frame (put b d s1) s3" "disk s3 = (disk s)(sec := d)"
    "hist s3 = (sec, d) # hist s" "view s3 = (view s)(sec := d)" "dirty s3 = (dirty s)(sec := False)" "spare s3 = spare s - {b}"
    "\<And>b' sec'. holds s3 b' sec' = holds s1 b' sec'"
    using wr_law [OF p(1) h2 sz] unfolding p by auto
  have h3: "holds s3 b sec" "dirty s3 sec \<or> view s3 sec = disk s3 sec"
    using 3 1(4) by simp_all
  obtain s4 where 4: "rel b s3 = Ok () s4" "inv s4 (insert b B - {b})" "frame s3 s4" "disk s4 = disk s3" "hist s4 = hist s3"
    "view s4 = view s3" "dirty s4 = dirty s3" "spare s4 = insert b (spare s3)"
    "\<And>b' sec'. b' \<noteq> b \<Longrightarrow> holds s4 b' sec' = holds s3 b' sec'"
    using rel_law [OF 3(2) h3] unfolding 3(7) by auto
  have "insert b B - {b} = B"
    using 1(2) by simp
  moreover have "frame s s4"
    using frame_trans 1(5) p 3(3) 4(3) by blast
  moreover have "fetch s1 b = view s sec"
    using fetch_law [OF 1(3,4)] 1(8) by simp
  ultimately show ?thesis
    using 1 3 4 by - (rule exI [of _ b], rule exI [of _ s1], rule exI [of _ s4], simp, blast)
qed


text \<open>Copying a block that is not dirty to another one, as recovery does: both are held meanwhile.\<close>

lemma copy_block:
  assumes ok: "inv s {}" and sec: "src < size s" "dst < size s" and ne: "src \<noteq> dst" and cl: "\<not> dirty s src"
    and av: "spare s \<noteq> {}" and av2: "dirty s dst \<or> (\<exists>a\<in>spare s. \<exists>b\<in>spare s. a \<noteq> b)"
  shows "\<exists>l d s1 s2 s'. rd src s = Ok l s1 \<and> rd dst s1 = Ok d s2 \<and> fetch s2 l = disk s src \<and>
    bind (wr d) (\<lambda>_. bind (rel l) (\<lambda>_. rel d)) (put d (disk s src) s2) = Ok () s' \<and>
    inv s' {} \<and> frame s s' \<and> disk s' = (disk s)(dst := disk s src) \<and> hist s' = (dst, disk s src) # hist s \<and>
    dirty s' = (dirty s)(dst := False) \<and> spare s \<subseteq> spare s'"
proof -
  obtain l s1 where 1: "rd src s = Ok l s1" "inv s1 {l}" "holds s1 l src" "frame s s1"
    "disk s1 = disk s" "hist s1 = hist s" "view s1 = view s" "dirty s1 = dirty s" "spare s1 = spare s - {l}"
    using rd_law [OF ok sec(1)] av by auto
  have v: "view s src = disk s src"
    by (rule clean_view [OF ok cl])
  have "dst < size s1" "dirty s1 dst \<or> spare s1 \<noteq> {}"
    using frame_size [OF 1(4)] sec(2) av2 by (auto simp: 1)
  moreover have "\<forall>b\<in>{l}. \<not> holds s1 b dst"
    using holds_sector [OF 1(3)] ne by auto
  ultimately obtain d s2 where 2: "rd dst s1 = Ok d s2" "d \<noteq> l" "inv s2 {d, l}" "holds s2 d dst" "frame s1 s2"
    "disk s2 = disk s" "hist s2 = hist s" "view s2 = view s" "dirty s2 = dirty s" "spare s2 = spare s - {l} - {d}"
    "\<And>sec'. holds s2 l sec' = holds s1 l sec'"
    using rd_law [OF 1(2), of dst] unfolding 1(5-9) by auto
  let ?s2 = "put d (disk s src) s2"
  have p: "inv ?s2 {d, l}" "frame s2 ?s2" "disk ?s2 = disk s" "hist ?s2 = hist s"
    "view ?s2 = (view s)(dst := disk s src)" "dirty ?s2 = dirty s" "spare ?s2 = spare s - {l} - {d}"
    "\<And>b' sec'. holds ?s2 b' sec' = holds s2 b' sec'"
    using put_law [OF 2(3,4), of "disk s src"] 2(6-10) by simp_all
  have h2: "holds ?s2 d dst" and sz: "dst < size ?s2"
    using p(8) 2(4) sec frame_size [OF p(2)] frame_size [OF 1(4)] frame_size [OF 2(5)] by simp_all
  obtain s3 where 3: "wr d ?s2 = Ok () s3" "inv s3 {d, l}" "frame ?s2 s3" "disk s3 = (disk s)(dst := disk s src)"
    "hist s3 = (dst, disk s src) # hist s" "view s3 = (view s)(dst := disk s src)" "dirty s3 = (dirty s)(dst := False)"
    "spare s3 = spare s - {l} - {d}" "\<And>b' sec'. holds s3 b' sec' = holds s2 b' sec'"
    using wr_law [OF p(1) h2 sz] unfolding p by auto
  have h3: "holds s3 l src" "dirty s3 src \<or> view s3 src = disk s3 src"
    using 3 2(11) 1(3) v ne by simp_all
  obtain s4 where 4: "rel l s3 = Ok () s4" "inv s4 ({d, l} - {l})" "frame s3 s4" "disk s4 = disk s3" "hist s4 = hist s3"
    "view s4 = view s3" "dirty s4 = dirty s3" "spare s4 = insert l (spare s3)" "holds s4 d dst"
    using rel_law [OF 3(2) h3] 3(7,9) 2(2,4) cl by auto
  have h4: "dirty s4 dst \<or> view s4 dst = disk s4 dst"
    by (simp add: 4 3)
  obtain s5 where 5: "rel d s4 = Ok () s5" "inv s5 ({d, l} - {l} - {d})" "frame s4 s5" "disk s5 = disk s4" "hist s5 = hist s4"
    "dirty s5 = dirty s4" "spare s5 = insert d (spare s4)"
    using rel_law [OF 4(2,9) h4] 4(7) 3(7) by auto
  have i: "{d, l} - {l} - {d} = {}"
    by auto
  have f: "fetch s2 l = disk s src"
    using fetch_law [OF 2(3), of l src] 2(8,11) 1(3) v by simp
  have fr: "frame s s5"
    using frame_trans 1(4) 2(5) p(2) 3(3) 4(3) 5(3) by blast
  have "bind (wr d) (\<lambda>_. bind (rel l) (\<lambda>_. rel d)) ?s2 = Ok () s5"
    using 3(1) 4(1) 5(1) by simp
  moreover have "disk s5 = (disk s)(dst := disk s src)" "hist s5 = (dst, disk s src) # hist s" "dirty s5 = (dirty s)(dst := False)"
    "spare s \<subseteq> spare s5"
    by (auto simp: 5 4 3)
  ultimately show ?thesis
    using 1(1) 2(1) f fr 5(2) [unfolded i] by blast
qed

end

section \<open>The cache implements the interface\<close>

definition held :: "'a kbio_scheme \<Rightarrow> nat set \<Rightarrow> bool" where
  "held s B \<longleftrightarrow> cache_ok s B \<and> (\<forall>b\<in>B. \<exists>sec. holds s b sec)"

definition buf_data :: "'a kbio_scheme \<Rightarrow> nat \<Rightarrow> u8 list" where
  "buf_data s b = b_data (bcache s b)"

definition put_data :: "nat \<Rightarrow> u8 list \<Rightarrow> 'a kbio_scheme \<Rightarrow> 'a kbio_scheme" where
  "put_data b d s = s\<lparr>bcache := (bcache s)(b := (bcache s b)\<lparr>b_data := d\<rparr>)\<rparr>"

lemma io_frame_put [simp]: "io_frame s (put_data b d s)"
  by (simp add: put_data_def)

interpretation bc: block_store "bread 1" bwrite brelse buf_data put_data held holds disksize memdisk view is_dirty clean whist io_frame
proof
  fix s :: "'a kbio_scheme" and B :: "nat set" and sec b :: nat and d
  assume h: "held s B"
  then have ok: "cache_ok s B" and all: "\<forall>b\<in>B. \<exists>sec. holds s b sec"
    by (simp_all add: held_def)
  show "\<exists>b s'. bread 1 sec s = Ok b s' \<and> b \<notin> B \<and> held s' (insert b B) \<and> holds s' b sec \<and> io_frame s s' \<and>
      memdisk s' = memdisk s \<and> whist s' = whist s \<and> view s' = view s \<and> is_dirty s' = is_dirty s \<and> clean s' = clean s - {b} \<and>
      (\<forall>b' sec'. b' \<noteq> b \<longrightarrow> holds s' b' sec' = holds s b' sec') \<and> (is_dirty s sec \<longrightarrow> b \<notin> clean s)"
    if lt: "sec < disksize s" and nh: "\<forall>b\<in>B. \<not> holds s b sec" and av: "is_dirty s sec \<or> clean s \<noteq> {}"
  proof -
    have nB: "b \<notin> B" if "cached (bcache s) sec = Some b" for b
    proof
      assume b: "b \<in> B"
      then obtain sec' where "holds s b sec'"
        using all by blast
      then have "holds s b sec"
        using cached_SomeD [OF that] by (simp add: holds_def)
      with b nh show False
        by blast
    qed
    have "clean s \<noteq> {}" if "cached (bcache s) sec = None"
      using that av by (auto simp: is_dirty_def)
    with nB have "case cached (bcache s) sec of Some b \<Rightarrow> b \<notin> B | None \<Rightarrow> clean s \<noteq> {}"
      by (simp split: option.split)
    from bread_holds [OF ok lt this] obtain b s' where r: "bread 1 sec s = Ok b s'" "b \<notin> B" "cache_ok s' (insert b B)" "holds s' b sec"
      "io_frame s s'" "memdisk s' = memdisk s" "whist s' = whist s" "view s' = view s" "is_dirty s' = is_dirty s" "clean s' = clean s - {b}"
      "\<And>b'. b' \<noteq> b \<Longrightarrow> bcache s' b' = bcache s b'"
      by blast
    have hs: "holds s' b' sec' = holds s b' sec'" if "b' \<noteq> b" for b' sec'
      using r(11) [OF that] by (simp add: holds_def)
    have "\<exists>sec. holds s' b' sec" if "b' \<in> insert b B" for b'
      using that all hs r(2,4) by (cases "b' = b") auto
    then have "held s' (insert b B)"
      using r(3) by (auto simp: held_def)
    moreover have "b \<notin> clean s" if "is_dirty s sec"
    proof -
      obtain a where a: "a < NBUF" "b_dev (bcache s a) = 1" "b_sector (bcache s a) = sec" "b_dirty (bcache s a)"
        using \<open>is_dirty s sec\<close> cached_SomeD [of "bcache s" sec] by (auto simp: is_dirty_def)
      have "a = b"
      proof (rule ccontr)
        assume "a \<noteq> b"
        then have "bcache s' a = bcache s a"
          by (rule r(11))
        then show False
          using a r(3,4) \<open>a \<noteq> b\<close> unfolding cache_ok_def bufs_ok_def holds_def by metis
      qed
      then show ?thesis
        using a(4) by (simp add: clean_def)
    qed
    ultimately show ?thesis
      using r hs by blast
  qed
  show "buf_data s b = view s sec" if "holds s b sec"
    using holds_view [OF ok that] by (simp add: buf_data_def)
  show "held (put_data b d s) B \<and> io_frame s (put_data b d s) \<and> memdisk (put_data b d s) = memdisk s \<and>
      whist (put_data b d s) = whist s \<and> view (put_data b d s) = (view s)(sec := d) \<and>
      is_dirty (put_data b d s) = is_dirty s \<and> clean (put_data b d s) = clean s \<and>
      (\<forall>b' sec'. holds (put_data b d s) b' sec' = holds s b' sec')"
    if hb: "holds s b sec"
  proof -
    note l = data_law [OF ok hb put_data_def]
    have hs: "holds (put_data b d s) b' sec' = holds s b' sec'" for b' sec'
      by (auto simp: holds_def put_data_def)
    then show ?thesis
      using l(1,3-5) all by (auto simp: held_def put_data_def)
  qed
  show "\<exists>s'. bwrite b s = Ok () s' \<and> held s' B \<and> io_frame s s' \<and> memdisk s' = (memdisk s)(sec := view s sec) \<and>
      whist s' = (sec, view s sec) # whist s \<and> view s' = view s \<and> is_dirty s' = (is_dirty s)(sec := False) \<and>
      clean s' = clean s \<and> (\<forall>b' sec'. holds s' b' sec' = holds s b' sec')"
    if hb: "holds s b sec" and lt: "sec < disksize s"
  proof -
    obtain s' where w: "bwrite b s = Ok () s'" "cache_ok s' B" "holds s' b sec" "io_frame s s'"
      "memdisk s' = (memdisk s)(sec := view s sec)" "whist s' = (sec, view s sec) # whist s"
      "view s' = view s" "is_dirty s' = (is_dirty s)(sec := False)" "clean s' = clean s"
      "\<And>b' sec'. b' \<noteq> b \<Longrightarrow> holds s' b' sec' = holds s b' sec'"
      using bwrite_law [OF ok hb lt] by blast
    have hs: "holds s' b' sec' = holds s b' sec'" for b' sec'
      using w(3,10) hb by (cases "b' = b") (auto simp: holds_def)
    then have "held s' B"
      using w(2) all by (simp add: held_def)
    then show ?thesis
      using w hs by blast
  qed
  show "\<exists>s'. brelse b s = Ok () s' \<and> held s' (B - {b}) \<and> io_frame s s' \<and> memdisk s' = memdisk s \<and> whist s' = whist s \<and>
      view s' = view s \<and> is_dirty s' = is_dirty s \<and> clean s' = (if is_dirty s sec then clean s else insert b (clean s)) \<and>
      (\<forall>b' sec'. b' \<noteq> b \<longrightarrow> holds s' b' sec' = holds s b' sec')"
    if hb: "holds s b sec" and c: "is_dirty s sec \<or> view s sec = memdisk s sec"
  proof -
    obtain s' where r: "brelse b s = Ok () s'" "cache_ok s' (B - {b})" "io_frame s s'" "memdisk s' = memdisk s" "whist s' = whist s"
      "view s' = view s" "is_dirty s' = is_dirty s" "clean s' = (if is_dirty s sec then clean s else insert b (clean s))"
      "\<And>b' sec'. b' \<noteq> b \<Longrightarrow> holds s' b' sec' = holds s b' sec'"
      using brelse_law [OF ok hb c] by blast
    then have "held s' (B - {b})"
      using all by (auto simp: held_def)
    then show ?thesis
      using r by blast
  qed
next
  show "sec = sec'" if "holds s b sec" "holds s b sec'" for s :: "'a kbio_scheme" and b sec sec'
    using that by (simp add: holds_def)
  show "disksize s' = disksize s" if "io_frame s s'" for s s' :: "'a kbio_scheme"
    using io_frame_fields(2) [OF that] .
  show "io_frame s s''" if "io_frame s s'" "io_frame s' s''" for s s' s'' :: "'a kbio_scheme"
    using io_frame_trans [OF that] .
  show "view s sec = memdisk s sec" if "held s B" "\<forall>b\<in>B. \<not> holds s b sec" "\<not> is_dirty s sec" for s :: "'a kbio_scheme" and B sec
  proof (rule view_clean [of s B])
    show "bufs_ok (bcache s) (memdisk s) B" "\<not> is_dirty s sec"
      using that by (simp_all add: held_def cache_ok_def)
    fix b assume "cached (bcache s) sec = Some b"
    then have "b_sector (bcache s b) = sec"
      using cached_SomeD by blast
    then show "b \<notin> B"
      using that(1,2) by (auto simp: held_def holds_def)
  qed
qed

section \<open>Properties\<close>

text \<open>A machine whose cache has just been initialised, over a disk of zeros.\<close>

definition zero_buf :: buf where
  "zero_buf = \<lparr>b_busy = False, b_valid = False, b_dirty = False, b_dev = 0, b_sector = 0, b_prev = NBUF, b_next = NBUF,
     b_data = replicate BSIZE 0\<rparr>"

definition demo_kbio :: kbio where
  "demo_kbio = kvm.extend (kmemory.extend demo_uvm (kvm.fields 0 0))
     (kbio.fields (fold blink [0..<NBUF] (\<lambda>_. zero_buf)) (\<lambda>_. replicate BSIZE 0) 1000 [])"

lemma demo_kbio_fields [simp]:
  "lk demo_kbio = no_locks" "memdisk demo_kbio = (\<lambda>_. replicate BSIZE 0)" "disksize demo_kbio = 1000" "whist demo_kbio = []"
  by (simp_all add: demo_kbio_def kvm.defs kmemory.defs kbio.defs)

lemma fresh_cache:
  fixes s :: "'a kbio_scheme"
  assumes "blist (bcache s) xs" "\<And>b. b < NBUF \<Longrightarrow> \<not> b_busy (bcache s b) \<and> \<not> b_valid (bcache s b) \<and> \<not> b_dirty (bcache s b) \<and> b_dev (bcache s b) \<noteq> 1"
    "lk_ok (lk s)" "\<not> locked (lk s) Lbcache" "\<not> locked (lk s) Lptable"
  shows "held s {}" "clean s = {..<NBUF}" "\<not> is_dirty s sec" "view s sec = memdisk s sec" "cached (bcache s) sec = None"
proof -
  have b: "bufs_ok (bcache s) (memdisk s) {}"
    using assms(2) by (auto simp: bufs_ok_def)
  then show h: "held s {}"
    using assms by (auto simp: held_def cache_ok_def)
  show "clean s = {..<NBUF}"
    using assms(2) by (auto simp: clean_def)
  show "cached (bcache s) sec = None"
    using assms(2) by (simp add: cached_None)
  then show "\<not> is_dirty s sec" "view s sec = memdisk s sec"
    by (simp_all add: is_dirty_def view_def)
qed

lemma binit_cache:
  assumes "c0 = (c(NBUF := (c NBUF)\<lparr>b_prev := NBUF, b_next := NBUF\<rparr>))"
  shows "blist (fold blink [0..<NBUF] c0) (rev [0..<NBUF])"
    "b < NBUF \<Longrightarrow> payload (fold blink [0..<NBUF] c0 b) = payload ((c b)\<lparr>b_dev := - 1\<rparr>)"
proof -
  have "nexts c0 NBUF = NBUF" "prevs c0 NBUF = NBUF"
    by (simp_all add: assms nexts_def prevs_def)
  note a = blink_all [OF this order_refl]
  then show "blist (fold blink [0..<NBUF] c0) (rev [0..<NBUF])"
    unfolding blist_def by (simp add: lessThan_atLeast0 del: seg.simps upt_rec_numeral)
  show "b < NBUF \<Longrightarrow> payload (fold blink [0..<NBUF] c0 b) = payload ((c b)\<lparr>b_dev := - 1\<rparr>)"
    using a by (simp add: assms del: upt_rec_numeral)
qed

lemma binit_run: "\<exists>s. binit t = Ok () s \<and> blist (bcache s) (rev [0..<NBUF])"
proof -
  define c where "c = (bcache t)(NBUF := (bcache t NBUF)\<lparr>b_prev := NBUF, b_next := NBUF\<rparr>)"
  obtain k where "binit t = Ok () (t\<lparr>lk := k, bcache := fold blink [0..<NBUF] c\<rparr>)"
    unfolding binit_def initlock_def by (simp add: c_def del: upt_rec_numeral)
  then show ?thesis
    using binit_cache(1) [OF c_def] by (simp del: upt_rec_numeral)
qed

lemma demo_held: "held demo_kbio {}" "clean demo_kbio = {..<NBUF}" "\<not> is_dirty demo_kbio sec" "view demo_kbio sec = replicate BSIZE 0"
  "cached (bcache demo_kbio) sec = None"
  and demo_blist: "blist (bcache demo_kbio) (rev [0..<NBUF])"
  and demo_payload: "b < NBUF \<Longrightarrow> payload (bcache demo_kbio b) = payload (zero_buf\<lparr>b_dev := - 1\<rparr>)"
proof -
  have z: "(\<lambda>_. zero_buf) = (\<lambda>_. zero_buf)(NBUF := ((\<lambda>_. zero_buf) NBUF)\<lparr>b_prev := NBUF, b_next := NBUF\<rparr>)"
    by (simp add: fun_eq_iff zero_buf_def)
  have c: "bcache demo_kbio = fold blink [0..<NBUF] (\<lambda>_. zero_buf)"
    by (simp add: demo_kbio_def kbio.defs kvm.defs kmemory.defs del: upt_rec_numeral)
  note b = binit_cache [OF z, folded c]
  show "blist (bcache demo_kbio) (rev [0..<NBUF])"
    by (rule b(1))
  show "b < NBUF \<Longrightarrow> payload (bcache demo_kbio b) = payload (zero_buf\<lparr>b_dev := - 1\<rparr>)"
    by (rule b(2))
  have "\<not> b_busy (bcache demo_kbio b) \<and> \<not> b_valid (bcache demo_kbio b) \<and> \<not> b_dirty (bcache demo_kbio b) \<and> b_dev (bcache demo_kbio b) \<noteq> 1"
    if "b < NBUF" for b
    using payload_fields [OF b(2) [OF that]] by (simp add: zero_buf_def)
  from fresh_cache [OF b(1) this] show "held demo_kbio {}" "clean demo_kbio = {..<NBUF}" "\<not> is_dirty demo_kbio sec" "view demo_kbio sec = replicate BSIZE 0"
    "cached (bcache demo_kbio) sec = None"
    by simp_all
qed

text \<open>
  C30: the linked list of buffers is a list in the order of use. \<^verbatim>\<open>binit\<close> threads all buffers.
  When the list is \<open>xs\<close>, \<^verbatim>\<open>bget\<close> of a sector that has a free buffer returns that buffer; of a
  sector without one it takes the least recently used buffer that is neither in use nor
  dirty, and panics if there is none; \<^verbatim>\<open>brelse\<close> moves the buffer to the front and keeps the
  order and the contents of the others.
\<close>

theorem bcache_lru:
  fixes s :: "'a kbio_scheme"
  assumes "blist (bcache s) xs" and "lk_ok (lk s)" and "\<not> locked (lk s) Lbcache" and "\<not> locked (lk s) Lptable"
  shows "(\<exists>s0. binit t = Ok () s0 \<and> blist (bcache s0) (rev [0..<NBUF])) \<and>
    (case find (\<lambda>b. b_dev (bcache s b) = dev \<and> b_sector (bcache s b) = sec) xs of
       Some b \<Rightarrow> b_busy (bcache s b) \<or> (\<exists>s'. bget dev sec s = Ok b s' \<and> blist (bcache s') xs)
     | None \<Rightarrow>
         (case find (\<lambda>b. \<not> b_busy (bcache s b) \<and> \<not> b_dirty (bcache s b)) (rev xs) of
            Some b \<Rightarrow> (\<exists>s'. bget dev sec s = Ok b s' \<and> blist (bcache s') xs \<and>
              b_dev (bcache s' b) = dev \<and> b_sector (bcache s' b) = sec \<and> \<not> b_valid (bcache s' b))
          | None \<Rightarrow> bget dev sec s = Panic ''bget: no buffers'')) \<and>
    (\<forall>b < NBUF. b_busy (bcache s b) \<longrightarrow>
      (\<exists>s'. brelse b s = Ok () s' \<and> blist (bcache s') (b # remove1 b xs) \<and>
        payload (bcache s' b) = payload ((bcache s b)\<lparr>b_busy := False\<rparr>) \<and>
        (\<forall>b'. b' \<noteq> b \<longrightarrow> payload (bcache s' b') = payload (bcache s b'))))"
proof -
  have i: "\<exists>s0. binit t = Ok () s0 \<and> blist (bcache s0) (rev [0..<NBUF])"
    using binit_run [of t] by blast
  have r: "\<exists>s'. brelse b s = Ok () s' \<and> blist (bcache s') (b # remove1 b xs) \<and>
        payload (bcache s' b) = payload ((bcache s b)\<lparr>b_busy := False\<rparr>) \<and>
        (\<forall>b'. b' \<noteq> b \<longrightarrow> payload (bcache s' b') = payload (bcache s b'))"
    if "b < NBUF" "b_busy (bcache s b)" for b
  proof -
    have "b \<in> set xs"
      using blist_less [OF assms(1)] that(1) by simp
    then obtain as bs where x: "xs = as @ b # bs" "b \<notin> set as"
      using split_list_first by fast
    let ?c = "bmove b (bcache s)"
    have "blist ?c (b # as @ bs)"
      using bmove_blist assms(1) x by simp
    then have "blist (?c(b := (?c b)\<lparr>b_busy := False\<rparr>)) (b # remove1 b xs)"
      using blist_upd x by (simp add: remove1_append)
    moreover have "payload ((?c b)\<lparr>b_busy := False\<rparr>) = payload ((bcache s b)\<lparr>b_busy := False\<rparr>)"
      using bmove_payload [of b "bcache s" b] by (cases "?c b", cases "bcache s b") (simp add: payload_def)
    ultimately show ?thesis
      using brelse_Ok [OF that(2) assms(2-4)] by simp
  qed
  note g = bget_run [OF assms(1-3), of dev sec] and bu = blist_upd [OF assms(1)]
  show ?thesis
    using i r unfolding g by (auto simp: bu split: option.split)
qed

theorem bcache_lru_witness:
  "\<exists>s'. bget 1 7 demo_kbio = Ok 0 s' \<and> b_sector (bcache s' 0) = 7"
proof -
  have "bufs_ok (bcache demo_kbio) (memdisk demo_kbio) {}"
    using demo_held(1) by (simp add: held_def cache_ok_def)
  from find_cached [OF this demo_blist, of 7]
  have f: "find (\<lambda>b. b_dev (bcache demo_kbio b) = 1 \<and> b_sector (bcache demo_kbio b) = 7) (rev [0..<NBUF]) = None"
    by (simp only: demo_held(5))
  have "0 \<in> clean demo_kbio"
    by (simp add: demo_held(2))
  then have g: "find (\<lambda>b. \<not> b_busy (bcache demo_kbio b) \<and> \<not> b_dirty (bcache demo_kbio b)) (rev (rev [0..<NBUF])) = Some 0"
    by (simp add: clean_def upt_conv_Cons)
  show ?thesis
    using bcache_lru [OF demo_blist, of demo_kbio 1 7, unfolded f g option.case] by (auto simp del: upt_rec_numeral)
qed

text \<open>
  C31: the cache and the disk agree. While no buffer is in use, a block that can be had is
  read as the last thing written to it, the data on the disk unless a dirty buffer holds
  newer; after the holder has stored \<open>d\<close> and written it, the disk has \<open>d\<close> in that sector
  and is otherwise unchanged, and once released the block is read as \<open>d\<close> and every other
  block as before.
\<close>

theorem cache_coherent:
  fixes s :: "'a kbio_scheme"
  assumes "held s {}" and "sec < disksize s" and "is_dirty s sec \<or> clean s \<noteq> {}"
  shows "\<exists>b s1 s2. bread 1 sec s = Ok b s1 \<and> b_data (bcache s1 b) = view s sec \<and>
     (\<not> is_dirty s sec \<longrightarrow> view s sec = memdisk s sec) \<and>
     andthen (bwrite b) (brelse b) (put_data b d s1) = Ok () s2 \<and> held s2 {} \<and>
     memdisk s2 = (memdisk s)(sec := d) \<and> view s2 = (view s)(sec := d) \<and> \<not> is_dirty s2 sec"
proof -
  obtain b s1 s2 where "bread 1 sec s = Ok b s1" "buf_data s1 b = view s sec" "bind (bwrite b) (\<lambda>_. brelse b) (put_data b d s1) = Ok () s2"
    "held s2 {}" "memdisk s2 = (memdisk s)(sec := d)" "view s2 = (view s)(sec := d)" "is_dirty s2 = (is_dirty s)(sec := False)"
    using bc.update_block [OF assms(1,2) _ assms(3), of d] by blast
  then show ?thesis
    using bc.clean_view [OF assms(1), of sec] by (auto simp: buf_data_def)
qed

theorem cache_coherent_witness:
  "\<exists>b s1 s2. bread 1 3 demo_kbio = Ok b s1 \<and> b_data (bcache s1 b) = replicate BSIZE 0 \<and>
     andthen (bwrite b) (brelse b) (put_data b (replicate BSIZE 1) s1) = Ok () s2 \<and> memdisk s2 3 = replicate BSIZE 1"
proof -
  have "(3 :: nat) < disksize demo_kbio" "is_dirty demo_kbio 3 \<or> clean demo_kbio \<noteq> {}"
    by (simp_all add: demo_held(2) lessThan_empty_iff)
  from cache_coherent [OF demo_held(1) this, of "replicate BSIZE 1", unfolded demo_held(4)] show ?thesis
    by (elim exE conjE) (intro exI conjI, assumption+, simp only: fun_upd_same)
qed

end
