(* ===== verification/Log.thy ===== *)
theory Log
  imports Bcache
begin

text \<open>
  The redo log of \<^verbatim>\<open>log.c\<close>, with \<^verbatim>\<open>readsb\<close> of \<^verbatim>\<open>fs.c\<close>, on which it depends. Structures on
  disk are read from and written to the bytes of a block in little-endian order. An
  access outside an array, which C leaves undefined, is the outcome
  \<open>Panic ''undefined''\<close>.
\<close>

section \<open>Structures in blocks\<close>

definition rd16 :: "u8 list \<Rightarrow> nat \<Rightarrow> u16" where
  "rd16 bs i = ucast (bs ! i) OR push_bit 8 (ucast (bs ! (i + 1)))"

definition rd32 :: "u8 list \<Rightarrow> nat \<Rightarrow> u32" where
  "rd32 bs i = ucast (bs ! i) OR push_bit 8 (ucast (bs ! (i + 1))) OR
     push_bit 16 (ucast (bs ! (i + 2))) OR push_bit 24 (ucast (bs ! (i + 3)))"

definition wr16 :: "nat \<Rightarrow> u16 \<Rightarrow> u8 list \<Rightarrow> u8 list" where
  "wr16 i v bs = bs[i := ucast v, i + 1 := ucast (drop_bit 8 v)]"

definition wr32 :: "nat \<Rightarrow> u32 \<Rightarrow> u8 list \<Rightarrow> u8 list" where
  "wr32 i v bs = bs[i := ucast v, i + 1 := ucast (drop_bit 8 v),
                    i + 2 := ucast (drop_bit 16 v), i + 3 := ucast (drop_bit 24 v)]"

definition undefined_behaviour :: "('s, 'a) kernel" where
  "undefined_behaviour = panic ''undefined''"

record superblock =
  sb_size :: nat
  sb_nblocks :: nat
  sb_ninodes :: nat
  sb_nlog :: nat

definition readsb :: "u32 \<Rightarrow> ('a kbio_scheme, superblock) kernel" where
  "readsb dev =
     bind (bread dev 1) (\<lambda>bp. bind (get_buf bp) (\<lambda>x.
       andthen (brelse bp)
         (ret \<lparr>sb_size = unat (rd32 (b_data x) 0), sb_nblocks = unat (rd32 (b_data x) 4),
               sb_ninodes = unat (rd32 (b_data x) 8), sb_nlog = unat (rd32 (b_data x) 12)\<rparr>)))"

section \<open>State and operations\<close>

abbreviation (input) LOGSIZE :: nat where "LOGSIZE \<equiv> 10"
abbreviation (input) ROOTDEV :: u32 where "ROOTDEV \<equiv> 1"

record klog = kbio +
  log_start :: nat
  log_size :: int
  log_busy :: bool
  log_dev :: u32
  lh_n :: int
  lh_sector :: "nat list"

text \<open>The loop of \<^verbatim>\<open>install_trans\<close> over the given values of \<^verbatim>\<open>tail\<close>.\<close>

fun install_loop :: "nat list \<Rightarrow> ('a klog_scheme, unit) kernel" where
  "install_loop [] = ret ()"
| "install_loop (tail # ts) =
     bind (gets_st (\<lambda>s. (log_dev s, log_start s, lh_sector s ! tail))) (\<lambda>(dev, start, sector).
       bind (bread dev ((start + tail + 1) mod 2 ^ 32)) (\<lambda>lbuf.
         bind (bread dev sector) (\<lambda>dbuf.
           bind (get_buf lbuf) (\<lambda>l.
             andthen (upd_buf dbuf (\<lambda>x. x\<lparr>b_data := b_data l\<rparr>))
               (andthen (bwrite dbuf)
                 (andthen (brelse lbuf)
                   (andthen (brelse dbuf) (install_loop ts))))))))"

definition install_trans :: "('a klog_scheme, unit) kernel" where
  "install_trans = bind (gets_st lh_n) (\<lambda>n. install_loop [0..<nat n])"

definition head_sectors :: "u8 list \<Rightarrow> nat \<Rightarrow> nat list" where
  "head_sectors d n = map (\<lambda>i. unat (rd32 d (4 + 4 * i))) [0..<n]"

definition read_head :: "('a klog_scheme, unit) kernel" where
  "read_head =
     bind (gets_st (\<lambda>s. (log_dev s, log_start s))) (\<lambda>(dev, start).
       bind (bread dev start) (\<lambda>b. bind (get_buf b) (\<lambda>x.
         let n = sint (rd32 (b_data x) 0) in
         if n > int LOGSIZE then undefined_behaviour
         else andthen (modify (\<lambda>s. s\<lparr>lh_n := n,
             lh_sector := head_sectors (b_data x) (nat n) @ drop (nat n) (lh_sector s)\<rparr>))
           (brelse b))))"

definition put_head :: "nat list \<Rightarrow> int \<Rightarrow> u8 list \<Rightarrow> u8 list" where
  "put_head secs n d =
     fold (\<lambda>i d. wr32 (4 + 4 * i) (of_nat (secs ! i)) d) [0..<nat n] (wr32 0 (of_int n) d)"

definition write_head :: "('a klog_scheme, unit) kernel" where
  "write_head =
     bind (gets_st (\<lambda>s. (log_dev s, log_start s, lh_n s, lh_sector s))) (\<lambda>(dev, start, n, secs).
       bind (bread dev start) (\<lambda>b.
         andthen (upd_buf b (\<lambda>x. x\<lparr>b_data := put_head secs n (b_data x)\<rparr>))
           (andthen (bwrite b) (brelse b))))"

definition recover_from_log :: "('a klog_scheme, unit) kernel" where
  "recover_from_log =
     andthen read_head
       (andthen install_trans
         (andthen (modify (\<lambda>s. s\<lparr>lh_n := 0\<rparr>)) write_head))"

text \<open>\<^verbatim>\<open>sizeof(struct logheader)\<close> is 44, less than \<open>BSIZE\<close>.\<close>

definition initlog :: "('a klog_scheme, unit) kernel" where
  "initlog =
     (if 4 + 4 * LOGSIZE \<ge> BSIZE then panic ''initlog: too big logheader''
      else andthen (initlock Llog)
        (bind (readsb ROOTDEV) (\<lambda>sb.
          andthen (modify (\<lambda>s. s\<lparr>log_start := unat (of_nat (sb_size sb) - of_nat (sb_nlog sb) :: u32),
              log_size := sint (of_nat (sb_nlog sb) :: u32), log_dev := ROOTDEV\<rparr>))
            recover_from_log)))"

text \<open>\<^verbatim>\<open>begin_trans\<close> up to its first sleep; a process that is woken tests \<^verbatim>\<open>busy\<close> again.\<close>

definition begin_trans_loop :: "('a klog_scheme, unit) kernel" where
  "begin_trans_loop =
     bind (gets_st log_busy) (\<lambda>busy.
       if busy then suspend ChLog Llog
       else andthen (modify (\<lambda>s. s\<lparr>log_busy := True\<rparr>)) (release Llog))"

definition begin_trans :: "('a klog_scheme, unit) kernel" where
  "begin_trans = andthen (acquire Llog) begin_trans_loop"

definition commit_trans :: "('a klog_scheme, unit) kernel" where
  "commit_trans =
     bind (gets_st lh_n) (\<lambda>n.
       andthen
         (if n > 0
          then andthen write_head
            (andthen install_trans
              (andthen (modify (\<lambda>s. s\<lparr>lh_n := 0\<rparr>)) write_head))
          else ret ())
         (andthen (acquire Llog)
           (andthen (modify (\<lambda>s. s\<lparr>log_busy := False\<rparr>))
             (andthen (wakeup ChLog) (release Llog)))))"

text \<open>The position at which \<^verbatim>\<open>log_write\<close> enters a sector: where it is already, or at the end.\<close>

fun log_index :: "nat \<Rightarrow> nat list \<Rightarrow> nat" where
  "log_index sector [] = 0"
| "log_index sector (x # xs) = (if x = sector then 0 else Suc (log_index sector xs))"

definition log_write :: "nat \<Rightarrow> ('a klog_scheme, unit) kernel" where
  "log_write b =
     bind (gets_st (\<lambda>s. (lh_n s, log_size s, log_busy s))) (\<lambda>(n, lsize, busy).
       if n \<ge> int LOGSIZE \<or> n \<ge> lsize - 1 then panic ''too big a transaction''
       else if \<not> busy then panic ''write outside of trans''
       else bind (get_buf b) (\<lambda>x.
         bind (gets_st (\<lambda>s. (log_index (b_sector x) (take (nat n) (lh_sector s)), log_start s))) (\<lambda>(i, start).
           andthen (modify (\<lambda>s. s\<lparr>lh_sector := (lh_sector s)[i := b_sector x]\<rparr>))
             (bind (bread (b_dev x) ((start + i + 1) mod 2 ^ 32)) (\<lambda>lbuf.
               andthen (upd_buf lbuf (\<lambda>y. y\<lparr>b_data := b_data x\<rparr>))
                 (andthen (bwrite lbuf)
                   (andthen (brelse lbuf)
                     (andthen (if int i = n then modify (\<lambda>s. s\<lparr>lh_n := n + 1\<rparr>) else ret ())
                       (upd_buf b (\<lambda>y. y\<lparr>b_dirty := True\<rparr>))))))))))"

section \<open>Reading back what was written\<close>

lemma length_wr [simp]: "length (wr16 i w bs) = length bs" "length (wr32 i v bs) = length bs"
  by (simp_all add: wr16_def wr32_def)

lemma rd_wr32 [simp]:
  assumes "i + 3 < length bs"
  shows "rd32 (wr32 i v bs) i = v"
proof (rule bit_word_eqI)
  fix n assume "n < LENGTH(32)"
  then consider "n < 8" | "8 \<le> n" "n < 16" | "16 \<le> n" "n < 24" | "24 \<le> n" "n < 32" by fastforce
  then show "bit (rd32 (wr32 i v bs) i) n = bit v n"
    using assms by cases (auto simp: rd32_def wr32_def bit_simps nth_list_update)
qed

lemma rd_wr16 [simp]:
  assumes "i + 1 < length bs"
  shows "rd16 (wr16 i v bs) i = v"
proof (rule bit_word_eqI)
  fix n assume "n < LENGTH(16)"
  then consider "n < 8" | "8 \<le> n" "n < 16" by fastforce
  then show "bit (rd16 (wr16 i v bs) i) n = bit v n"
    using assms by cases (auto simp: rd16_def wr16_def bit_simps nth_list_update)
qed

lemma rd_wr_other:
  "j + 4 \<le> i \<or> i + 4 \<le> j \<Longrightarrow> rd32 (wr32 i v bs) j = rd32 bs j"
  "j + 2 \<le> i \<or> i + 4 \<le> j \<Longrightarrow> rd16 (wr32 i v bs) j = rd16 bs j"
  "j + 4 \<le> i \<or> i + 2 \<le> j \<Longrightarrow> rd32 (wr16 i w bs) j = rd32 bs j"
  "j + 2 \<le> i \<or> i + 2 \<le> j \<Longrightarrow> rd16 (wr16 i w bs) j = rd16 bs j"
  by (auto simp: rd32_def wr32_def rd16_def wr16_def nth_list_update)

end
