(* ===== verification/Inode.thy ===== *)
theory Inode
  imports Log
begin

text \<open>
  The block allocator and the inode layer of \<^verbatim>\<open>fs.c\<close>: \<^verbatim>\<open>balloc\<close>, \<^verbatim>\<open>bfree\<close>, the inode cache with
  its reference counts and locks, inodes on disk, and the block map of a file. A pointer
  to an inode is its index in \<^verbatim>\<open>icache.inode\<close>, so the tests for the null pointer at the head
  of \<^verbatim>\<open>ilock\<close> and \<^verbatim>\<open>iunlock\<close> have no counterpart.
\<close>

section \<open>Blocks\<close>

abbreviation (input) BPB :: nat where "BPB \<equiv> 4096"
abbreviation (input) IPB :: nat where "IPB \<equiv> 8"

definition BBLOCK :: "nat \<Rightarrow> nat \<Rightarrow> nat" where
  "BBLOCK b ninodes = b div BPB + ninodes div IPB + 3"

definition IBLOCK :: "nat \<Rightarrow> nat" where
  "IBLOCK i = i div IPB + 2"

definition bzero :: "u32 \<Rightarrow> nat \<Rightarrow> ('a klog_scheme, unit) kernel" where
  "bzero dev bno =
     bind (bread dev bno) (\<lambda>bp.
       andthen (upd_buf bp (\<lambda>x. x\<lparr>b_data := replicate BSIZE 0\<rparr>))
         (andthen (log_write bp) (brelse bp)))"

definition bit_used :: "u8 list \<Rightarrow> nat \<Rightarrow> bool" where
  "bit_used d bi \<longleftrightarrow> bit (d ! (bi div 8)) (bi mod 8)"

definition set_used :: "u8 list \<Rightarrow> nat \<Rightarrow> u8 list" where
  "set_used d bi = d[bi div 8 := d ! (bi div 8) OR push_bit (bi mod 8) 1]"

definition clear_used :: "u8 list \<Rightarrow> nat \<Rightarrow> u8 list" where
  "clear_used d bi = d[bi div 8 := d ! (bi div 8) AND NOT (push_bit (bi mod 8) 1)]"

text \<open>The outer loop of \<^verbatim>\<open>balloc\<close> over the values \<open>0, BPB, 2 * BPB, ...\<close> below \<^verbatim>\<open>sb.size\<close>.\<close>

fun balloc_loop :: "u32 \<Rightarrow> superblock \<Rightarrow> nat list \<Rightarrow> ('a klog_scheme, nat) kernel" where
  "balloc_loop dev sb [] = panic ''balloc: out of blocks''"
| "balloc_loop dev sb (b # bs) =
     bind (bread dev (BBLOCK b (sb_ninodes sb))) (\<lambda>bp. bind (get_buf bp) (\<lambda>x.
       case find (\<lambda>bi. \<not> bit_used (b_data x) bi) [0..<min BPB (sb_size sb - b)] of
         Some bi \<Rightarrow>
           andthen (upd_buf bp (\<lambda>x. x\<lparr>b_data := set_used (b_data x) bi\<rparr>))
             (andthen (log_write bp)
               (andthen (brelse bp)
                 (andthen (bzero dev (b + bi)) (ret (b + bi)))))
       | None \<Rightarrow> andthen (brelse bp) (balloc_loop dev sb bs)))"

definition balloc :: "u32 \<Rightarrow> ('a klog_scheme, nat) kernel" where
  "balloc dev =
     bind (readsb dev) (\<lambda>sb.
       balloc_loop dev sb (map (\<lambda>k. k * BPB) [0..<(sb_size sb + BPB - 1) div BPB]))"

definition bfree :: "u32 \<Rightarrow> nat \<Rightarrow> ('a klog_scheme, unit) kernel" where
  "bfree dev b =
     bind (readsb dev) (\<lambda>sb.
       bind (bread dev (BBLOCK b (sb_ninodes sb))) (\<lambda>bp. bind (get_buf bp) (\<lambda>x.
         if \<not> bit_used (b_data x) (b mod BPB) then panic ''freeing free block''
         else andthen (upd_buf bp (\<lambda>x. x\<lparr>b_data := clear_used (b_data x) (b mod BPB)\<rparr>))
           (andthen (log_write bp) (brelse bp)))))"

section \<open>Inodes\<close>

abbreviation (input) NINODE :: nat where "NINODE \<equiv> 50"
abbreviation (input) NDIRECT :: nat where "NDIRECT \<equiv> 12"
abbreviation (input) NINDIRECT :: nat where "NINDIRECT \<equiv> 128"
abbreviation (input) MAXFILE :: nat where "MAXFILE \<equiv> 140"
abbreviation (input) ROOTINO :: nat where "ROOTINO \<equiv> 1"
abbreviation (input) T_DIR :: u16 where "T_DIR \<equiv> 1"
abbreviation (input) T_FILE :: u16 where "T_FILE \<equiv> 2"
abbreviation (input) T_DEV :: u16 where "T_DEV \<equiv> 3"

record inode =
  i_dev :: u32
  i_inum :: nat
  i_ref :: int
  i_busy :: bool
  i_valid :: bool
  i_type :: u16
  i_major :: u16
  i_minor :: u16
  i_nlink :: u16
  i_size :: nat
  i_addrs :: "nat list"

record kinode = klog +
  icache :: "inode list"

definition get_inode :: "nat \<Rightarrow> ('a kinode_scheme, inode) kernel" where
  "get_inode ip = gets_st (\<lambda>s. icache s ! ip)"

definition upd_inode :: "nat \<Rightarrow> (inode \<Rightarrow> inode) \<Rightarrow> ('a kinode_scheme, unit) kernel" where
  "upd_inode ip f = modify (\<lambda>s. s\<lparr>icache := (icache s)[ip := f (icache s ! ip)]\<rparr>)"

text \<open>The copy between an inode in memory and \<^verbatim>\<open>struct dinode\<close> number \<open>k\<close> of a block.\<close>

definition dinode_read :: "u8 list \<Rightarrow> nat \<Rightarrow> inode \<Rightarrow> inode" where
  "dinode_read d k x =
     x\<lparr>i_type := rd16 d (64 * k), i_major := rd16 d (64 * k + 2), i_minor := rd16 d (64 * k + 4),
       i_nlink := rd16 d (64 * k + 6), i_size := unat (rd32 d (64 * k + 8)),
       i_addrs := map (\<lambda>i. unat (rd32 d (64 * k + 12 + 4 * i))) [0..<NDIRECT + 1]\<rparr>"

definition dinode_write :: "inode \<Rightarrow> nat \<Rightarrow> u8 list \<Rightarrow> u8 list" where
  "dinode_write x k d =
     fold (\<lambda>i. wr32 (64 * k + 12 + 4 * i) (of_nat (i_addrs x ! i))) [0..<NDIRECT + 1]
       (wr32 (64 * k + 8) (of_nat (i_size x))
         (wr16 (64 * k + 6) (i_nlink x)
           (wr16 (64 * k + 4) (i_minor x)
             (wr16 (64 * k + 2) (i_major x)
               (wr16 (64 * k) (i_type x) d)))))"

definition iinit :: "('a kinode_scheme, unit) kernel" where
  "iinit = initlock Licache"

text \<open>
  The scan of \<^verbatim>\<open>iget\<close>: the cached inode (\<open>Inl\<close>), or else the first entry without references
  that it has remembered.
\<close>

fun iget_scan :: "u32 \<Rightarrow> nat \<Rightarrow> nat option \<Rightarrow> nat \<Rightarrow> inode list \<Rightarrow> nat + nat option" where
  "iget_scan dev inum slot i [] = Inr slot"
| "iget_scan dev inum slot i (x # xs) =
     (if i_ref x > 0 \<and> i_dev x = dev \<and> i_inum x = inum then Inl i
      else iget_scan dev inum (if slot = None \<and> i_ref x = 0 then Some i else slot) (i + 1) xs)"

definition iget :: "u32 \<Rightarrow> nat \<Rightarrow> ('a kinode_scheme, nat) kernel" where
  "iget dev inum =
     andthen (acquire Licache)
       (bind (gets_st (\<lambda>s. iget_scan dev inum None 0 (icache s))) (\<lambda>r.
          case r of
            Inl ip \<Rightarrow> andthen (upd_inode ip (\<lambda>x. x\<lparr>i_ref := i_ref x + 1\<rparr>)) (andthen (release Licache) (ret ip))
          | Inr None \<Rightarrow> panic ''iget: no inodes''
          | Inr (Some ip) \<Rightarrow>
              andthen (upd_inode ip (\<lambda>x. x\<lparr>i_dev := dev, i_inum := inum, i_ref := 1, i_busy := False, i_valid := False\<rparr>))
                (andthen (release Licache) (ret ip))))"

fun ialloc_loop :: "u32 \<Rightarrow> u16 \<Rightarrow> nat list \<Rightarrow> ('a kinode_scheme, nat) kernel" where
  "ialloc_loop dev ty [] = panic ''ialloc: no inodes''"
| "ialloc_loop dev ty (inum # is) =
     bind (bread dev (IBLOCK inum)) (\<lambda>bp. bind (get_buf bp) (\<lambda>x.
       if rd16 (b_data x) (64 * (inum mod IPB)) = 0
       then andthen (upd_buf bp (\<lambda>x. x\<lparr>b_data :=
             wr16 (64 * (inum mod IPB)) ty
               (take (64 * (inum mod IPB)) (b_data x) @ replicate 64 0 @ drop (64 * (inum mod IPB) + 64) (b_data x))\<rparr>))
         (andthen (log_write bp) (andthen (brelse bp) (iget dev inum)))
       else andthen (brelse bp) (ialloc_loop dev ty is)))"

definition ialloc :: "u32 \<Rightarrow> u16 \<Rightarrow> ('a kinode_scheme, nat) kernel" where
  "ialloc dev ty = bind (readsb dev) (\<lambda>sb. ialloc_loop dev ty [1..<sb_ninodes sb])"

definition iupdate :: "nat \<Rightarrow> ('a kinode_scheme, unit) kernel" where
  "iupdate ip =
     bind (get_inode ip) (\<lambda>x.
       bind (bread (i_dev x) (IBLOCK (i_inum x))) (\<lambda>bp.
         andthen (upd_buf bp (\<lambda>b. b\<lparr>b_data := dinode_write x (i_inum x mod IPB) (b_data b)\<rparr>))
           (andthen (log_write bp) (brelse bp))))"

definition idup :: "nat \<Rightarrow> ('a kinode_scheme, nat) kernel" where
  "idup ip =
     andthen (acquire Licache)
       (andthen (upd_inode ip (\<lambda>x. x\<lparr>i_ref := i_ref x + 1\<rparr>)) (andthen (release Licache) (ret ip)))"

text \<open>\<^verbatim>\<open>ilock\<close> after it has the lock of the cache; woken, it tests \<^verbatim>\<open>I_BUSY\<close> again.\<close>

definition ilock_loop :: "nat \<Rightarrow> ('a kinode_scheme, unit) kernel" where
  "ilock_loop ip =
     bind (get_inode ip) (\<lambda>x.
       if i_busy x then suspend (ChInode ip) Licache
       else andthen (upd_inode ip (\<lambda>x. x\<lparr>i_busy := True\<rparr>))
         (andthen (release Licache)
           (if \<not> i_valid x
            then bind (bread (i_dev x) (IBLOCK (i_inum x))) (\<lambda>bp. bind (get_buf bp) (\<lambda>b.
              andthen (upd_inode ip (dinode_read (b_data b) (i_inum x mod IPB)))
                (andthen (brelse bp)
                  (andthen (upd_inode ip (\<lambda>x. x\<lparr>i_valid := True\<rparr>))
                    (bind (get_inode ip) (\<lambda>x. if i_type x = 0 then panic ''ilock: no type'' else ret ()))))))
            else ret ())))"

definition ilock :: "nat \<Rightarrow> ('a kinode_scheme, unit) kernel" where
  "ilock ip =
     bind (get_inode ip) (\<lambda>x.
       if i_ref x < 1 then panic ''ilock'' else andthen (acquire Licache) (ilock_loop ip))"

definition iunlock :: "nat \<Rightarrow> ('a kinode_scheme, unit) kernel" where
  "iunlock ip =
     bind (get_inode ip) (\<lambda>x.
       if \<not> i_busy x \<or> i_ref x < 1 then panic ''iunlock''
       else andthen (acquire Licache)
         (andthen (upd_inode ip (\<lambda>x. x\<lparr>i_busy := False\<rparr>))
           (andthen (wakeup (ChInode ip)) (release Licache))))"

section \<open>The blocks of a file\<close>

definition bmap :: "nat \<Rightarrow> nat \<Rightarrow> ('a kinode_scheme, nat) kernel" where
  "bmap ip bn =
     bind (get_inode ip) (\<lambda>x.
       if bn < NDIRECT
       then if i_addrs x ! bn = 0
         then bind (balloc (i_dev x)) (\<lambda>addr.
           andthen (upd_inode ip (\<lambda>x. x\<lparr>i_addrs := (i_addrs x)[bn := addr]\<rparr>)) (ret addr))
         else ret (i_addrs x ! bn)
       else if bn - NDIRECT < NINDIRECT
       then bind
         (if i_addrs x ! NDIRECT = 0
          then bind (balloc (i_dev x)) (\<lambda>addr.
            andthen (upd_inode ip (\<lambda>x. x\<lparr>i_addrs := (i_addrs x)[NDIRECT := addr]\<rparr>)) (ret addr))
          else ret (i_addrs x ! NDIRECT)) (\<lambda>ind.
         bind (bread (i_dev x) ind) (\<lambda>bp. bind (get_buf bp) (\<lambda>b.
           let addr = unat (rd32 (b_data b) (4 * (bn - NDIRECT))) in
           bind
             (if addr = 0
              then bind (balloc (i_dev x)) (\<lambda>new.
                andthen (upd_buf bp (\<lambda>b. b\<lparr>b_data := wr32 (4 * (bn - NDIRECT)) (of_nat new) (b_data b)\<rparr>))
                  (andthen (log_write bp) (ret new)))
              else ret addr) (\<lambda>r. andthen (brelse bp) (ret r)))))
       else panic ''bmap: out of range'')"

fun itrunc_direct :: "nat \<Rightarrow> nat list \<Rightarrow> ('a kinode_scheme, unit) kernel" where
  "itrunc_direct ip [] = ret ()"
| "itrunc_direct ip (i # is) =
     bind (get_inode ip) (\<lambda>x.
       andthen
         (if i_addrs x ! i \<noteq> 0
          then andthen (bfree (i_dev x) (i_addrs x ! i)) (upd_inode ip (\<lambda>x. x\<lparr>i_addrs := (i_addrs x)[i := 0]\<rparr>))
          else ret ())
         (itrunc_direct ip is))"

fun bfree_all :: "u32 \<Rightarrow> nat list \<Rightarrow> ('a kinode_scheme, unit) kernel" where
  "bfree_all dev [] = ret ()"
| "bfree_all dev (a # as) = andthen (if a \<noteq> 0 then bfree dev a else ret ()) (bfree_all dev as)"

definition itrunc :: "nat \<Rightarrow> ('a kinode_scheme, unit) kernel" where
  "itrunc ip =
     andthen (itrunc_direct ip [0..<NDIRECT])
       (bind (get_inode ip) (\<lambda>x.
         andthen
           (if i_addrs x ! NDIRECT \<noteq> 0
            then bind (bread (i_dev x) (i_addrs x ! NDIRECT)) (\<lambda>bp. bind (get_buf bp) (\<lambda>b.
              andthen (bfree_all (i_dev x) (map (\<lambda>j. unat (rd32 (b_data b) (4 * j))) [0..<NINDIRECT]))
                (andthen (brelse bp)
                  (andthen (bfree (i_dev x) (i_addrs x ! NDIRECT))
                    (upd_inode ip (\<lambda>x. x\<lparr>i_addrs := (i_addrs x)[NDIRECT := 0]\<rparr>))))))
            else ret ())
           (andthen (upd_inode ip (\<lambda>x. x\<lparr>i_size := 0\<rparr>)) (iupdate ip))))"

definition iput :: "nat \<Rightarrow> ('a kinode_scheme, unit) kernel" where
  "iput ip =
     andthen (acquire Licache)
       (bind (get_inode ip) (\<lambda>x.
         andthen
           (if i_ref x = 1 \<and> i_valid x \<and> i_nlink x = 0
            then if i_busy x then panic ''iput busy''
              else andthen (upd_inode ip (\<lambda>x. x\<lparr>i_busy := True\<rparr>))
                (andthen (release Licache)
                  (andthen (itrunc ip)
                    (andthen (upd_inode ip (\<lambda>x. x\<lparr>i_type := 0\<rparr>))
                      (andthen (iupdate ip)
                        (andthen (acquire Licache)
                          (andthen (upd_inode ip (\<lambda>x. x\<lparr>i_busy := False, i_valid := False\<rparr>))
                            (wakeup (ChInode ip))))))))
            else ret ())
           (andthen (upd_inode ip (\<lambda>x. x\<lparr>i_ref := i_ref x - 1\<rparr>)) (release Licache))))"

definition iunlockput :: "nat \<Rightarrow> ('a kinode_scheme, unit) kernel" where
  "iunlockput ip = andthen (iunlock ip) (iput ip)"

end
