(* ===== verification/Printf.thy ===== *)
theory Printf
  imports Cstring
begin

text \<open>
  The formatted output of the user library (\<^verbatim>\<open>printf.c\<close>). The bytes written to the file
  descriptor are a list; the variable arguments are the words behind the format on
  the stack, \<open>ap n\<close> the \<open>n\<close>-th of them. \<open>None\<close> is a loop that never ends.
\<close>

section \<open>Operations\<close>

definition ascii :: "string \<Rightarrow> u8 list" where
  "ascii s = map of_char s"

definition digits :: "u8 list" where
  "digits = ascii ''0123456789ABCDEF''"

definition putc :: "u8 list \<Rightarrow> u8 \<Rightarrow> u8 list" where
  "putc out c = out @ [c]"

text \<open>The \<^verbatim>\<open>do ... while\<close> loop of \<^verbatim>\<open>printint\<close>, and the contents of \<^verbatim>\<open>buf\<close> after it.\<close>

partial_function (option) printint_loop :: "u32 \<Rightarrow> u32 \<Rightarrow> u8 list \<Rightarrow> u8 list option" where
  "printint_loop x base buf =
     (let buf' = buf @ [digits ! unat (x mod base)]; x' = x div base in
      if x' \<noteq> 0 then printint_loop x' base buf' else Some buf')"

definition printint :: "u8 list \<Rightarrow> u32 \<Rightarrow> u32 \<Rightarrow> bool \<Rightarrow> u8 list option" where
  "printint out xx base sg =
     (let neg = (sg \<and> sint xx < 0);
          x = (if neg then - xx else xx)
      in map_option (\<lambda>buf. foldl putc out (rev (if neg then buf @ [45] else buf)))
           (printint_loop x base []))"

partial_function (option) put_str :: "mem \<Rightarrow> nat \<Rightarrow> u8 list \<Rightarrow> u8 list option" where
  "put_str m s out = (if m s \<noteq> 0 then put_str m (s + 1) (putc out (m s)) else Some out)"

text \<open>
  The loop over the format. \<open>pct\<close> is \<^verbatim>\<open>state == '%'\<close>, \<open>n\<close> the number of arguments used.
\<close>

fun printf_loop :: "mem \<Rightarrow> (nat \<Rightarrow> u32) \<Rightarrow> u8 list \<Rightarrow> bool \<Rightarrow> nat \<Rightarrow> u8 list \<Rightarrow> u8 list option" where
  "printf_loop m ap [] pct n out = Some out"
| "printf_loop m ap (c # fmt) False n out =
     (if c = of_char CHR ''%'' then printf_loop m ap fmt True n out
      else printf_loop m ap fmt False n (putc out c))"
| "printf_loop m ap (c # fmt) True n out =
     (if c = of_char CHR ''d'' then
        Option.bind (printint out (ap n) 10 True) (\<lambda>out. printf_loop m ap fmt False (n + 1) out)
      else if c = of_char CHR ''x'' \<or> c = of_char CHR ''p'' then
        Option.bind (printint out (ap n) 16 False) (\<lambda>out. printf_loop m ap fmt False (n + 1) out)
      else if c = of_char CHR ''s'' then
        Option.bind (if ap n = 0 then Some (foldl putc out (ascii ''(null)'')) else put_str m (unat (ap n)) out)
          (\<lambda>out. printf_loop m ap fmt False (n + 1) out)
      else if c = of_char CHR ''c'' then printf_loop m ap fmt False (n + 1) (putc out (ucast (ap n)))
      else if c = of_char CHR ''%'' then printf_loop m ap fmt False n (putc out c)
      else printf_loop m ap fmt False n (putc (putc out (of_char CHR ''%'')) c))"

definition printf :: "mem \<Rightarrow> u8 list \<Rightarrow> (nat \<Rightarrow> u32) \<Rightarrow> u8 list \<Rightarrow> u8 list option" where
  "printf m fmt ap out = printf_loop m ap fmt False 0 out"

section \<open>Decimal and hexadecimal output\<close>

lemma foldl_putc [simp]: "foldl putc out xs = out @ xs"
  by (induction xs arbitrary: out) (auto simp: putc_def)

text \<open>The loop ends for every base of at least 2; its digits, least significant first.\<close>

lemma printint_loop_base:
  assumes b: "2 \<le> base" "base \<le> 16"
  shows "\<exists>ds. printint_loop x base buf = Some (buf @ map (\<lambda>d. digits ! d) ds) \<and> ds \<noteq> [] \<and>
     (\<forall>d \<in> set ds. d < unat base) \<and> foldr (\<lambda>d n. n * base + of_nat d) ds 0 = x \<and>
     (\<forall>k. unat x < unat base ^ Suc k \<longrightarrow> length ds \<le> Suc k)"
proof (induction "unat x" arbitrary: x buf rule: less_induct)
  case less
  let ?d = "unat (x mod base)"
  have ub: "2 \<le> unat base" using b(1) by (simp add: word_le_nat_alt)
  have d: "?d < unat base" using ub by (simp add: unat_mod)
  have e: "x div base * base + of_nat ?d = x" by (simp add: div_mult_mod_eq)
  show ?case
  proof (cases "x div base = 0")
    case True
    then have "printint_loop x base buf = Some (buf @ [digits ! ?d])"
      by (subst printint_loop.simps) (simp add: Let_def)
    then show ?thesis using d e True by (intro exI [of _ "[?d]"]) simp
  next
    case False
    have "unat (x div base) < unat x"
    proof -
      have "x \<noteq> 0" using False by auto
      then have "0 < unat x" by (simp add: unat_gt_0)
      then show ?thesis using ub by (simp add: unat_div)
    qed
    then obtain ds where ds: "printint_loop (x div base) base (buf @ [digits ! ?d]) =
          Some ((buf @ [digits ! ?d]) @ map (\<lambda>d. digits ! d) ds)" "\<forall>d \<in> set ds. d < unat base"
        "foldr (\<lambda>d n. n * base + of_nat d) ds 0 = x div base"
        "\<forall>k. unat (x div base) < unat base ^ Suc k \<longrightarrow> length ds \<le> Suc k"
      using less by blast
    have "printint_loop x base buf = Some (buf @ map (\<lambda>d. digits ! d) (?d # ds))"
      using False ds(1) by (subst printint_loop.simps) (simp add: Let_def)
    moreover have "length (?d # ds) \<le> Suc k" if k: "unat x < unat base ^ Suc k" for k
    proof (cases k)
      case 0
      then have "unat x div unat base = 0" using k by simp
      then have "x div base = 0" by (simp add: unat_div unat_eq_zero [symmetric])
      then show ?thesis using False by simp
    next
      case (Suc j)
      have "unat (x div base) < unat base ^ Suc j"
        using k Suc ub by (simp add: unat_div less_mult_imp_div_less mult.commute)
      then show ?thesis using ds(4) Suc by simp
    qed
    ultimately show ?thesis using d e ds(2,3) by (intro exI [of _ "?d # ds"]) simp
  qed
qed

lemma decimal_digit: "d < 10 \<Longrightarrow> digits ! d = 48 + of_nat d"
proof -
  assume "d < 10"
  then have "d = 0 \<or> d = 1 \<or> d = 2 \<or> d = 3 \<or> d = 4 \<or> d = 5 \<or> d = 6 \<or> d = 7 \<or> d = 8 \<or> d = 9"
    by presburger
  then show ?thesis by (elim disjE) (simp_all add: digits_def ascii_def)
qed

lemma printint_loop_10:
  obtains ds where "printint_loop x 10 [] = Some (map (\<lambda>d. 48 + of_nat d) ds)" "length ds \<le> 10"
    "\<forall>d \<in> set ds. d < 10" "foldl (\<lambda>n d. n * 10 + of_nat d) 0 (rev ds) = x"
proof -
  obtain ds where ds: "printint_loop x 10 [] = Some (map (\<lambda>d. digits ! d) ds)" "\<forall>d \<in> set ds. d < 10"
      "foldr (\<lambda>d n. n * 10 + of_nat d) ds 0 = x" "\<forall>k. unat x < 10 ^ Suc k \<longrightarrow> length ds \<le> Suc k"
    using printint_loop_base [of 10 x "[]"] by auto
  have "unat x < 10 ^ Suc 9" using unsigned_less [of x, where 'a = nat] by simp
  then have "length ds \<le> 10" using ds(4) by fastforce
  moreover have "map (\<lambda>d. digits ! d) ds = map (\<lambda>d. 48 + of_nat d) ds" using ds(2) decimal_digit by auto
  ultimately show ?thesis using ds by (intro that [of ds]) (simp_all add: foldl_conv_foldr)
qed

lemma atoi_decimal:
  assumes "\<forall>d \<in> set ds. d < 10" "cstr m s (map (\<lambda>d. 48 + of_nat d) ds)"
  shows "atoi m s = Some (sint (foldl (\<lambda>n d. n * 10 + of_nat d) (0 :: u32) ds))"
proof -
  let ?xs = "map (\<lambda>d. 48 + of_nat d :: u8) ds"
  have "\<forall>i < length ?xs. m (s + i) = 48 + of_nat (ds ! i) \<and> ds ! i < 10"
    using assms by (auto simp: cstr_def)
  moreover have "m (s + length ?xs) = 0" using assms(2) by (simp add: cstr_def)
  ultimately have "atoi_loop m s 0 = Some (foldl (\<lambda>n d. n * 10 + of_nat d) 0 ds)"
    by (intro atoi_loop_cstr [of ?xs]) simp_all
  then show ?thesis by (simp add: atoi_def)
qed

section \<open>Properties\<close>


declare printint_loop.simps [code] put_str.simps [code]


end
