(* ===== verification/Console.thy ===== *)
theory Console
  imports Inode Printf
begin

text \<open>
  The console of \<^verbatim>\<open>console.c\<close>: formatted output, the screen, the line buffer that the keyboard
  interrupt fills and \<^verbatim>\<open>read\<close> empties, and \<^verbatim>\<open>procdump\<close> of \<^verbatim>\<open>proc.c\<close>. \<open>serial\<close> is the sequence of
  characters sent to the serial port (\<^verbatim>\<open>uartputc\<close>), \<open>crt\<close> the screen memory and \<open>crt_pos\<close> the
  cursor registers of the display. Characters copied to or from the caller's buffer are
  passed as lists.
\<close>

section \<open>State\<close>

abbreviation (input) INPUT_BUF :: nat where "INPUT_BUF \<equiv> 128"
abbreviation (input) BACKSPACE :: nat where "BACKSPACE \<equiv> 0x100"

record kcons = kinode +
  cons_locking :: bool
  panicked :: bool
  serial :: "u8 list"
  has_uart :: bool
  crt :: "nat \<Rightarrow> u16"
  crt_pos :: nat
  in_buf :: "u8 list"
  in_r :: u32
  in_w :: u32
  in_e :: u32
  devsw_console :: bool

section \<open>Output\<close>

definition uartputc :: "u8 \<Rightarrow> ('a kcons_scheme, unit) kernel" where
  "uartputc c = modify (\<lambda>s. if has_uart s then s\<lparr>serial := serial s @ [c]\<rparr> else s)"

text \<open>The new cursor position and screen; the position registers hold 16 bits.\<close>

definition cga_step :: "nat \<Rightarrow> nat \<times> (nat \<Rightarrow> u16) \<Rightarrow> nat \<times> (nat \<Rightarrow> u16)" where
  "cga_step c st =
     (let (pos, scr) = st;
          (pos, scr) =
            (if c = 10 then (pos + (80 - pos mod 80), scr)
             else if c = BACKSPACE then (if pos > 0 then pos - 1 else pos, scr)
             else (pos + 1, scr(pos := (of_nat c AND 0xFF) OR 0x0700)));
          (pos, scr) =
            (if pos div 80 \<ge> 24
             then let scr1 = (\<lambda>i. if i < 23 * 80 then scr (i + 80) else scr i);
                      pos1 = pos - 80
                  in (pos1, \<lambda>i. if pos1 \<le> i \<and> i < 24 * 80 then 0 else scr1 i)
             else (pos, scr))
      in (pos mod 2 ^ 16, scr(pos := 32 OR 0x0700)))"

definition cgaputc :: "nat \<Rightarrow> ('a kcons_scheme, unit) kernel" where
  "cgaputc c = modify (\<lambda>s. let (pos, scr) = cga_step c (crt_pos s, crt s) in s\<lparr>crt_pos := pos, crt := scr\<rparr>)"

definition consputc :: "nat \<Rightarrow> ('a kcons_scheme, unit) kernel" where
  "consputc c s =
     (if panicked s then Spin s
      else andthen
        (if c = BACKSPACE then andthen (uartputc 8) (andthen (uartputc 32) (uartputc 8))
         else uartputc (of_nat c))
        (cgaputc c) s)"

fun consputs :: "u8 list \<Rightarrow> ('a kcons_scheme, unit) kernel" where
  "consputs [] = ret ()"
| "consputs (c # cs) = andthen (consputc (unat c)) (consputs cs)"

definition cons_digits :: "u8 list" where
  "cons_digits = ascii ''0123456789abcdef''"

text \<open>
  The digits that the \<^verbatim>\<open>do\<close> loop of \<^verbatim>\<open>printint\<close> puts in \<^verbatim>\<open>buf\<close>, the last digit first. It is
  only called with base 10 and 16.
\<close>

function cons_buf :: "u32 \<Rightarrow> u32 \<Rightarrow> u8 list" where
  "cons_buf x base =
     cons_digits ! unat (x mod base) # (if base < 2 \<or> x div base = 0 then [] else cons_buf (x div base) base)"
  by pat_completeness auto
termination
proof (relation "measure (\<lambda>(x, base). unat x)")
  fix x base :: u32
  assume "\<not> (base < 2 \<or> x div base = 0)"
  then have "2 \<le> unat base" "0 < unat x" by (auto simp: word_less_nat_alt not_less unat_gt_0)
  then show "((x div base, base), (x, base)) \<in> measure (\<lambda>(x, base). unat x)" by (simp add: unat_div)
qed simp

declare cons_buf.simps [simp del]

definition cons_printint :: "u32 \<Rightarrow> u32 \<Rightarrow> bool \<Rightarrow> ('a kcons_scheme, unit) kernel" where
  "cons_printint xx base sg =
     (let neg = (sg \<and> sint xx < 0);
          buf = cons_buf (if neg then - xx else xx) base
      in consputs (rev (if neg then buf @ [45] else buf)))"

text \<open>An argument of \<^verbatim>\<open>cprintf\<close>: a word, or a pointer to a string (0 is \<open>None\<close>).\<close>

datatype parg = PWord u32 | PStr "u8 list option"

fun cprintf_loop :: "u8 list \<Rightarrow> parg list \<Rightarrow> ('a kcons_scheme, unit) kernel" where
  "cprintf_loop [] as = ret ()"
| "cprintf_loop (c # fmt) as =
     (if c \<noteq> 37 then andthen (consputc (unat c)) (cprintf_loop fmt as)
      else case fmt of
          [] \<Rightarrow> ret ()
        | d # fmt' \<Rightarrow>
            if d = 100
            then (case as of PWord w # as' \<Rightarrow> andthen (cons_printint w 10 True) (cprintf_loop fmt' as')
                   | _ \<Rightarrow> undefined_behaviour)
            else if d = 120 \<or> d = 112
            then (case as of PWord w # as' \<Rightarrow> andthen (cons_printint w 16 False) (cprintf_loop fmt' as')
                   | _ \<Rightarrow> undefined_behaviour)
            else if d = 115
            then (case as of
                     PStr None # as' \<Rightarrow> andthen (consputs (ascii ''(null)'')) (cprintf_loop fmt' as')
                   | PStr (Some str) # as' \<Rightarrow> andthen (consputs str) (cprintf_loop fmt' as')
                   | _ \<Rightarrow> undefined_behaviour)
            else if d = 37 then andthen (consputc 37) (cprintf_loop fmt' as)
            else andthen (consputc 37) (andthen (consputc (unat d)) (cprintf_loop fmt' as)))"

definition cprintf :: "u8 list \<Rightarrow> parg list \<Rightarrow> ('a kcons_scheme, unit) kernel" where
  "cprintf fmt as =
     bind (gets_st cons_locking) (\<lambda>locking.
       andthen (if locking then acquire Lcons else ret ())
         (andthen (cprintf_loop fmt as)
           (if locking then release Lcons else ret ())))"

text \<open>
  \<^verbatim>\<open>panic\<close> itself, as far as its output goes; after it the machine stands still. \<open>pcs\<close> are the
  return addresses \<^verbatim>\<open>getcallerpcs\<close> finds on the stack.
\<close>

fun cprint_pcs :: "u32 list \<Rightarrow> ('a kcons_scheme, unit) kernel" where
  "cprint_pcs [] = ret ()"
| "cprint_pcs (p # ps) = andthen (cprintf (ascii '' %p'') [PWord p]) (cprint_pcs ps)"

definition panic_message :: "u8 list \<Rightarrow> u32 \<Rightarrow> u32 list \<Rightarrow> ('a kcons_scheme, unit) kernel" where
  "panic_message msg cpu_id pcs =
     andthen (modify (\<lambda>s. s\<lparr>lk := (lk s)\<lparr>iflag := (iflag (lk s))(me (lk s) := False)\<rparr>, cons_locking := False\<rparr>))
       (andthen (cprintf (ascii ''cpu%d: panic: '') [PWord cpu_id])
         (andthen (cprintf msg [])
           (andthen (cprintf [10] [])
             (andthen (cprint_pcs (take 10 pcs)) (modify (\<lambda>s. s\<lparr>panicked := True\<rparr>))))))"

fun state_name :: "procstate \<Rightarrow> string" where
  "state_name UNUSED = ''unused''"
| "state_name EMBRYO = ''embryo''"
| "state_name SLEEPING = ''sleep ''"
| "state_name RUNNABLE = ''runble''"
| "state_name RUNNING = ''run   ''"
| "state_name ZOMBIE = ''zombie''"

text \<open>\<open>pcs i\<close> are the addresses on the kernel stack of process \<open>i\<close>, which is not part of the state.\<close>

fun procdump_loop :: "(nat \<Rightarrow> u32 list) \<Rightarrow> nat \<Rightarrow> proc list \<Rightarrow> ('a kcons_scheme, unit) kernel" where
  "procdump_loop pcs i [] = ret ()"
| "procdump_loop pcs i (p # ps) =
     andthen
       (if pstate p = UNUSED then ret ()
        else andthen (cprintf (ascii ''%d %s %s'')
            [PWord (of_int (pid p)), PStr (Some (ascii (state_name (pstate p)))), PStr (Some (ascii (pname p)))])
          (andthen
            (if pstate p = SLEEPING then cprint_pcs (takeWhile (\<lambda>c. c \<noteq> 0) (take 10 (pcs i))) else ret ())
            (cprintf [10] [])))
       (procdump_loop pcs (i + 1) ps)"

definition procdump :: "(nat \<Rightarrow> u32 list) \<Rightarrow> ('a kcons_scheme, unit) kernel" where
  "procdump pcs = bind (gets_st procs) (procdump_loop pcs 0)"

section \<open>Input\<close>

text \<open>The \<^verbatim>\<open>while\<close> loop of control-U; at most the line being edited is erased.\<close>

definition in_at :: "'a kcons_scheme \<Rightarrow> u32 \<Rightarrow> u8" where
  "in_at s i = in_buf s ! (unat i mod INPUT_BUF)"

fun kill_line :: "nat \<Rightarrow> ('a kcons_scheme, unit) kernel" where
  "kill_line 0 = ret ()"
| "kill_line (Suc n) =
     bind (gets_st (\<lambda>s. in_e s \<noteq> in_w s \<and> in_at s (in_e s - 1) \<noteq> 10)) (\<lambda>more.
       if more
       then andthen (modify (\<lambda>s. s\<lparr>in_e := in_e s - 1\<rparr>)) (andthen (consputc BACKSPACE) (kill_line n))
       else ret ())"

definition consoleintr_char :: "(nat \<Rightarrow> u32 list) \<Rightarrow> nat \<Rightarrow> ('a kcons_scheme, unit) kernel" where
  "consoleintr_char pcs c s =
     (if c = 16 then procdump pcs s
      else if c = 21 then kill_line (unat (in_e s - in_w s)) s
      else if c = 8 \<or> c = 127
      then if in_e s \<noteq> in_w s
        then andthen (modify (\<lambda>s. s\<lparr>in_e := in_e s - 1\<rparr>)) (consputc BACKSPACE) s
        else Ok () s
      else if c \<noteq> 0 \<and> in_e s - in_r s < of_nat INPUT_BUF
      then let c = (if c = 13 then 10 else c) in
        andthen (modify (\<lambda>s. s\<lparr>in_buf := (in_buf s)[unat (in_e s) mod INPUT_BUF := of_nat c], in_e := in_e s + 1\<rparr>))
          (andthen (consputc c)
            (bind (gets_st (\<lambda>s. c = 10 \<or> c = 4 \<or> in_e s = in_r s + of_nat INPUT_BUF)) (\<lambda>full.
               if full then andthen (modify (\<lambda>s. s\<lparr>in_w := in_e s\<rparr>)) (wakeup ChInput) else ret ()))) s
      else Ok () s)"

text \<open>\<open>cs\<close> are the characters \<^verbatim>\<open>getc\<close> returns before it returns a negative number.\<close>

fun consoleintr_loop :: "(nat \<Rightarrow> u32 list) \<Rightarrow> nat list \<Rightarrow> ('a kcons_scheme, unit) kernel" where
  "consoleintr_loop pcs [] = ret ()"
| "consoleintr_loop pcs (c # cs) = andthen (consoleintr_char pcs c) (consoleintr_loop pcs cs)"

definition consoleintr :: "(nat \<Rightarrow> u32 list) \<Rightarrow> nat list \<Rightarrow> ('a kcons_scheme, unit) kernel" where
  "consoleintr pcs cs =
     andthen (acquire Linput) (andthen (consoleintr_loop pcs cs) (release Linput))"

text \<open>
  The loop of \<^verbatim>\<open>consoleread\<close>: \<open>n\<close> bytes to go, \<open>acc\<close> copied so far. The result is the value
  returned and the bytes copied to \<^verbatim>\<open>dst\<close>. A process that is woken enters the loop again.
\<close>

fun consoleread_loop :: "nat \<Rightarrow> nat \<Rightarrow> nat \<Rightarrow> u8 list \<Rightarrow> ('a kcons_scheme, int \<times> u8 list) kernel" where
  "consoleread_loop ip target 0 acc =
     andthen (release Linput) (andthen (ilock ip) (ret (int target, acc)))"
| "consoleread_loop ip target (Suc n) acc =
     bind (gets_st (\<lambda>s. in_r s = in_w s)) (\<lambda>none.
       if none
       then bind (gets_st (\<lambda>s. killed (myproc s))) (\<lambda>k.
         if k then andthen (release Linput) (andthen (ilock ip) (ret (- 1, acc)))
         else suspend ChInput Linput)
       else bind (gets_st (\<lambda>s. in_at s (in_r s))) (\<lambda>c.
         andthen (modify (\<lambda>s. s\<lparr>in_r := in_r s + 1\<rparr>))
           (if c = 4
            then andthen (if Suc n < target then modify (\<lambda>s. s\<lparr>in_r := in_r s - 1\<rparr>) else ret ())
              (andthen (release Linput) (andthen (ilock ip) (ret (int target - int (Suc n), acc))))
            else if c = 10
            then andthen (release Linput) (andthen (ilock ip) (ret (int target - int n, acc @ [c])))
            else consoleread_loop ip target n (acc @ [c]))))"

text \<open>A negative \<open>n\<close> skips the loop, and \<^verbatim>\<open>target - n\<close> is 0.\<close>

definition consoleread :: "nat \<Rightarrow> int \<Rightarrow> ('a kcons_scheme, int \<times> u8 list) kernel" where
  "consoleread ip n =
     andthen (iunlock ip)
       (andthen (acquire Linput)
         (if n \<le> 0 then andthen (release Linput) (andthen (ilock ip) (ret (0, [])))
          else consoleread_loop ip (nat n) (nat n) []))"

definition consolewrite :: "nat \<Rightarrow> u8 list \<Rightarrow> ('a kcons_scheme, int) kernel" where
  "consolewrite ip bytes =
     andthen (iunlock ip)
       (andthen (acquire Lcons)
         (andthen (consputs bytes)
           (andthen (release Lcons) (andthen (ilock ip) (ret (int (length bytes)))))))"

text \<open>The interrupt controller (\<^verbatim>\<open>picenable\<close>, \<^verbatim>\<open>ioapicenable\<close>) is not part of the state.\<close>

definition consoleinit :: "('a kcons_scheme, unit) kernel" where
  "consoleinit =
     andthen (initlock Lcons)
       (andthen (initlock Linput)
         (modify (\<lambda>s. s\<lparr>devsw_console := True, cons_locking := True\<rparr>)))"

end
