(* ===== verification/Fs.thy ===== *)
theory Fs
  imports Console
begin

text \<open>
  Files, directories and path names of \<^verbatim>\<open>fs.c\<close>. The bytes \<^verbatim>\<open>readi\<close> copies to its caller are
  part of its result, those \<^verbatim>\<open>writei\<close> copies from its caller an argument. A path is the list of
  its characters without the terminating 0; \<^verbatim>\<open>name\<close> is the buffer of \<open>DIRSIZ\<close> bytes.
\<close>

section \<open>Contents of inodes\<close>

abbreviation (input) NDEV :: int where "NDEV \<equiv> 10"
abbreviation (input) CONSOLE :: int where "CONSOLE \<equiv> 1"
abbreviation (input) DIRSIZ :: nat where "DIRSIZ \<equiv> 14"

record stat_st =
  st_dev :: u32
  st_ino :: nat
  st_type :: u16
  st_nlink :: u16
  st_size :: nat

definition stati :: "inode \<Rightarrow> stat_st" where
  "stati x = \<lparr>st_dev = i_dev x, st_ino = i_inum x, st_type = i_type x, st_nlink = i_nlink x, st_size = i_size x\<rparr>"

text \<open>The entry of \<^verbatim>\<open>devsw\<close> for a major number: only the console registers one.\<close>

definition dev_present :: "inode \<Rightarrow> 'a kcons_scheme \<Rightarrow> bool" where
  "dev_present x s \<longleftrightarrow> \<not> (sint (i_major x) < 0 \<or> sint (i_major x) \<ge> NDEV) \<and> sint (i_major x) = CONSOLE \<and> devsw_console s"

function readi_loop :: "nat \<Rightarrow> nat \<Rightarrow> nat \<Rightarrow> u8 list \<Rightarrow> ('a kcons_scheme, u8 list) kernel" where
  "readi_loop ip off n acc =
     (if n = 0 then ret acc
      else bind (get_inode ip) (\<lambda>x.
        bind (bmap ip (off div BSIZE)) (\<lambda>addr.
          bind (bread (i_dev x) addr) (\<lambda>bp. bind (get_buf bp) (\<lambda>b.
            let m = min n (BSIZE - off mod BSIZE) in
            andthen (brelse bp)
              (readi_loop ip (off + m) (n - m) (acc @ take m (drop (off mod BSIZE) (b_data b)))))))))"
  by pat_completeness auto
termination by (relation "measure (\<lambda>(ip, off, n, acc). n)") auto

declare readi_loop.simps [simp del]

definition readi :: "nat \<Rightarrow> nat \<Rightarrow> nat \<Rightarrow> ('a kcons_scheme, int \<times> u8 list) kernel" where
  "readi ip off n =
     bind (get_inode ip) (\<lambda>x.
       if i_type x = T_DEV
       then bind (gets_st (dev_present x)) (\<lambda>p. if p then consoleread ip (sint (of_nat n :: u32)) else ret (- 1, []))
       else if off > i_size x \<or> (off + n) mod 2 ^ 32 < off then ret (- 1, [])
       else let n = (if off + n > i_size x then i_size x - off else n) in
         bind (readi_loop ip off n []) (\<lambda>bytes. ret (int n, bytes)))"

text \<open>The loop of \<^verbatim>\<open>writei\<close>; the result is the offset it ends at.\<close>

function writei_loop :: "nat \<Rightarrow> nat \<Rightarrow> u8 list \<Rightarrow> ('a kcons_scheme, nat) kernel" where
  "writei_loop ip off src =
     (if src = [] then ret off
      else bind (get_inode ip) (\<lambda>x.
        bind (bmap ip (off div BSIZE)) (\<lambda>addr.
          bind (bread (i_dev x) addr) (\<lambda>bp.
            let m = min (length src) (BSIZE - off mod BSIZE); o1 = off mod BSIZE in
            andthen (upd_buf bp (\<lambda>b. b\<lparr>b_data := take o1 (b_data b) @ take m src @ drop (o1 + m) (b_data b)\<rparr>))
              (andthen (log_write bp)
                (andthen (brelse bp) (writei_loop ip (off + m) (drop m src))))))))"
  by pat_completeness auto
termination by (relation "measure (\<lambda>(ip, off, src). length src)") auto

declare writei_loop.simps [simp del]

definition writei :: "nat \<Rightarrow> u8 list \<Rightarrow> nat \<Rightarrow> ('a kcons_scheme, int) kernel" where
  "writei ip src off =
     bind (get_inode ip) (\<lambda>x.
       if i_type x = T_DEV
       then bind (gets_st (dev_present x)) (\<lambda>p. if p then consolewrite ip src else ret (- 1))
       else if off > i_size x \<or> (off + length src) mod 2 ^ 32 < off then ret (- 1)
       else if off + length src > MAXFILE * BSIZE then ret (- 1)
       else bind (writei_loop ip off src) (\<lambda>off'.
         andthen
           (bind (get_inode ip) (\<lambda>x.
              if 0 < length src \<and> off' > i_size x
              then andthen (upd_inode ip (\<lambda>x. x\<lparr>i_size := off'\<rparr>)) (iupdate ip)
              else ret ()))
           (ret (int (length src)))))"

section \<open>Directories\<close>

text \<open>\<^verbatim>\<open>strncmp\<close> on strings given as lists; a list that ends is followed by a 0.\<close>

fun list_strncmp :: "nat \<Rightarrow> u8 list \<Rightarrow> u8 list \<Rightarrow> int" where
  "list_strncmp 0 p q = 0"
| "list_strncmp (Suc n) p q =
     (if byte_at p 0 \<noteq> 0 \<and> byte_at p 0 = byte_at q 0 then list_strncmp n (tl p) (tl q)
      else uint (byte_at p 0) - uint (byte_at q 0))"

definition namecmp :: "u8 list \<Rightarrow> u8 list \<Rightarrow> int" where
  "namecmp s t = list_strncmp DIRSIZ s t"

definition de_inum :: "u8 list \<Rightarrow> nat" where
  "de_inum de = unat (rd16 de 0)"

definition de_name :: "u8 list \<Rightarrow> u8 list" where
  "de_name de = take DIRSIZ (drop 2 de)"

text \<open>\<^verbatim>\<open>de\<close> after \<^verbatim>\<open>strncpy(de.name, name, DIRSIZ)\<close> and \<^verbatim>\<open>de.inum = inum\<close>.\<close>

definition mk_dirent :: "u8 list \<Rightarrow> nat \<Rightarrow> u8 list" where
  "mk_dirent name inum =
     (let cs = take DIRSIZ (takeWhile (\<lambda>c. c \<noteq> 0) name)
      in wr16 0 (of_nat inum) [0, 0] @ cs @ replicate (DIRSIZ - length cs) 0)"

definition dir_offsets :: "nat \<Rightarrow> nat list" where
  "dir_offsets n = map (\<lambda>k. 16 * k) [0..<(n + 15) div 16]"

fun dirlookup_loop :: "nat \<Rightarrow> u8 list \<Rightarrow> nat list \<Rightarrow> ('a kcons_scheme, (nat \<times> nat) option) kernel" where
  "dirlookup_loop dp name [] = ret None"
| "dirlookup_loop dp name (off # offs) =
     bind (readi dp off 16) (\<lambda>(r, de).
       if r \<noteq> 16 then panic ''dirlink read''
       else if de_inum de = 0 then dirlookup_loop dp name offs
       else if namecmp name (de_name de) = 0
       then bind (get_inode dp) (\<lambda>x. bind (iget (i_dev x) (de_inum de)) (\<lambda>ip. ret (Some (ip, off))))
       else dirlookup_loop dp name offs)"

definition dirlookup :: "nat \<Rightarrow> u8 list \<Rightarrow> ('a kcons_scheme, (nat \<times> nat) option) kernel" where
  "dirlookup dp name =
     bind (get_inode dp) (\<lambda>x.
       if i_type x \<noteq> T_DIR then panic ''dirlookup not DIR''
       else dirlookup_loop dp name (dir_offsets (i_size x)))"

text \<open>The offset of the first empty entry, or the end of the directory.\<close>

fun dirlink_slot :: "nat \<Rightarrow> nat \<Rightarrow> nat list \<Rightarrow> ('a kcons_scheme, nat) kernel" where
  "dirlink_slot dp end [] = ret end"
| "dirlink_slot dp end (off # offs) =
     bind (readi dp off 16) (\<lambda>(r, de).
       if r \<noteq> 16 then panic ''dirlink read''
       else if de_inum de = 0 then ret off
       else dirlink_slot dp end offs)"

definition dirlink :: "nat \<Rightarrow> u8 list \<Rightarrow> nat \<Rightarrow> ('a kcons_scheme, int) kernel" where
  "dirlink dp name inum =
     bind (dirlookup dp name) (\<lambda>r.
       case r of
         Some (ip, off) \<Rightarrow> andthen (iput ip) (ret (- 1))
       | None \<Rightarrow>
           bind (get_inode dp) (\<lambda>x.
             bind (dirlink_slot dp (16 * ((i_size x + 15) div 16)) (dir_offsets (i_size x))) (\<lambda>off.
               bind (writei dp (mk_dirent name inum) off) (\<lambda>w.
                 if w \<noteq> 16 then panic ''dirlink'' else ret 0))))"

section \<open>Paths\<close>

text \<open>The rest of the path and the new contents of the buffer \<^verbatim>\<open>name\<close>.\<close>

definition skipelem :: "u8 list \<Rightarrow> u8 list \<Rightarrow> (u8 list \<times> u8 list) option" where
  "skipelem path name =
     (let p = dropWhile (\<lambda>c. c = 47) path in
      if p = [] then None
      else let elem = takeWhile (\<lambda>c. c \<noteq> 47) p;
               rest = dropWhile (\<lambda>c. c = 47) (dropWhile (\<lambda>c. c \<noteq> 47) p);
               name' = (if length elem \<ge> DIRSIZ then take DIRSIZ elem
                        else elem @ [0] @ drop (length elem + 1) name)
           in Some (rest, name'))"

lemma length_dropWhile_less: "p \<noteq> [] \<Longrightarrow> \<not> P (hd p) \<Longrightarrow> length (dropWhile (\<lambda>c. \<not> P c) p) < length p"
  using length_dropWhile_le [of "\<lambda>c. \<not> P c" "tl p"] by (cases p) auto

lemma skipelem_shorter: "skipelem path name = Some (rest, name') \<Longrightarrow> length rest < length path"
proof -
  assume a: "skipelem path name = Some (rest, name')"
  let ?p = "dropWhile (\<lambda>c. c = 47) path"
  have p: "?p \<noteq> []" and r: "rest = dropWhile (\<lambda>c. c = 47) (dropWhile (\<lambda>c. c \<noteq> 47) ?p)"
    using a by (auto simp: skipelem_def Let_def split: if_splits)
  have "hd ?p \<noteq> 47" using hd_dropWhile [OF p] by simp
  then have "length (dropWhile (\<lambda>c. c \<noteq> 47) ?p) < length ?p" using length_dropWhile_less [of ?p "\<lambda>c. c = 47"] p by simp
  then show ?thesis unfolding r
    using length_dropWhile_le [of "\<lambda>c. c = 47" path] length_dropWhile_le [of "\<lambda>c. c = 47" "dropWhile (\<lambda>c. c \<noteq> 47) ?p"] by linarith
qed

function namex_loop :: "nat \<Rightarrow> u8 list \<Rightarrow> bool \<Rightarrow> u8 list \<Rightarrow> ('a kcons_scheme, nat option \<times> u8 list) kernel" where
  "namex_loop ip path nameiparent name =
     (case skipelem path name of
        None \<Rightarrow> if nameiparent then andthen (iput ip) (ret (None, name)) else ret (Some ip, name)
      | Some (rest, name') \<Rightarrow>
          andthen (ilock ip)
            (bind (get_inode ip) (\<lambda>x.
               if i_type x \<noteq> T_DIR then andthen (iunlockput ip) (ret (None, name'))
               else if nameiparent \<and> rest = [] then andthen (iunlock ip) (ret (Some ip, name'))
               else bind (dirlookup ip name') (\<lambda>r.
                 case r of
                   None \<Rightarrow> andthen (iunlockput ip) (ret (None, name'))
                 | Some (next, off) \<Rightarrow> andthen (iunlockput ip) (namex_loop next rest nameiparent name')))))"
  by pat_completeness auto
termination
  by (relation "measure (\<lambda>(ip, path, par, name). length path)") (auto dest: skipelem_shorter)

declare namex_loop.simps [simp del]

definition namex :: "u8 list \<Rightarrow> bool \<Rightarrow> u8 list \<Rightarrow> ('a kcons_scheme, nat option \<times> u8 list) kernel" where
  "namex path nameiparent name =
     bind (if path \<noteq> [] \<and> hd path = 47 then iget ROOTDEV ROOTINO
           else bind (gets_st (\<lambda>s. the (cwd (myproc s)))) idup) (\<lambda>ip.
       namex_loop ip path nameiparent name)"

definition namei :: "u8 list \<Rightarrow> ('a kcons_scheme, nat option) kernel" where
  "namei path = bind (namex path False (replicate DIRSIZ 0)) (\<lambda>(ip, name). ret ip)"

definition nameiparent :: "u8 list \<Rightarrow> u8 list \<Rightarrow> ('a kcons_scheme, nat option \<times> u8 list) kernel" where
  "nameiparent path name = namex path True name"

end
