(* ===== verification/File.thy ===== *)
theory File
  imports Fs
begin

text \<open>
  Pipes (\<^verbatim>\<open>pipe.c\<close>) and open files (\<^verbatim>\<open>file.c\<close>). A pipe lives in a page of its own and is found by
  the address of the page; a pointer to a \<^verbatim>\<open>struct file\<close> is its index in \<^verbatim>\<open>ftable.file\<close>. Bytes
  copied from or to the caller's buffer are lists. The counters of a pipe are 32-bit
  words that wrap around.
\<close>

section \<open>State\<close>

abbreviation (input) PIPESIZE :: nat where "PIPESIZE \<equiv> 512"
abbreviation (input) NFILE :: nat where "NFILE \<equiv> 100"

record pipe =
  p_data :: "u8 list"
  nread :: u32
  nwrite :: u32
  readopen :: bool
  writeopen :: bool

datatype fdtype = FD_NONE | FD_PIPE | FD_INODE

record file_st =
  f_type :: fdtype
  f_ref :: int
  f_readable :: bool
  f_writable :: bool
  f_pipe :: nat
  f_ip :: nat
  f_off :: nat

record kfile = kcons +
  ftable :: "file_st list"
  pipes :: "nat \<Rightarrow> pipe"

definition get_file :: "nat \<Rightarrow> ('a kfile_scheme, file_st) kernel" where
  "get_file f = gets_st (\<lambda>s. ftable s ! f)"

definition upd_file :: "nat \<Rightarrow> (file_st \<Rightarrow> file_st) \<Rightarrow> ('a kfile_scheme, unit) kernel" where
  "upd_file f g = modify (\<lambda>s. s\<lparr>ftable := (ftable s)[f := g (ftable s ! f)]\<rparr>)"

definition get_pipe :: "nat \<Rightarrow> ('a kfile_scheme, pipe) kernel" where
  "get_pipe p = gets_st (\<lambda>s. pipes s p)"

definition upd_pipe :: "nat \<Rightarrow> (pipe \<Rightarrow> pipe) \<Rightarrow> ('a kfile_scheme, unit) kernel" where
  "upd_pipe p g = modify (\<lambda>s. s\<lparr>pipes := (pipes s)(p := g (pipes s p))\<rparr>)"

section \<open>Pipes\<close>

definition pipeclose :: "nat \<Rightarrow> bool \<Rightarrow> ('a kfile_scheme, unit) kernel" where
  "pipeclose p writable =
     andthen (acquire (Lpipe p))
       (andthen
         (if writable
          then andthen (upd_pipe p (\<lambda>x. x\<lparr>writeopen := False\<rparr>)) (wakeup (ChPipeRead p))
          else andthen (upd_pipe p (\<lambda>x. x\<lparr>readopen := False\<rparr>)) (wakeup (ChPipeWrite p)))
         (bind (get_pipe p) (\<lambda>x.
           if \<not> readopen x \<and> \<not> writeopen x
           then andthen (release (Lpipe p)) (kfree p)
           else release (Lpipe p))))"

definition pipe_put :: "u8 \<Rightarrow> pipe \<Rightarrow> pipe" where
  "pipe_put c x = x\<lparr>p_data := (p_data x)[unat (nwrite x) mod PIPESIZE := c], nwrite := nwrite x + 1\<rparr>"

text \<open>
  The loop of \<^verbatim>\<open>pipewrite\<close> over the bytes not yet written; \<open>n\<close> is the argument. A process that
  is woken enters it again with the same bytes.
\<close>

fun pipewrite_loop :: "nat \<Rightarrow> int \<Rightarrow> u8 list \<Rightarrow> ('a kfile_scheme, int) kernel" where
  "pipewrite_loop p n [] = andthen (wakeup (ChPipeRead p)) (andthen (release (Lpipe p)) (ret n))"
| "pipewrite_loop p n (c # cs) =
     bind (get_pipe p) (\<lambda>x.
       if nwrite x = nread x + of_nat PIPESIZE
       then bind (gets_st (\<lambda>s. killed (myproc s))) (\<lambda>k.
         if \<not> readopen x \<or> k then andthen (release (Lpipe p)) (ret (- 1))
         else andthen (wakeup (ChPipeRead p)) (suspend (ChPipeWrite p) (Lpipe p)))
       else andthen (upd_pipe p (pipe_put c)) (pipewrite_loop p n cs))"

definition pipewrite :: "nat \<Rightarrow> u8 list \<Rightarrow> int \<Rightarrow> ('a kfile_scheme, int) kernel" where
  "pipewrite p bytes n = andthen (acquire (Lpipe p)) (pipewrite_loop p n bytes)"

definition pipe_front :: "pipe \<Rightarrow> u8" where
  "pipe_front x = p_data x ! (unat (nread x) mod PIPESIZE)"

fun piperead_copy :: "nat \<Rightarrow> nat \<Rightarrow> ('a kfile_scheme, u8 list) kernel" where
  "piperead_copy p 0 = ret []"
| "piperead_copy p (Suc n) =
     bind (get_pipe p) (\<lambda>x.
       if nread x = nwrite x then ret []
       else andthen (upd_pipe p (\<lambda>x. x\<lparr>nread := nread x + 1\<rparr>))
         (bind (piperead_copy p n) (\<lambda>cs. ret (pipe_front x # cs))))"

text \<open>\<^verbatim>\<open>piperead\<close> once it holds the lock; a process that is woken comes back here.\<close>

definition piperead_loop :: "nat \<Rightarrow> int \<Rightarrow> ('a kfile_scheme, int \<times> u8 list) kernel" where
  "piperead_loop p n =
     bind (get_pipe p) (\<lambda>x.
       if nread x = nwrite x \<and> writeopen x
       then bind (gets_st (\<lambda>s. killed (myproc s))) (\<lambda>k.
         if k then andthen (release (Lpipe p)) (ret (- 1, [])) else suspend (ChPipeRead p) (Lpipe p))
       else bind (piperead_copy p (nat n)) (\<lambda>cs.
         andthen (wakeup (ChPipeWrite p)) (andthen (release (Lpipe p)) (ret (int (length cs), cs)))))"

definition piperead :: "nat \<Rightarrow> int \<Rightarrow> ('a kfile_scheme, int \<times> u8 list) kernel" where
  "piperead p n = andthen (acquire (Lpipe p)) (piperead_loop p n)"

section \<open>Files\<close>

definition fileinit :: "('a kfile_scheme, unit) kernel" where
  "fileinit = initlock Lftable"

fun free_file :: "nat \<Rightarrow> file_st list \<Rightarrow> nat option" where
  "free_file i [] = None"
| "free_file i (f # fs) = (if f_ref f = 0 then Some i else free_file (i + 1) fs)"

definition filealloc :: "('a kfile_scheme, nat option) kernel" where
  "filealloc =
     andthen (acquire Lftable)
       (bind (gets_st (\<lambda>s. free_file 0 (ftable s))) (\<lambda>r.
         case r of
           Some f \<Rightarrow> andthen (upd_file f (\<lambda>x. x\<lparr>f_ref := 1\<rparr>)) (andthen (release Lftable) (ret (Some f)))
         | None \<Rightarrow> andthen (release Lftable) (ret None)))"

definition filedup :: "nat \<Rightarrow> ('a kfile_scheme, nat) kernel" where
  "filedup f =
     andthen (acquire Lftable)
       (bind (get_file f) (\<lambda>x.
         if f_ref x < 1 then panic ''filedup''
         else andthen (upd_file f (\<lambda>x. x\<lparr>f_ref := f_ref x + 1\<rparr>)) (andthen (release Lftable) (ret f))))"

definition fileclose :: "nat \<Rightarrow> ('a kfile_scheme, unit) kernel" where
  "fileclose f =
     andthen (acquire Lftable)
       (bind (get_file f) (\<lambda>ff.
         if f_ref ff < 1 then panic ''fileclose''
         else andthen (upd_file f (\<lambda>x. x\<lparr>f_ref := f_ref x - 1\<rparr>))
           (if f_ref ff - 1 > 0 then release Lftable
            else andthen (upd_file f (\<lambda>x. x\<lparr>f_ref := 0, f_type := FD_NONE\<rparr>))
              (andthen (release Lftable)
                (case f_type ff of
                   FD_PIPE \<Rightarrow> pipeclose (f_pipe ff) (f_writable ff)
                 | FD_INODE \<Rightarrow> andthen begin_trans (andthen (iput (f_ip ff)) commit_trans)
                 | FD_NONE \<Rightarrow> ret ())))))"

definition filestat :: "nat \<Rightarrow> ('a kfile_scheme, stat_st option) kernel" where
  "filestat f =
     bind (get_file f) (\<lambda>x.
       if f_type x = FD_INODE
       then andthen (ilock (f_ip x))
         (bind (get_inode (f_ip x)) (\<lambda>i. andthen (iunlock (f_ip x)) (ret (Some (stati i)))))
       else ret None)"

definition fileread :: "nat \<Rightarrow> int \<Rightarrow> ('a kfile_scheme, int \<times> u8 list) kernel" where
  "fileread f n =
     bind (get_file f) (\<lambda>x.
       if \<not> f_readable x then ret (- 1, [])
       else case f_type x of
           FD_PIPE \<Rightarrow> piperead (f_pipe x) n
         | FD_INODE \<Rightarrow>
             andthen (ilock (f_ip x))
               (bind (readi (f_ip x) (f_off x) (unat (of_int n :: u32))) (\<lambda>(r, bytes).
                 andthen (if r > 0 then upd_file f (\<lambda>x. x\<lparr>f_off := (f_off x + nat r) mod 2 ^ 32\<rparr>) else ret ())
                   (andthen (iunlock (f_ip x)) (ret (r, bytes)))))
         | FD_NONE \<Rightarrow> panic ''fileread'')"

text \<open>\<^verbatim>\<open>((LOGSIZE-1-1-2) / 2) * 512\<close>\<close>

definition filewrite_max :: nat where
  "filewrite_max = ((LOGSIZE - 1 - 1 - 2) div 2) * 512"

text \<open>The loop of \<^verbatim>\<open>filewrite\<close> over the bytes left; \<open>True\<close> when all were written.\<close>

function filewrite_loop :: "nat \<Rightarrow> u8 list \<Rightarrow> ('a kfile_scheme, bool) kernel" where
  "filewrite_loop f src =
     (if src = [] then ret True
      else let n1 = min (length src) filewrite_max in
        bind (get_file f) (\<lambda>x.
          andthen begin_trans
            (andthen (ilock (f_ip x))
              (bind (writei (f_ip x) (take n1 src) (f_off x)) (\<lambda>r.
                andthen (if r > 0 then upd_file f (\<lambda>x. x\<lparr>f_off := (f_off x + nat r) mod 2 ^ 32\<rparr>) else ret ())
                  (andthen (iunlock (f_ip x))
                    (andthen commit_trans
                      (if r < 0 then ret False
                       else if r \<noteq> int n1 then panic ''short filewrite''
                       else filewrite_loop f (drop n1 src)))))))))"
  by pat_completeness auto
termination by (relation "measure (\<lambda>(f, src). length src)") (auto simp: filewrite_max_def)

declare filewrite_loop.simps [simp del]

definition filewrite :: "nat \<Rightarrow> u8 list \<Rightarrow> int \<Rightarrow> ('a kfile_scheme, int) kernel" where
  "filewrite f src n =
     bind (get_file f) (\<lambda>x.
       if \<not> f_writable x then ret (- 1)
       else case f_type x of
           FD_PIPE \<Rightarrow> pipewrite (f_pipe x) src n
         | FD_INODE \<Rightarrow> if n < 0 then ret (- 1) else bind (filewrite_loop f src) (\<lambda>all. ret (if all then n else - 1))
         | FD_NONE \<Rightarrow> panic ''filewrite'')"

text \<open>The error path of \<^verbatim>\<open>pipealloc\<close>, at which no page is held.\<close>

definition pipealloc_bad :: "nat option \<Rightarrow> nat option \<Rightarrow> ('a kfile_scheme, (nat \<times> nat) option) kernel" where
  "pipealloc_bad f0 f1 =
     andthen (case f0 of None \<Rightarrow> ret () | Some f \<Rightarrow> fileclose f)
       (andthen (case f1 of None \<Rightarrow> ret () | Some f \<Rightarrow> fileclose f) (ret None))"

definition pipealloc :: "('a kfile_scheme, (nat \<times> nat) option) kernel" where
  "pipealloc =
     bind filealloc (\<lambda>f0. case f0 of
         None \<Rightarrow> pipealloc_bad None None
       | Some r \<Rightarrow> bind filealloc (\<lambda>f1. case f1 of
           None \<Rightarrow> pipealloc_bad f0 None
         | Some w \<Rightarrow> bind kalloc (\<lambda>p.
             if p = 0 then pipealloc_bad f0 f1
             else andthen (upd_pipe p (\<lambda>x. x\<lparr>readopen := True, writeopen := True, nwrite := 0, nread := 0\<rparr>))
               (andthen (initlock (Lpipe p))
                 (andthen (upd_file r (\<lambda>x. x\<lparr>f_type := FD_PIPE, f_readable := True, f_writable := False, f_pipe := p\<rparr>))
                   (andthen (upd_file w (\<lambda>x. x\<lparr>f_type := FD_PIPE, f_readable := False, f_writable := True, f_pipe := p\<rparr>))
                     (ret (Some (r, w)))))))))"

end
