(* ===== verification/Proc.thy ===== *)
theory Proc
  imports File
begin

text \<open>
  The life of a process in \<^verbatim>\<open>proc.c\<close>: creation, \<^verbatim>\<open>fork\<close>, \<^verbatim>\<open>exit\<close>, \<^verbatim>\<open>wait\<close>, growing its memory and
  the signal handler frame. The process table itself, blocking and scheduling are in the
  theory \<^verbatim>\<open>Sched\<close>. The kernel stack of a process is a page; of what \<^verbatim>\<open>allocproc\<close> writes there,
  the trap frame and the resume point of the context are fields of the process.
\<close>

section \<open>State\<close>

record kker = kfile +
  forkret_first :: bool
  ticks :: u32

definition get_proc :: "nat \<Rightarrow> ('a kproc_scheme, proc) kernel" where
  "get_proc i = gets_st (\<lambda>s. procs s ! i)"

definition set_proc :: "nat \<Rightarrow> (proc \<Rightarrow> proc) \<Rightarrow> ('a kproc_scheme, unit) kernel" where
  "set_proc i f = modify (upd_proc i f)"

definition cur_proc :: "('a kproc_scheme, proc) kernel" where
  "cur_proc = gets_st myproc"

section \<open>Creating processes\<close>

fun find_unused :: "nat \<Rightarrow> proc list \<Rightarrow> nat option" where
  "find_unused i [] = None"
| "find_unused i (p # ps) = (if pstate p = UNUSED then Some i else find_unused (i + 1) ps)"

definition allocproc :: "('a kker_scheme, nat option) kernel" where
  "allocproc =
     andthen (acquire Lptable)
       (bind (gets_st (\<lambda>s. find_unused 0 (procs s))) (\<lambda>r.
         case r of
           None \<Rightarrow> andthen (release Lptable) (ret None)
         | Some i \<Rightarrow>
             bind (gets_st nextpid) (\<lambda>np.
               andthen (set_proc i (\<lambda>p. p\<lparr>pstate := EMBRYO, pid := np\<rparr>))
                 (andthen (modify (\<lambda>s. s\<lparr>nextpid := np + 1\<rparr>))
                   (andthen (release Lptable)
                     (bind kalloc (\<lambda>k.
                       andthen (set_proc i (\<lambda>p. p\<lparr>kstack := k\<rparr>))
                         (if k = 0 then andthen (set_proc i (\<lambda>p. p\<lparr>pstate := UNUSED\<rparr>)) (ret None)
                          else andthen (set_proc i (\<lambda>p. p\<lparr>kcontext := Forkret\<rparr>)) (ret (Some i))))))))))"

text \<open>\<^verbatim>\<open>(SEG_UCODE << 3) | DPL_USER\<close>, \<^verbatim>\<open>(SEG_UDATA << 3) | DPL_USER\<close> and \<^verbatim>\<open>FL_IF\<close>.\<close>

definition init_tf :: trapframe where
  "init_tf = zero_tf\<lparr>tf_cs := 0x23, tf_ds := 0x2B, tf_es := 0x2B, tf_ss := 0x2B, tf_eflags := 0x200,
     tf_esp := of_nat PGSIZE, tf_eip := 0\<rparr>"

text \<open>
  The arguments are the address and the size of the program \<^verbatim>\<open>initcode\<close> that the linker puts into the
  kernel. When \<^verbatim>\<open>allocproc\<close> returns 0 the code dereferences the null pointer.
\<close>

definition userinit :: "nat \<Rightarrow> nat \<Rightarrow> ('a kker_scheme, unit) kernel" where
  "userinit initcode initsize =
     bind allocproc (\<lambda>r. case r of
         None \<Rightarrow> undefined_behaviour
       | Some p \<Rightarrow>
           andthen (modify (\<lambda>s. s\<lparr>initproc := p\<rparr>))
             (bind setupkvm (\<lambda>pd.
               andthen (set_proc p (\<lambda>x. x\<lparr>pgdir := pd\<rparr>))
                 (if pd = 0 then panic ''userinit: out of memory?''
                  else andthen (inituvm pd initcode initsize)
                    (andthen (set_proc p (\<lambda>x. x\<lparr>sz := of_nat PGSIZE, tf := init_tf, pname := ''initcode''\<rparr>))
                      (bind (namei [47]) (\<lambda>ip.
                        set_proc p (\<lambda>x. x\<lparr>cwd := ip, pstate := RUNNABLE\<rparr>))))))))"

definition growproc :: "int \<Rightarrow> ('a kker_scheme, int) kernel" where
  "growproc n =
     bind cur_proc (\<lambda>p.
       let old = unat (sz p); new = unat (sz p + of_int n) in
       bind
         (if n > 0 then allocuvm (pgdir p) old new
          else if n < 0 then deallocuvm (pgdir p) old new
          else ret old) (\<lambda>r.
         if n \<noteq> 0 \<and> r = 0 then ret (- 1)
         else andthen (upd_cur (\<lambda>p. p\<lparr>sz := of_nat r\<rparr>))
           (bind (gets_st (\<lambda>s. the (cur s))) (\<lambda>i. andthen (switchuvm i) (ret 0)))))"

text \<open>The loop of \<^verbatim>\<open>fork\<close> over the open files: the descriptors of the child.\<close>

fun dup_files :: "nat option list \<Rightarrow> ('a kfile_scheme, unit) kernel" where
  "dup_files [] = ret ()"
| "dup_files (f # fs) =
     andthen (case f of None \<Rightarrow> ret () | Some x \<Rightarrow> bind (filedup x) (\<lambda>_. ret ())) (dup_files fs)"

definition child_files :: "nat option list \<Rightarrow> nat option list \<Rightarrow> nat option list" where
  "child_files fs gs = map2 (\<lambda>f g. case f of None \<Rightarrow> g | Some x \<Rightarrow> Some x) fs gs"

definition fork :: "('a kker_scheme, int) kernel" where
  "fork =
     bind allocproc (\<lambda>r. case r of
         None \<Rightarrow> ret (- 1)
       | Some np \<Rightarrow>
           bind cur_proc (\<lambda>p.
             bind (copyuvm (pgdir p) (unat (sz p))) (\<lambda>pd.
               andthen (set_proc np (\<lambda>x. x\<lparr>pgdir := pd\<rparr>))
                 (if pd = 0
                  then bind (get_proc np) (\<lambda>x.
                    andthen (kfree (kstack x))
                      (andthen (set_proc np (\<lambda>x. x\<lparr>kstack := 0, pstate := UNUSED\<rparr>)) (ret (- 1))))
                  else bind (gets_st cur) (\<lambda>c.
                    andthen (set_proc np (\<lambda>x. x\<lparr>sz := sz p, parent := c, tf := (tf p)\<lparr>tf_eax := 0\<rparr>\<rparr>))
                      (andthen (dup_files (ofile p))
                        (andthen (set_proc np (\<lambda>x. x\<lparr>ofile := child_files (ofile p) (ofile x)\<rparr>))
                          (bind (idup (the (cwd p))) (\<lambda>ip.
                            bind (get_proc np) (\<lambda>x.
                              andthen (set_proc np (\<lambda>x. x\<lparr>cwd := Some ip, pstate := RUNNABLE, pname := take 15 (pname p)\<rparr>))
                                (ret (pid x))))))))))))"

text \<open>\<^verbatim>\<open>forkret\<close>, where a new process starts, holding \<^verbatim>\<open>ptable.lock\<close>.\<close>

definition forkret :: "('a kker_scheme, unit) kernel" where
  "forkret =
     andthen (release Lptable)
       (bind (gets_st forkret_first) (\<lambda>first.
         if first then andthen (modify (\<lambda>s. s\<lparr>forkret_first := False\<rparr>)) initlog else ret ()))"

section \<open>Ending processes\<close>

fun close_files :: "nat list \<Rightarrow> ('a kfile_scheme, unit) kernel" where
  "close_files [] = ret ()"
| "close_files (fd # fds) =
     bind cur_proc (\<lambda>p.
       andthen
         (case ofile p ! fd of
            None \<Rightarrow> ret ()
          | Some f \<Rightarrow> andthen (fileclose f) (upd_cur (\<lambda>p. p\<lparr>ofile := (ofile p)[fd := None]\<rparr>)))
         (close_files fds))"

text \<open>One round of the loop of \<^verbatim>\<open>exit\<close> that passes the children of \<open>me\<close> to \<open>init\<close>.\<close>

definition abandon :: "nat \<Rightarrow> nat \<Rightarrow> nat \<Rightarrow> proc list \<Rightarrow> proc list" where
  "abandon m init i ps =
     (if parent (ps ! i) = Some m
      then let ps1 = ps[i := (ps ! i)\<lparr>parent := Some init\<rparr>]
           in if pstate (ps1 ! i) = ZOMBIE then map (wake (ChProc init)) ps1 else ps1
      else ps)"

definition exit_proc :: "('a kker_scheme, unit) kernel" where
  "exit_proc =
     bind (gets_st (\<lambda>s. (the (cur s), initproc s))) (\<lambda>(me, init).
       if me = init then panic ''init exiting''
       else andthen (close_files [0..<NOFILE])
         (bind cur_proc (\<lambda>p.
           andthen (iput (the (cwd p)))
             (andthen (upd_cur (\<lambda>p. p\<lparr>cwd := None\<rparr>))
               (andthen (acquire Lptable)
                 (andthen (case parent p of None \<Rightarrow> ret () | Some q \<Rightarrow> wakeup1 (ChProc q))
                   (andthen (modify (\<lambda>s. s\<lparr>procs := fold (abandon me init) [0..<length (procs s)] (procs s)\<rparr>))
                     (andthen (upd_cur (\<lambda>p. p\<lparr>pstate := ZOMBIE\<rparr>))
                       (andthen sched (panic ''zombie exit''))))))))))"

text \<open>
  The scan of \<^verbatim>\<open>wait\<close> over the table, holding the lock; \<open>kids\<close> is \<^verbatim>\<open>havekids\<close>. A process that is
  woken scans again.
\<close>

fun wait_scan :: "bool \<Rightarrow> nat list \<Rightarrow> ('a kker_scheme, int) kernel" where
  "wait_scan kids [] =
     bind cur_proc (\<lambda>p.
       if \<not> kids \<or> killed p then andthen (release Lptable) (ret (- 1))
       else bind (gets_st (\<lambda>s. the (cur s))) (\<lambda>me. suspend (ChProc me) Lptable))"
| "wait_scan kids (i # is) =
     bind (get_proc i) (\<lambda>p. bind (gets_st cur) (\<lambda>me.
       if parent p \<noteq> me then wait_scan kids is
       else if pstate p = ZOMBIE
       then andthen (kfree (kstack p))
         (andthen (set_proc i (\<lambda>p. p\<lparr>kstack := 0\<rparr>))
           (andthen (freevm (pgdir p))
             (andthen (set_proc i (\<lambda>p. p\<lparr>pstate := UNUSED, pid := 0, parent := None, pname := [], killed := False\<rparr>))
               (andthen (release Lptable) (ret (pid p))))))
       else wait_scan True is))"

definition wait_loop :: "('a kker_scheme, int) kernel" where
  "wait_loop = bind (gets_st (\<lambda>s. [0..<length (procs s)])) (wait_scan False)"

definition wait :: "('a kker_scheme, int) kernel" where
  "wait = andthen (acquire Lptable) wait_loop"

definition register_handler :: "u32 \<Rightarrow> ('a kker_scheme, unit) kernel" where
  "register_handler sighandler =
     bind cur_proc (\<lambda>p.
       let esp = tf_esp (tf p) in
       bind (uva2ka (pgdir p) (unat esp)) (\<lambda>addr.
         if esp AND 0xFFF = 0 then panic ''esp_offset == 0''
         else andthen (set32 (addr + unat ((esp - 4) AND 0xFFF)) (tf_eip (tf p)))
           (upd_cur (\<lambda>p. p\<lparr>tf := (tf p)\<lparr>tf_esp := esp - 4, tf_eip := sighandler\<rparr>\<rparr>))))"

end
