(* ===== verification/Exec.thy ===== *)
theory Exec
  imports Proc
begin

text \<open>
  Access of the kernel to the memory of the running process, and \<^verbatim>\<open>exec\<close> (\<^verbatim>\<open>exec.c\<close>, with
  \<^verbatim>\<open>loaduvm\<close> of \<^verbatim>\<open>vm.c\<close>). The kernel reads and writes user addresses through the page table of
  the process; where no page is mapped the processor faults and the kernel panics in
  \<^verbatim>\<open>trap\<close>.
\<close>

section \<open>User memory seen from the kernel\<close>

definition uload8 :: "nat \<Rightarrow> ('a kker_scheme, u8) kernel" where
  "uload8 va s =
     (let pd = pgdir (myproc s) in
      case lookup (kbytes s) pd va of
        None \<Rightarrow> Panic ''trap''
      | Some e \<Rightarrow> Ok (kbytes s (ua (kbytes s) pd va)) s)"

fun uload :: "nat \<Rightarrow> nat \<Rightarrow> ('a kker_scheme, u8 list) kernel" where
  "uload va 0 = ret []"
| "uload va (Suc n) = bind (uload8 va) (\<lambda>b. bind (uload (va + 1) n) (\<lambda>bs. ret (b # bs)))"

definition ustore8 :: "nat \<Rightarrow> u8 \<Rightarrow> ('a kker_scheme, unit) kernel" where
  "ustore8 va b s =
     (let pd = pgdir (myproc s) in
      case lookup (kbytes s) pd va of
        None \<Rightarrow> Panic ''trap''
      | Some e \<Rightarrow> Ok () (s\<lparr>kbytes := (kbytes s)(ua (kbytes s) pd va := b)\<rparr>))"

fun ustore :: "nat \<Rightarrow> u8 list \<Rightarrow> ('a kker_scheme, unit) kernel" where
  "ustore va [] = ret ()"
| "ustore va (b # bs) = andthen (ustore8 va b) (ustore (va + 1) bs)"

section \<open>Loading a program\<close>

abbreviation (input) ELF_MAGIC :: u32 where "ELF_MAGIC \<equiv> 0x464C457F"
abbreviation (input) ELF_PROG_LOAD :: u32 where "ELF_PROG_LOAD \<equiv> 1"
abbreviation (input) MAXARG :: nat where "MAXARG \<equiv> 32"

text \<open>The fields of \<^verbatim>\<open>struct elfhdr\<close> (52 bytes) and \<^verbatim>\<open>struct proghdr\<close> (32 bytes) that \<^verbatim>\<open>exec\<close> reads.\<close>

record elfhdr =
  e_magic :: u32
  e_entry :: u32
  e_phoff :: u32
  e_phnum :: u16

definition rd_elfhdr :: "u8 list \<Rightarrow> elfhdr" where
  "rd_elfhdr d = \<lparr>e_magic = rd32 d 0, e_entry = rd32 d 24, e_phoff = rd32 d 28, e_phnum = rd16 d 44\<rparr>"

record proghdr =
  ph_type :: u32
  ph_off :: u32
  ph_vaddr :: u32
  ph_filesz :: u32
  ph_memsz :: u32

definition rd_proghdr :: "u8 list \<Rightarrow> proghdr" where
  "rd_proghdr d = \<lparr>ph_type = rd32 d 0, ph_off = rd32 d 4, ph_vaddr = rd32 d 8, ph_filesz = rd32 d 16, ph_memsz = rd32 d 20\<rparr>"

function loaduvm_loop :: "nat \<Rightarrow> u32 \<Rightarrow> nat \<Rightarrow> u32 \<Rightarrow> nat \<Rightarrow> nat \<Rightarrow> ('a kker_scheme, int) kernel" where
  "loaduvm_loop pd addr ip offset n i =
     (if i < n
      then bind (walkpgdir pd (unat (addr + of_nat i)) False) (\<lambda>pte.
        if pte = 0 then panic ''loaduvm: address should exist''
        else bind (get32 pte) (\<lambda>e.
          let k = min (n - i) PGSIZE; a = p2v (PTE_ADDR e) in
          bind (readi ip (unat (offset + of_nat i)) k) (\<lambda>(r, bytes).
            andthen (modify (\<lambda>s. s\<lparr>kbytes := wr (kbytes s) a bytes\<rparr>))
              (if r \<noteq> int k then ret (- 1) else loaduvm_loop pd addr ip offset n (i + PGSIZE)))))
      else ret 0)"
  by pat_completeness auto
termination by (relation "measure (\<lambda>(pd, addr, ip, offset, n, i). n - i)") auto

declare loaduvm_loop.simps [simp del]

definition loaduvm :: "nat \<Rightarrow> u32 \<Rightarrow> nat \<Rightarrow> u32 \<Rightarrow> nat \<Rightarrow> ('a kker_scheme, int) kernel" where
  "loaduvm pd addr ip offset n =
     (if unat addr mod PGSIZE \<noteq> 0 then panic ''loaduvm: addr must be page aligned''
      else loaduvm_loop pd addr ip offset n 0)"

text \<open>\<^verbatim>\<open>copyout\<close> with the source given by its bytes, which \<^verbatim>\<open>exec\<close> takes from another address space.\<close>

function copyout_bytes :: "nat \<Rightarrow> nat \<Rightarrow> u8 list \<Rightarrow> ('a kmemory_scheme, int) kernel" where
  "copyout_bytes pd va bs =
     (if bs \<noteq> []
      then let va0 = PGROUNDDOWN va in
        bind (uva2ka pd va0) (\<lambda>pa0.
          if pa0 = 0 then ret (-1)
          else let n = min (PGSIZE - (va - va0)) (length bs) in
            andthen (modify (\<lambda>s. s\<lparr>kbytes := wr (kbytes s) (pa0 + (va - va0)) (take n bs)\<rparr>))
              (copyout_bytes pd ((va0 + PGSIZE) mod 2 ^ 32) (drop n bs)))
      else ret 0)"
  by pat_completeness auto
termination by (relation "measure (\<lambda>(pd, va, bs). length bs)") (auto simp: PGROUNDDOWN_def minus_div_mult_eq_mod)

declare copyout_bytes.simps [simp del]

text \<open>The outcome of the part of \<^verbatim>\<open>exec\<close> that can jump to \<^verbatim>\<open>bad\<close>.\<close>

fun load_segments :: "nat \<Rightarrow> nat \<Rightarrow> nat \<Rightarrow> u32 \<Rightarrow> nat \<Rightarrow> ('a kker_scheme, nat option) kernel" where
  "load_segments ip pd 0 off n = ret (Some n)"
| "load_segments ip pd (Suc k) off n =
     bind (readi ip (unat off) 32) (\<lambda>(r, d).
       if r \<noteq> 32 then ret None
       else let ph = rd_proghdr d in
         if ph_type ph \<noteq> ELF_PROG_LOAD then load_segments ip pd k (off + 32) n
         else if ph_memsz ph < ph_filesz ph then ret None
         else bind (allocuvm pd n (unat (ph_vaddr ph + ph_memsz ph))) (\<lambda>n1.
           if n1 = 0 then ret None
           else bind (loaduvm pd (ph_vaddr ph) ip (ph_off ph) (unat (ph_filesz ph))) (\<lambda>l.
             if l < 0 then ret None else load_segments ip pd k (off + 32) n1)))"

text \<open>
  Pushing the argument strings: \<open>args\<close> are those left, \<open>argc\<close> their number so far, \<open>us\<close> the
  addresses entered in \<^verbatim>\<open>ustack\<close> from position 3 on.
\<close>

fun push_args :: "nat \<Rightarrow> u8 list list \<Rightarrow> nat \<Rightarrow> u32 \<Rightarrow> u32 list \<Rightarrow> ('a kker_scheme, (u32 \<times> u32 list) option) kernel" where
  "push_args pd [] argc sp us = ret (Some (sp, us))"
| "push_args pd (a # as) argc sp us =
     (if argc \<ge> MAXARG then ret None
      else let sp1 = (sp - of_nat (length a + 1)) AND NOT 3 in
        bind (copyout_bytes pd (unat sp1) (a @ [0])) (\<lambda>r.
          if r < 0 then ret None else push_args pd as (argc + 1) sp1 (us @ [sp1])))"

definition word_bytes :: "u32 \<Rightarrow> u8 list" where
  "word_bytes w = wr32 0 w [0, 0, 0, 0]"

text \<open>The last element of the path, for the name of the process.\<close>

definition last_elem :: "u8 list \<Rightarrow> u8 list" where
  "last_elem path = rev (takeWhile (\<lambda>c. c \<noteq> 47) (rev path))"

definition proc_name :: "u8 list \<Rightarrow> string" where
  "proc_name bs = take 15 (map (\<lambda>b. char_of (unat b)) bs)"

definition exec_bad :: "nat \<Rightarrow> nat option \<Rightarrow> ('a kker_scheme, int) kernel" where
  "exec_bad pd ip =
     andthen (if pd \<noteq> 0 then freevm pd else ret ())
       (andthen (case ip of None \<Rightarrow> ret () | Some i \<Rightarrow> iunlockput i) (ret (- 1)))"

text \<open>From the stack on: the new image is complete except for the arguments.\<close>

definition exec_stack :: "u8 list \<Rightarrow> u8 list list \<Rightarrow> nat \<Rightarrow> u32 \<Rightarrow> nat \<Rightarrow> ('a kker_scheme, int) kernel" where
  "exec_stack path argv pd start n =
     bind (allocuvm pd (PGROUNDUP n) (unat (of_nat (PGROUNDUP n) + 2 * of_nat PGSIZE :: u32))) (\<lambda>n1.
       if n1 = 0 then exec_bad pd None
       else andthen (clearpteu pd (n1 - 2 * PGSIZE))
         (bind (push_args pd argv 0 (of_nat n1) []) (\<lambda>r. case r of
             None \<Rightarrow> exec_bad pd None
           | Some (sp, us) \<Rightarrow>
               let argc = length us;
                   ustack = [0xffffffff, of_nat argc, sp - of_nat ((argc + 1) * 4)] @ us @ [0];
                   sp1 = sp - of_nat ((3 + argc + 1) * 4)
               in bind (copyout_bytes pd (unat sp1) (concat (map word_bytes ustack))) (\<lambda>r.
                 if r < 0 then exec_bad pd None
                 else bind cur_proc (\<lambda>p.
                   andthen (upd_cur (\<lambda>p. p\<lparr>pname := proc_name (last_elem path), pgdir := pd, sz := of_nat n1,
                       tf := (tf p)\<lparr>tf_eip := start, tf_esp := sp1\<rparr>\<rparr>))
                     (bind (gets_st (\<lambda>s. the (cur s))) (\<lambda>i.
                       andthen (switchuvm i) (andthen (freevm (pgdir p)) (ret 0)))))))))"

text \<open>
  The test \<^verbatim>\<open>readi(...) < sizeof(elf)\<close> compares unsigned numbers, so that it does not catch the
  result \<open>- 1\<close>; the code then goes on with an uninitialised header.
\<close>

definition exec :: "u8 list \<Rightarrow> u8 list list \<Rightarrow> ('a kker_scheme, int) kernel" where
  "exec path argv =
     bind (namei path) (\<lambda>r. case r of
         None \<Rightarrow> ret (- 1)
       | Some ip \<Rightarrow>
           andthen (ilock ip)
             (bind (readi ip 0 52) (\<lambda>(r, d).
               if unat (of_int r :: u32) < 52 then exec_bad 0 (Some ip)
               else if r < 0 then undefined_behaviour
               else let elf = rd_elfhdr d in
                 if e_magic elf \<noteq> ELF_MAGIC then exec_bad 0 (Some ip)
                 else bind setupkvm (\<lambda>pd.
                   if pd = 0 then exec_bad 0 (Some ip)
                   else bind (load_segments ip pd (unat (e_phnum elf)) (e_phoff elf) 0) (\<lambda>l. case l of
                       None \<Rightarrow> exec_bad pd (Some ip)
                     | Some n \<Rightarrow> andthen (iunlockput ip) (exec_stack path argv pd (e_entry elf) n))))))"

end
