(* ===== verification/Syscall.thy ===== *)
theory Syscall
  imports Exec
begin

text \<open>
  System calls: fetching arguments from the user stack (\<^verbatim>\<open>syscall.c\<close>), the handlers of
  \<^verbatim>\<open>sysproc.c\<close> and \<^verbatim>\<open>sysfile.c\<close>, and the dispatch on \<^verbatim>\<open>eax\<close>. A failed fetch is \<open>None\<close>. A string
  argument is fetched as the list of its characters.
\<close>

section \<open>Arguments\<close>

definition fetchint :: "u32 \<Rightarrow> ('a kker_scheme, u32 option) kernel" where
  "fetchint addr =
     bind cur_proc (\<lambda>p.
       if addr \<ge> sz p \<or> addr + 4 > sz p then ret None
       else bind (uload (unat addr) 4) (\<lambda>bs. ret (Some (rd32 bs 0))))"

text \<open>The loop of \<^verbatim>\<open>fetchstr\<close>: \<open>n\<close> bytes are left below \<^verbatim>\<open>p->sz\<close>.\<close>

fun fetchstr_loop :: "nat \<Rightarrow> nat \<Rightarrow> ('a kker_scheme, u8 list option) kernel" where
  "fetchstr_loop s 0 = ret None"
| "fetchstr_loop s (Suc n) =
     bind (uload8 s) (\<lambda>c.
       if c = 0 then ret (Some [])
       else bind (fetchstr_loop (s + 1) n) (\<lambda>r. ret (map_option (\<lambda>cs. c # cs) r)))"

definition fetchstr :: "u32 \<Rightarrow> ('a kker_scheme, u8 list option) kernel" where
  "fetchstr addr =
     bind cur_proc (\<lambda>p.
       if addr \<ge> sz p then ret None
       else fetchstr_loop (unat addr) (unat (sz p) - unat addr))"

definition argint :: "nat \<Rightarrow> ('a kker_scheme, u32 option) kernel" where
  "argint n = bind cur_proc (\<lambda>p. fetchint (tf_esp (tf p) + 4 + 4 * of_nat n))"

definition argptr :: "nat \<Rightarrow> u32 \<Rightarrow> ('a kker_scheme, u32 option) kernel" where
  "argptr n len =
     bind (argint n) (\<lambda>r. case r of
         None \<Rightarrow> ret None
       | Some i \<Rightarrow> bind cur_proc (\<lambda>p.
           if i \<ge> sz p \<or> i + len > sz p then ret None else ret (Some i)))"

definition argstr :: "nat \<Rightarrow> ('a kker_scheme, u8 list option) kernel" where
  "argstr n = bind (argint n) (\<lambda>r. case r of None \<Rightarrow> ret None | Some a \<Rightarrow> fetchstr a)"

text \<open>The common shape \<^verbatim>\<open>if(arg... < 0) return -1\<close>.\<close>

definition try_arg :: "('s, 'a option) kernel \<Rightarrow> ('a \<Rightarrow> ('s, int) kernel) \<Rightarrow> ('s, int) kernel" where
  "try_arg m f = bind m (\<lambda>r. case r of None \<Rightarrow> ret (- 1) | Some a \<Rightarrow> f a)"

section \<open>Processes\<close>

definition sys_fork :: "('a kker_scheme, int) kernel" where
  "sys_fork = fork"

definition sys_exit :: "('a kker_scheme, int) kernel" where
  "sys_exit = andthen exit_proc (ret 0)"

definition sys_wait :: "('a kker_scheme, int) kernel" where
  "sys_wait = wait"

definition sys_kill :: "('a kker_scheme, int) kernel" where
  "sys_kill = try_arg (argint 0) (\<lambda>p. kill (sint p))"

definition sys_getpid :: "('a kker_scheme, int) kernel" where
  "sys_getpid = bind cur_proc (\<lambda>p. ret (pid p))"

definition sys_sbrk :: "('a kker_scheme, int) kernel" where
  "sys_sbrk =
     try_arg (argint 0) (\<lambda>n.
       bind cur_proc (\<lambda>p.
         bind (growproc (sint n)) (\<lambda>r. if r < 0 then ret (- 1) else ret (sint (sz p)))))"

text \<open>The loop of \<^verbatim>\<open>sys_sleep\<close>; the comparison is unsigned. A process that is woken tests again.\<close>

definition sys_sleep_loop :: "u32 \<Rightarrow> u32 \<Rightarrow> ('a kker_scheme, int) kernel" where
  "sys_sleep_loop ticks0 n =
     bind (gets_st ticks) (\<lambda>t.
       if t - ticks0 < n
       then bind cur_proc (\<lambda>p.
         if killed p then andthen (release Lticks) (ret (- 1)) else suspend ChTicks Lticks)
       else andthen (release Lticks) (ret 0))"

definition sys_sleep :: "('a kker_scheme, int) kernel" where
  "sys_sleep =
     try_arg (argint 0) (\<lambda>n.
       andthen (acquire Lticks) (bind (gets_st ticks) (\<lambda>ticks0. sys_sleep_loop ticks0 n)))"

definition sys_uptime :: "('a kker_scheme, int) kernel" where
  "sys_uptime =
     andthen (acquire Lticks)
       (bind (gets_st ticks) (\<lambda>t. andthen (release Lticks) (ret (sint t))))"

section \<open>Files\<close>

definition argfd :: "nat \<Rightarrow> ('a kker_scheme, (nat \<times> nat) option) kernel" where
  "argfd n =
     bind (argint n) (\<lambda>r. case r of
         None \<Rightarrow> ret None
       | Some w \<Rightarrow> bind cur_proc (\<lambda>p.
           let fd = sint w in
           if fd < 0 \<or> fd \<ge> int NOFILE then ret None
           else case ofile p ! nat fd of None \<Rightarrow> ret None | Some f \<Rightarrow> ret (Some (nat fd, f))))"

fun free_fd :: "nat \<Rightarrow> nat option list \<Rightarrow> nat option" where
  "free_fd i [] = None"
| "free_fd i (f # fs) = (if f = None then Some i else free_fd (i + 1) fs)"

definition fdalloc :: "nat \<Rightarrow> ('a kker_scheme, nat option) kernel" where
  "fdalloc f =
     bind cur_proc (\<lambda>p. case free_fd 0 (ofile p) of
         None \<Rightarrow> ret None
       | Some fd \<Rightarrow> andthen (upd_cur (\<lambda>p. p\<lparr>ofile := (ofile p)[fd := Some f]\<rparr>)) (ret (Some fd)))"

definition sys_dup :: "('a kker_scheme, int) kernel" where
  "sys_dup =
     try_arg (argfd 0) (\<lambda>(_, f).
       try_arg (fdalloc f) (\<lambda>fd. bind (filedup f) (\<lambda>_. ret (int fd))))"

definition sys_read :: "('a kker_scheme, int) kernel" where
  "sys_read =
     try_arg (argfd 0) (\<lambda>(_, f). try_arg (argint 2) (\<lambda>n. try_arg (argptr 1 n) (\<lambda>p.
       bind (fileread f (sint n)) (\<lambda>(r, bytes). andthen (ustore (unat p) bytes) (ret r)))))"

definition sys_write :: "('a kker_scheme, int) kernel" where
  "sys_write =
     try_arg (argfd 0) (\<lambda>(_, f). try_arg (argint 2) (\<lambda>n. try_arg (argptr 1 n) (\<lambda>p.
       bind (uload (unat p) (nat (sint n))) (\<lambda>bytes. filewrite f bytes (sint n)))))"

definition sys_close :: "('a kker_scheme, int) kernel" where
  "sys_close =
     try_arg (argfd 0) (\<lambda>(fd, f).
       andthen (upd_cur (\<lambda>p. p\<lparr>ofile := (ofile p)[fd := None]\<rparr>)) (andthen (fileclose f) (ret 0)))"

text \<open>The fields of \<^verbatim>\<open>struct stat\<close> (20 bytes) that \<^verbatim>\<open>stati\<close> writes.\<close>

definition put_stat :: "nat \<Rightarrow> stat_st \<Rightarrow> ('a kker_scheme, unit) kernel" where
  "put_stat a st =
     andthen (ustore (a + 4) (word_bytes (st_dev st)))
       (andthen (ustore (a + 8) (word_bytes (of_nat (st_ino st))))
         (andthen (ustore a (wr16 0 (st_type st) [0, 0]))
           (andthen (ustore (a + 12) (wr16 0 (st_nlink st) [0, 0]))
             (ustore (a + 16) (word_bytes (of_nat (st_size st)))))))"

definition sys_fstat :: "('a kker_scheme, int) kernel" where
  "sys_fstat =
     try_arg (argfd 0) (\<lambda>(_, f). try_arg (argptr 1 20) (\<lambda>p.
       try_arg (filestat f) (\<lambda>st. andthen (put_stat (unat p) st) (ret 0))))"

definition link_bad :: "nat \<Rightarrow> ('a kker_scheme, int) kernel" where
  "link_bad ip =
     andthen (ilock ip)
       (andthen (upd_inode ip (\<lambda>x. x\<lparr>i_nlink := i_nlink x - 1\<rparr>))
         (andthen (iupdate ip)
           (andthen (iunlockput ip) (andthen commit_trans (ret (- 1))))))"

definition sys_link :: "('a kker_scheme, int) kernel" where
  "sys_link =
     try_arg (argstr 0) (\<lambda>old. try_arg (argstr 1) (\<lambda>new. try_arg (namei old) (\<lambda>ip.
       andthen begin_trans
         (andthen (ilock ip)
           (bind (get_inode ip) (\<lambda>x.
             if i_type x = T_DIR
             then andthen (iunlockput ip) (andthen commit_trans (ret (- 1)))
             else andthen (upd_inode ip (\<lambda>x. x\<lparr>i_nlink := i_nlink x + 1\<rparr>))
               (andthen (iupdate ip)
                 (andthen (iunlock ip)
                   (bind (nameiparent new (replicate DIRSIZ 0)) (\<lambda>(r, name). case r of
                       None \<Rightarrow> link_bad ip
                     | Some dp \<Rightarrow>
                         andthen (ilock dp)
                           (bind (get_inode dp) (\<lambda>d. bind (get_inode ip) (\<lambda>x.
                             bind (if i_dev d \<noteq> i_dev x then ret (- 1) else dirlink dp name (i_inum x)) (\<lambda>l.
                               if l < 0 then andthen (iunlockput dp) (link_bad ip)
                               else andthen (iunlockput dp)
                                 (andthen (iput ip) (andthen commit_trans (ret 0)))))))))))))))))"

fun isdirempty_loop :: "nat \<Rightarrow> nat list \<Rightarrow> ('a kker_scheme, bool) kernel" where
  "isdirempty_loop dp [] = ret True"
| "isdirempty_loop dp (off # offs) =
     bind (readi dp off 16) (\<lambda>(r, de).
       if r \<noteq> 16 then panic ''isdirempty: readi''
       else if de_inum de \<noteq> 0 then ret False
       else isdirempty_loop dp offs)"

definition isdirempty :: "nat \<Rightarrow> ('a kker_scheme, bool) kernel" where
  "isdirempty dp = bind (get_inode dp) (\<lambda>x. isdirempty_loop dp (drop 2 (dir_offsets (i_size x))))"

definition unlink_bad :: "nat \<Rightarrow> ('a kker_scheme, int) kernel" where
  "unlink_bad dp = andthen (iunlockput dp) (andthen commit_trans (ret (- 1)))"

definition unlink_entry :: "nat \<Rightarrow> nat \<Rightarrow> nat \<Rightarrow> ('a kker_scheme, int) kernel" where
  "unlink_entry dp ip off =
     bind (get_inode ip) (\<lambda>x.
       bind (writei dp (replicate 16 0) off) (\<lambda>w.
         if w \<noteq> 16 then panic ''unlink: writei''
         else andthen
           (if i_type x = T_DIR
            then andthen (upd_inode dp (\<lambda>d. d\<lparr>i_nlink := i_nlink d - 1\<rparr>)) (iupdate dp)
            else ret ())
           (andthen (iunlockput dp)
             (andthen (upd_inode ip (\<lambda>x. x\<lparr>i_nlink := i_nlink x - 1\<rparr>))
               (andthen (iupdate ip)
                 (andthen (iunlockput ip) (andthen commit_trans (ret 0))))))))"

definition sys_unlink :: "('a kker_scheme, int) kernel" where
  "sys_unlink =
     try_arg (argstr 0) (\<lambda>path.
       bind (nameiparent path (replicate DIRSIZ 0)) (\<lambda>(r, name). case r of
           None \<Rightarrow> ret (- 1)
         | Some dp \<Rightarrow>
             andthen begin_trans
               (andthen (ilock dp)
                 (if namecmp name [46] = 0 \<or> namecmp name [46, 46] = 0 then unlink_bad dp
                  else bind (dirlookup dp name) (\<lambda>r. case r of
                      None \<Rightarrow> unlink_bad dp
                    | Some (ip, off) \<Rightarrow>
                        andthen (ilock ip)
                          (bind (get_inode ip) (\<lambda>x.
                            if sint (i_nlink x) < 1 then panic ''unlink: nlink < 1''
                            else bind (if i_type x = T_DIR then isdirempty ip else ret True) (\<lambda>ok.
                              if \<not> ok then andthen (iunlockput ip) (unlink_bad dp)
                              else unlink_entry dp ip off))))))))"

definition create :: "u8 list \<Rightarrow> u16 \<Rightarrow> u16 \<Rightarrow> u16 \<Rightarrow> ('a kker_scheme, nat option) kernel" where
  "create path ty major minor =
     bind (nameiparent path (replicate DIRSIZ 0)) (\<lambda>(r, name). case r of
         None \<Rightarrow> ret None
       | Some dp \<Rightarrow>
           andthen (ilock dp)
             (bind (dirlookup dp name) (\<lambda>r. case r of
                 Some (ip, off) \<Rightarrow>
                   andthen (iunlockput dp)
                     (andthen (ilock ip)
                       (bind (get_inode ip) (\<lambda>x.
                         if ty = T_FILE \<and> i_type x = T_FILE then ret (Some ip)
                         else andthen (iunlockput ip) (ret None))))
               | None \<Rightarrow>
                   bind (get_inode dp) (\<lambda>d.
                     bind (ialloc (i_dev d) ty) (\<lambda>ip.
                       andthen (ilock ip)
                         (andthen (upd_inode ip (\<lambda>x. x\<lparr>i_major := major, i_minor := minor, i_nlink := 1\<rparr>))
                           (andthen (iupdate ip)
                             (bind (get_inode ip) (\<lambda>x.
                               andthen
                                 (if ty = T_DIR
                                  then andthen (upd_inode dp (\<lambda>d. d\<lparr>i_nlink := i_nlink d + 1\<rparr>))
                                    (andthen (iupdate dp)
                                      (bind (dirlink ip [46] (i_inum x)) (\<lambda>a.
                                        if a < 0 then panic ''create dots''
                                        else bind (dirlink ip [46, 46] (i_inum d)) (\<lambda>b.
                                          if b < 0 then panic ''create dots'' else ret ()))))
                                  else ret ())
                                 (bind (dirlink dp name (i_inum x)) (\<lambda>l.
                                   if l < 0 then panic ''create: dirlink''
                                   else andthen (iunlockput dp) (ret (Some ip)))))))))))))"

abbreviation (input) O_WRONLY :: u32 where "O_WRONLY \<equiv> 1"
abbreviation (input) O_RDWR :: u32 where "O_RDWR \<equiv> 2"
abbreviation (input) O_CREATE :: u32 where "O_CREATE \<equiv> 0x200"

text \<open>\<^verbatim>\<open>sys_open\<close> once it has the inode, locked.\<close>

definition open_inode :: "u32 \<Rightarrow> nat \<Rightarrow> ('a kker_scheme, int) kernel" where
  "open_inode omode ip =
     bind filealloc (\<lambda>r. case r of
         None \<Rightarrow> andthen (iunlockput ip) (ret (- 1))
       | Some f \<Rightarrow> bind (fdalloc f) (\<lambda>r. case r of
           None \<Rightarrow> andthen (fileclose f) (andthen (iunlockput ip) (ret (- 1)))
         | Some fd \<Rightarrow>
             andthen (iunlock ip)
               (andthen (upd_file f (\<lambda>x. x\<lparr>f_type := FD_INODE, f_ip := ip, f_off := 0,
                   f_readable := (omode AND O_WRONLY = 0),
                   f_writable := (omode AND O_WRONLY \<noteq> 0 \<or> omode AND O_RDWR \<noteq> 0)\<rparr>))
                 (ret (int fd)))))"

definition sys_open :: "('a kker_scheme, int) kernel" where
  "sys_open =
     try_arg (argstr 0) (\<lambda>path. try_arg (argint 1) (\<lambda>omode.
       if omode AND O_CREATE \<noteq> 0
       then andthen begin_trans
         (bind (create path T_FILE 0 0) (\<lambda>r.
           andthen commit_trans
             (case r of None \<Rightarrow> ret (- 1) | Some ip \<Rightarrow> open_inode omode ip)))
       else try_arg (namei path) (\<lambda>ip.
         andthen (ilock ip)
           (bind (get_inode ip) (\<lambda>x.
             if i_type x = T_DIR \<and> omode \<noteq> 0 then andthen (iunlockput ip) (ret (- 1))
             else open_inode omode ip)))))"

definition finish_create :: "nat option \<Rightarrow> ('a kker_scheme, int) kernel" where
  "finish_create r =
     (case r of
        None \<Rightarrow> andthen commit_trans (ret (- 1))
      | Some ip \<Rightarrow> andthen (iunlockput ip) (andthen commit_trans (ret 0)))"

definition sys_mkdir :: "('a kker_scheme, int) kernel" where
  "sys_mkdir =
     andthen begin_trans
       (bind (argstr 0) (\<lambda>p. case p of
           None \<Rightarrow> finish_create None
         | Some path \<Rightarrow> bind (create path T_DIR 0 0) finish_create))"

definition sys_mknod :: "('a kker_scheme, int) kernel" where
  "sys_mknod =
     andthen begin_trans
       (bind (argstr 0) (\<lambda>p. case p of
           None \<Rightarrow> finish_create None
         | Some path \<Rightarrow> bind (argint 1) (\<lambda>a. case a of
             None \<Rightarrow> finish_create None
           | Some major \<Rightarrow> bind (argint 2) (\<lambda>b. case b of
               None \<Rightarrow> finish_create None
             | Some minor \<Rightarrow> bind (create path T_DEV (ucast major) (ucast minor)) finish_create))))"

definition sys_chdir :: "('a kker_scheme, int) kernel" where
  "sys_chdir =
     try_arg (argstr 0) (\<lambda>path. try_arg (namei path) (\<lambda>ip.
       andthen (ilock ip)
         (bind (get_inode ip) (\<lambda>x.
           if i_type x \<noteq> T_DIR then andthen (iunlockput ip) (ret (- 1))
           else andthen (iunlock ip)
             (bind cur_proc (\<lambda>p.
               andthen (iput (the (cwd p)))
                 (andthen (upd_cur (\<lambda>p. p\<lparr>cwd := Some ip\<rparr>)) (ret 0))))))))"

text \<open>The arguments of \<^verbatim>\<open>exec\<close> from entry \<open>i\<close> of the array at \<open>uargv\<close> on; \<open>k\<close> entries of \<^verbatim>\<open>argv\<close> are left.\<close>

fun exec_args :: "u32 \<Rightarrow> nat \<Rightarrow> nat \<Rightarrow> ('a kker_scheme, u8 list list option) kernel" where
  "exec_args uargv i 0 = ret None"
| "exec_args uargv i (Suc k) =
     bind (fetchint (uargv + 4 * of_nat i)) (\<lambda>r. case r of
         None \<Rightarrow> ret None
       | Some uarg \<Rightarrow>
           if uarg = 0 then ret (Some [])
           else bind (fetchstr uarg) (\<lambda>a. case a of
               None \<Rightarrow> ret None
             | Some str \<Rightarrow> bind (exec_args uargv (i + 1) k) (\<lambda>rest. ret (map_option (\<lambda>as. str # as) rest))))"

definition sys_exec :: "('a kker_scheme, int) kernel" where
  "sys_exec =
     try_arg (argstr 0) (\<lambda>path. try_arg (argint 1) (\<lambda>uargv.
       try_arg (exec_args uargv 0 MAXARG) (exec path)))"

definition sys_pipe :: "('a kker_scheme, int) kernel" where
  "sys_pipe =
     try_arg (argptr 0 8) (\<lambda>fd.
       try_arg pipealloc (\<lambda>(rf, wf).
         bind (fdalloc rf) (\<lambda>a. case a of
             None \<Rightarrow> andthen (fileclose rf) (andthen (fileclose wf) (ret (- 1)))
           | Some fd0 \<Rightarrow> bind (fdalloc wf) (\<lambda>b. case b of
               None \<Rightarrow>
                 andthen (upd_cur (\<lambda>p. p\<lparr>ofile := (ofile p)[fd0 := None]\<rparr>))
                   (andthen (fileclose rf) (andthen (fileclose wf) (ret (- 1))))
             | Some fd1 \<Rightarrow>
                 andthen (ustore (unat fd) (word_bytes (of_nat fd0)))
                   (andthen (ustore (unat fd + 4) (word_bytes (of_nat fd1))) (ret 0))))))"

section \<open>Dispatch\<close>

definition syscalls :: "nat \<Rightarrow> ('a kker_scheme, int) kernel option" where
  "syscalls num =
     (if num < 1 \<or> num > 21 then None
      else Some ([sys_fork, sys_exit, sys_wait, sys_pipe, sys_read, sys_kill, sys_exec, sys_fstat, sys_chdir,
             sys_dup, sys_getpid, sys_sbrk, sys_sleep, sys_uptime, sys_open, sys_write, sys_mknod,
             sys_unlink, sys_link, sys_mkdir, sys_close] ! (num - 1)))"

definition syscall :: "('a kker_scheme, unit) kernel" where
  "syscall =
     bind cur_proc (\<lambda>p.
       let num = sint (tf_eax (tf p)) in
       case (if num \<ge> 0 then syscalls (nat num) else None) of
         Some f \<Rightarrow> bind f (\<lambda>r. upd_cur (\<lambda>p. p\<lparr>tf := (tf p)\<lparr>tf_eax := of_int r\<rparr>\<rparr>))
       | None \<Rightarrow>
           andthen (cprintf (ascii ''%d %s: unknown sys call %d'' @ [10])
               [PWord (of_int (pid p)), PStr (Some (ascii (pname p))), PWord (of_int num)])
             (upd_cur (\<lambda>p. p\<lparr>tf := (tf p)\<lparr>tf_eax := - 1\<rparr>\<rparr>)))"

end
