(* ===== verification/Kbd.thy ===== *)
theory Kbd
  imports Prelude
begin

text \<open>
  The keyboard driver of \<^verbatim>\<open>kbd.c\<close> with the tables of \<^verbatim>\<open>kbd.h\<close>: a machine whose state is the
  variable \<^verbatim>\<open>shift\<close> and whose input is the byte read from the data port.
\<close>

section \<open>Tables\<close>

abbreviation (input) SHIFT :: u32 where "SHIFT \<equiv> 1"
abbreviation (input) CTL :: u32 where "CTL \<equiv> 2"
abbreviation (input) ALT :: u32 where "ALT \<equiv> 4"
abbreviation (input) CAPSLOCK :: u32 where "CAPSLOCK \<equiv> 8"
abbreviation (input) NUMLOCK :: u32 where "NUMLOCK \<equiv> 16"
abbreviation (input) SCROLLLOCK :: u32 where "SCROLLLOCK \<equiv> 32"
abbreviation (input) E0ESC :: u32 where "E0ESC \<equiv> 64"

definition shiftcode :: "nat \<Rightarrow> u32" where
  "shiftcode d =
     (if d = 0x1D then CTL else if d = 0x2A then SHIFT else if d = 0x36 then SHIFT
      else if d = 0x38 then ALT else if d = 0x9D then CTL else if d = 0xB8 then ALT else 0)"

definition togglecode :: "nat \<Rightarrow> u32" where
  "togglecode d = (if d = 0x3A then CAPSLOCK else if d = 0x45 then NUMLOCK else if d = 0x46 then SCROLLLOCK else 0)"

text \<open>The entries above \<open>0x80\<close> that \<^verbatim>\<open>normalmap\<close> and \<^verbatim>\<open>shiftmap\<close> share, and those of \<^verbatim>\<open>ctlmap\<close>.\<close>

definition keypad :: "nat \<Rightarrow> nat" where
  "keypad d =
     (if d = 0xC8 then 0xE2 else if d = 0xD0 then 0xE3 else if d = 0xC9 then 0xE6 else if d = 0xD1 then 0xE7
      else if d = 0xCB then 0xE4 else if d = 0xCD then 0xE5 else if d = 0x97 then 0xE0 else if d = 0xCF then 0xE1
      else if d = 0xD2 then 0xE8 else if d = 0xD3 then 0xE9 else 0)"

definition codes :: "string \<Rightarrow> nat list" where
  "codes s = map of_char s"

definition normalrow :: "nat list" where
  "normalrow =
     [0, 0x1B] @ codes ''123456'' @ codes ''7890-='' @ [8, 9] @
     codes ''qwertyui'' @ codes ''op[]'' @ [10, 0] @ codes ''as'' @
     codes ''dfghjkl;'' @ [39] @ [96] @ [0] @ [92] @ codes ''zxcv'' @
     codes ''bnm,./'' @ [0] @ codes ''*'' @ [0] @ codes '' '' @ replicate 6 0 @
     replicate 7 0 @ codes ''7'' @ codes ''89-456+1'' @ codes ''230.'' @ replicate 4 0"

definition shiftrow :: "nat list" where
  "shiftrow =
     [0, 27] @ codes ''!@#$%^'' @ codes ''&*()_+'' @ [8, 9] @
     codes ''QWERTYUI'' @ codes ''OP{}'' @ [10, 0] @ codes ''AS'' @
     codes ''DFGHJKL:'' @ [34] @ codes ''~'' @ [0] @ codes ''|'' @ codes ''ZXCV'' @
     codes ''BNM<>?'' @ [0] @ codes ''*'' @ [0] @ codes '' '' @ replicate 6 0 @
     replicate 7 0 @ codes ''7'' @ codes ''89-456+1'' @ codes ''230.'' @ replicate 4 0"

text \<open>\<^verbatim>\<open>C(x)\<close>, control and a key; the table holds the result in a byte.\<close>

definition ctl :: "nat \<Rightarrow> nat" where
  "ctl c = nat ((int c - 64) mod 256)"

definition ctlrow :: "nat list" where
  "ctlrow =
     replicate 16 0 @
     map ctl (codes ''QWERTYUI'') @ map ctl (codes ''OP'') @ [0, 0, 13, 0] @ map ctl (codes ''AS'') @
     map ctl (codes ''DFGHJKL'') @ [0] @ [0, 0, 0] @ map ctl [92] @ map ctl (codes ''ZXCV'') @
     map ctl (codes ''BNM'') @ [0, 0] @ map ctl (codes ''/'') @ [0, 0]"

definition row_at :: "nat list \<Rightarrow> nat \<Rightarrow> nat" where
  "row_at r d = (if d < length r then r ! d else 0)"

definition normalmap :: "nat \<Rightarrow> nat" where
  "normalmap d = (if d = 0x9C then 10 else if d = 0xB5 then 47 else if d < 0x58 then row_at normalrow d else keypad d)"

definition shiftmap :: "nat \<Rightarrow> nat" where
  "shiftmap d = (if d = 0x9C then 10 else if d = 0xB5 then 47 else if d < 0x58 then row_at shiftrow d else keypad d)"

definition ctlmap :: "nat \<Rightarrow> nat" where
  "ctlmap d = (if d = 0x9C then 13 else if d = 0xB5 then ctl 47 else if d < 0x38 then row_at ctlrow d else keypad d)"

definition charcode :: "u32 \<Rightarrow> nat \<Rightarrow> nat" where
  "charcode m = (if m = 0 then normalmap else if m = 1 then shiftmap else ctlmap)"

section \<open>The driver\<close>

definition capslock :: "nat \<Rightarrow> nat" where
  "capslock c = (if 97 \<le> c \<and> c \<le> 122 then c - 32 else if 65 \<le> c \<and> c \<le> 90 then c + 32 else c)"

text \<open>\<^verbatim>\<open>kbdgetc\<close> on the byte \<open>data\<close>: the new value of \<^verbatim>\<open>shift\<close> and the character.\<close>

definition kbdgetc :: "u32 \<Rightarrow> u8 \<Rightarrow> u32 \<times> nat" where
  "kbdgetc shift data =
     (if data = 0xE0 then (shift OR E0ESC, 0)
      else if data AND 0x80 \<noteq> 0
      then let d = (if shift AND E0ESC \<noteq> 0 then unat data else unat (data AND 0x7F))
           in (shift AND NOT (shiftcode d OR E0ESC), 0)
      else let d = (if shift AND E0ESC \<noteq> 0 then unat (data OR 0x80) else unat data);
               sh = (if shift AND E0ESC \<noteq> 0 then shift AND NOT E0ESC else shift);
               sh1 = (sh OR shiftcode d) XOR togglecode d;
               c = charcode (sh1 AND (CTL OR SHIFT)) d
           in (sh1, if sh1 AND CAPSLOCK \<noteq> 0 then capslock c else c))"

text \<open>The characters that \<^verbatim>\<open>consoleintr\<close> gets for the bytes waiting at the port.\<close>

fun kbd_chars :: "u32 \<Rightarrow> u8 list \<Rightarrow> u32 \<times> nat list" where
  "kbd_chars shift [] = (shift, [])"
| "kbd_chars shift (d # ds) =
     (let (sh, c) = kbdgetc shift d; (sh', cs) = kbd_chars sh ds in (sh', c # cs))"

end
