(* ===== verification/Trap.thy ===== *)
theory Trap
  imports Syscall Kbd
begin

text \<open>
  Traps (\<^verbatim>\<open>trap.c\<close>): the descriptor table, and \<^verbatim>\<open>trap\<close> itself with the timer, keyboard and serial
  interrupts. The bytes waiting at the keyboard and serial ports, the faulting address in
  \<^verbatim>\<open>cr2\<close> and the entry points in \<^verbatim>\<open>vectors.S\<close> are arguments. Acknowledging an interrupt
  (\<^verbatim>\<open>lapiceoi\<close>) concerns the controller only.
\<close>

section \<open>Descriptors\<close>

record gatedesc =
  off_15_0 :: u16
  gd_cs :: u16
  gd_args :: "5 word"
  gd_rsv1 :: "3 word"
  gd_type :: "4 word"
  gd_s :: "1 word"
  gd_dpl :: "2 word"
  gd_p :: "1 word"
  off_31_16 :: u16

definition SETGATE :: "bool \<Rightarrow> u16 \<Rightarrow> u32 \<Rightarrow> 2 word \<Rightarrow> gatedesc" where
  "SETGATE istrap sel off d =
     \<lparr>off_15_0 = ucast (off AND 0xFFFF), gd_cs = sel, gd_args = 0, gd_rsv1 = 0, gd_type = (if istrap then 0xF else 0xE),
       gd_s = 0, gd_dpl = d, gd_p = 1, off_31_16 = ucast (drop_bit 16 off)\<rparr>"

abbreviation (input) T_SYSCALL :: nat where "T_SYSCALL \<equiv> 64"
abbreviation (input) T_IRQ0 :: nat where "T_IRQ0 \<equiv> 32"

record ktrap = kker +
  idt :: "gatedesc list"
  kbd_shift :: u32

text \<open>\<^verbatim>\<open>SEG_KCODE << 3\<close> is 8.\<close>

definition tvinit :: "(nat \<Rightarrow> u32) \<Rightarrow> ('a ktrap_scheme, unit) kernel" where
  "tvinit vectors =
     andthen (modify (\<lambda>s. s\<lparr>idt := (map (\<lambda>i. SETGATE False 8 (vectors i) 0) [0..<256])
                                    [T_SYSCALL := SETGATE True 8 (vectors T_SYSCALL) 3]\<rparr>))
       (initlock Lticks)"

section \<open>Interrupts\<close>

record trap_input =
  kbd_data :: "u8 list"
  uart_data :: "u8 list"
  cr2 :: u32
  stacks :: "nat \<Rightarrow> u32 list"

definition kbdintr :: "trap_input \<Rightarrow> ('a ktrap_scheme, unit) kernel" where
  "kbdintr inp =
     bind (gets_st (\<lambda>s. kbd_chars (kbd_shift s) (kbd_data inp))) (\<lambda>(sh, cs).
       andthen (modify (\<lambda>s. s\<lparr>kbd_shift := sh\<rparr>)) (consoleintr (stacks inp) cs))"

definition uartintr :: "trap_input \<Rightarrow> ('a ktrap_scheme, unit) kernel" where
  "uartintr inp =
     bind (gets_st has_uart) (\<lambda>u. consoleintr (stacks inp) (if u then map unat (uart_data inp) else []))"

definition timerintr :: "('a ktrap_scheme, unit) kernel" where
  "timerintr =
     bind (gets_st (\<lambda>s. me (lk s))) (\<lambda>cpu.
       if cpu = 0
       then andthen (acquire Lticks)
         (andthen (modify (\<lambda>s. s\<lparr>ticks := ticks s + 1\<rparr>))
           (andthen (wakeup ChTicks) (release Lticks)))
       else ret ())"

text \<open>The last part of \<^verbatim>\<open>trap\<close>, also run when the process is scheduled again after the \<^verbatim>\<open>yield\<close>.\<close>

definition trap_user :: "trapframe \<Rightarrow> bool" where
  "trap_user f \<longleftrightarrow> tf_cs f AND 3 = 3"

definition exit_if_killed :: "trapframe \<Rightarrow> ('a ktrap_scheme, unit) kernel" where
  "exit_if_killed f =
     bind (gets_st cur) (\<lambda>c. case c of
         None \<Rightarrow> ret ()
       | Some i \<Rightarrow> bind cur_proc (\<lambda>p. if killed p \<and> trap_user f then exit_proc else ret ()))"

definition trap_resume :: "bool \<Rightarrow> trapframe \<Rightarrow> ('a ktrap_scheme, unit) kernel" where
  "trap_resume ena f = andthen (yield_resume ena) (exit_if_killed f)"

text \<open>Traps that the kernel does not expect: its own are fatal, those of a process kill it.\<close>

definition trap_default :: "trap_input \<Rightarrow> trapframe \<Rightarrow> ('a ktrap_scheme, unit) kernel" where
  "trap_default inp f =
     bind (gets_st (\<lambda>s. (cur s, me (lk s)))) (\<lambda>(c, cpu).
       if c = None \<or> tf_cs f AND 3 = 0
       then andthen (cprintf (ascii ''unexpected trap %d from cpu %d eip %x (cr2=0x%x)'' @ [10])
           [PWord (tf_trapno f), PWord (of_nat cpu), PWord (tf_eip f), PWord (cr2 inp)])
         (panic ''trap'')
       else bind cur_proc (\<lambda>p.
         andthen (cprintf (ascii ''pid %d %s: trap %d err %d on cpu %d eip 0x%x addr 0x%x--kill proc'' @ [10])
             [PWord (of_int (pid p)), PStr (Some (ascii (pname p))), PWord (tf_trapno f), PWord (tf_err f),
              PWord (of_nat cpu), PWord (tf_eip f), PWord (cr2 inp)])
           (upd_cur (\<lambda>p. p\<lparr>killed := True\<rparr>))))"

definition trap_switch :: "trap_input \<Rightarrow> trapframe \<Rightarrow> ('a ktrap_scheme, unit) kernel" where
  "trap_switch inp f =
     (let t = unat (tf_trapno f) in
      if t = T_IRQ0 then timerintr
      else if t = T_IRQ0 + 14 \<or> t = T_IRQ0 + 15 then ret ()
      else if t = T_IRQ0 + 1 then kbdintr inp
      else if t = T_IRQ0 + 4 then uartintr inp
      else if t = T_IRQ0 + 7 \<or> t = T_IRQ0 + 31
      then bind (gets_st (\<lambda>s. me (lk s))) (\<lambda>cpu.
        cprintf (ascii ''cpu%d: spurious interrupt at %x:%x'' @ [10])
          [PWord (of_nat cpu), PWord (ucast (tf_cs f)), PWord (tf_eip f)])
      else trap_default inp f)"

definition trap :: "trap_input \<Rightarrow> trapframe \<Rightarrow> ('a ktrap_scheme, unit) kernel" where
  "trap inp f =
     (if unat (tf_trapno f) = T_SYSCALL
      then bind cur_proc (\<lambda>p.
        andthen (if killed p then exit_proc else ret ())
          (andthen (upd_cur (\<lambda>p. p\<lparr>tf := f\<rparr>))
            (andthen syscall
              (bind cur_proc (\<lambda>p. if killed p then exit_proc else ret ())))))
      else andthen (trap_switch inp f)
        (andthen (exit_if_killed f)
          (bind (gets_st cur) (\<lambda>c.
            if c \<noteq> None \<and> unat (tf_trapno f) = T_IRQ0
            then bind cur_proc (\<lambda>p. if pstate p = RUNNING then yield else exit_if_killed f)
            else exit_if_killed f))))"

end
