(* ===== verification/Recovery.thy ===== *)
theory Recovery
  imports Log
begin

text \<open>
  The log of \<^verbatim>\<open>log.c\<close> makes transactions atomic: what \<^verbatim>\<open>log_write\<close> keeps, what \<^verbatim>\<open>commit_trans\<close>
  writes to the disk and in which order, and what \<^verbatim>\<open>recover_from_log\<close> makes of a disk on
  which only a part of these writes happened. The proofs use the cache through its
  interface.
\<close>

section \<open>The header\<close>

text \<open>A header that has been written to a block is read back from it.\<close>

lemma put_head_loop:
  assumes "4 * k + 4 \<le> length d"
  shows "length (fold (\<lambda>i d. wr32 (4 + 4 * i) (of_nat (secs ! i)) d) [0..<k] d) = length d \<and>
    rd32 (fold (\<lambda>i d. wr32 (4 + 4 * i) (of_nat (secs ! i)) d) [0..<k] d) 0 = rd32 d 0 \<and>
    (\<forall>j < k. rd32 (fold (\<lambda>i d. wr32 (4 + 4 * i) (of_nat (secs ! i)) d) [0..<k] d) (4 + 4 * j) = of_nat (secs ! j))"
  using assms by (induction k) (auto simp: rd_wr_other less_Suc_eq)

lemma put_head_read:
  assumes "0 \<le> n" "n \<le> int LOGSIZE" "length d = BSIZE" "\<And>i. i < nat n \<Longrightarrow> secs ! i < 2 ^ 32" "nat n \<le> length secs"
  shows "length (put_head secs n d) = BSIZE" "sint (rd32 (put_head secs n d) 0) = n"
    "head_sectors (put_head secs n d) (nat n) = take (nat n) secs"
proof -
  let ?d = "wr32 0 (of_int n) d"
  have "4 * nat n + 4 \<le> length ?d"
    using assms(2,3) by simp
  note l = put_head_loop [OF this, of secs]
  then show "length (put_head secs n d) = BSIZE"
    using assms(3) by (simp add: put_head_def)
  have "rd32 (put_head secs n d) 0 = of_int n"
    using l assms(3) by (simp add: put_head_def)
  moreover have "sint (of_int n :: u32) = n"
    using assms(1,2) by (simp add: signed_of_int signed_take_bit_int_eq_self)
  ultimately show "sint (rd32 (put_head secs n d) 0) = n"
    by simp
  show "head_sectors (put_head secs n d) (nat n) = take (nat n) secs"
  proof (rule nth_equalityI)
    fix i assume "i < length (head_sectors (put_head secs n d) (nat n))"
    then have i: "i < nat n"
      by (simp add: head_sectors_def)
    then have "rd32 (put_head secs n d) (4 + 4 * i) = of_nat (secs ! i)"
      using l by (simp add: put_head_def)
    then show "head_sectors (put_head secs n d) (nat n) ! i = take (nat n) secs ! i"
      using i assms(4) [OF i] by (simp add: head_sectors_def unat_of_nat take_bit_nat_eq_self)
  qed (use assms(5) in \<open>simp add: head_sectors_def\<close>)
qed

section \<open>Writing the header and installing a transaction\<close>

lemma io_frame_log:
  fixes s s' :: "'a klog_scheme"
  assumes "io_frame s s'"
  shows "log_start s' = log_start s" "log_size s' = log_size s" "log_busy s' = log_busy s" "log_dev s' = log_dev s"
    "lh_n s' = lh_n s" "lh_sector s' = lh_sector s" "lk s' = lk s" "disksize s' = disksize s"
  using assms by (auto simp: io_frame_def)

text \<open>
  The properties of the cache that the log needs: it holds no buffer, the blocks of the
  log are not dirty, and at least one buffer can be reused.
\<close>

definition log_region :: "nat \<Rightarrow> nat set" where
  "log_region start = {start..start + LOGSIZE}"

definition log_ok :: "'a klog_scheme \<Rightarrow> bool" where
  "log_ok s \<longleftrightarrow> held s {} \<and> clean s \<noteq> {} \<and> log_dev s = 1 \<and> log_start s + LOGSIZE < disksize s \<and> disksize s \<le> 2 ^ 32 \<and>
     (\<forall>x \<in> log_region (log_start s). \<not> is_dirty s x) \<and> length (lh_sector s) = LOGSIZE \<and>
     length (memdisk s (log_start s)) = BSIZE"

definition apply_writes :: "(nat \<times> u8 list) list \<Rightarrow> (nat \<Rightarrow> u8 list) \<Rightarrow> nat \<Rightarrow> u8 list" where
  "apply_writes ws D = fold (\<lambda>(x, d) D. D(x := d)) ws D"

lemma apply_writes_simps [simp]:
  "apply_writes [] D = D" "apply_writes ((x, d) # ws) D = apply_writes ws (D(x := d))"
  "apply_writes (us @ ws) D = apply_writes ws (apply_writes us D)"
  by (simp_all add: apply_writes_def)

lemma apply_writes_other: "x \<notin> fst ` set ws \<Longrightarrow> apply_writes ws D x = D x"
  by (induction ws arbitrary: D) auto

lemma apply_writes_in:
  "distinct (map fst ws) \<Longrightarrow> (x, d) \<in> set ws \<Longrightarrow> apply_writes ws D x = d"
proof (induction ws arbitrary: D)
  case (Cons w ws)
  obtain y e where w: "w = (y, e)"
    by (cases w)
  then show ?case
    using Cons apply_writes_other [of x ws] by (cases "(x, d) \<in> set ws") (force simp: w)+
qed simp

lemma write_head_run:
  assumes "log_ok s"
  defines "d \<equiv> put_head (lh_sector s) (lh_n s) (memdisk s (log_start s))"
  shows "\<exists>s'. write_head s = Ok () s' \<and> held s' {} \<and> io_frame s s' \<and> memdisk s' = (memdisk s)(log_start s := d) \<and>
    whist s' = (log_start s, d) # whist s \<and> is_dirty s' = is_dirty s \<and> clean s \<subseteq> clean s'"
proof -
  have ok: "held s {}" "clean s \<noteq> {}" "log_start s < disksize s" "\<not> is_dirty s (log_start s)" "log_dev s = 1"
    using assms(1) by (auto simp: log_ok_def log_region_def)
  have v: "view s (log_start s) = memdisk s (log_start s)"
    by (rule bc.clean_view [OF ok(1,4)])
  obtain b s1 s2 where r: "bread 1 (log_start s) s = Ok b s1" "buf_data s1 b = view s (log_start s)"
    "bind (bwrite b) (\<lambda>_. brelse b) (put_data b d s1) = Ok () s2" "held s2 {}" "io_frame s s2"
    "memdisk s2 = (memdisk s)(log_start s := d)" "whist s2 = (log_start s, d) # whist s"
    "is_dirty s2 = (is_dirty s)(log_start s := False)" "clean s \<subseteq> clean s2"
    using bc.update_block [OF ok(1,3) _ disjI2 [OF ok(2)], of d] by blast
  have "upd_buf b (\<lambda>x. x\<lparr>b_data := put_head (lh_sector s) (lh_n s) (b_data x)\<rparr>) s1 = Ok () (put_data b d s1)"
    using r(2) v by (simp add: put_data_def buf_data_def d_def)
  then have "write_head s = Ok () s2"
    using r(1,3) ok(5) by (simp add: write_head_def del: upd_buf_run)
  moreover have "is_dirty s2 = is_dirty s"
    using r(8) ok(4) by (simp add: fun_upd_idem)
  ultimately show ?thesis
    using r by blast
qed

text \<open>The writes that installing the entries \<open>ts\<close> of the log does, in order.\<close>

definition install_writes :: "(nat \<Rightarrow> u8 list) \<Rightarrow> nat \<Rightarrow> nat list \<Rightarrow> nat list \<Rightarrow> (nat \<times> u8 list) list" where
  "install_writes D start secs ts = map (\<lambda>t. (secs ! t, D (start + t + 1))) ts"

definition two_spare :: "'a kbio_scheme \<Rightarrow> bool" where
  "two_spare s \<longleftrightarrow> (\<exists>a\<in>clean s. \<exists>b\<in>clean s. a \<noteq> b)"

definition entries_ok :: "'a klog_scheme \<Rightarrow> nat list \<Rightarrow> bool" where
  "entries_ok s ts \<longleftrightarrow> (\<forall>t\<in>set ts. t < LOGSIZE \<and> lh_sector s ! t < disksize s \<and> lh_sector s ! t \<notin> log_region (log_start s)) \<and>
     distinct (map ((!) (lh_sector s)) ts) \<and> (two_spare s \<or> (\<forall>t\<in>set ts. is_dirty s (lh_sector s ! t)))"

lemma install_step:
  assumes "log_ok s" "entries_ok s (t # ts)"
  shows "\<exists>s'. install_loop (t # ts) s = install_loop ts s' \<and> log_ok s' \<and> entries_ok s' ts \<and> io_frame s s' \<and>
    memdisk s' = (memdisk s)(lh_sector s ! t := memdisk s (log_start s + t + 1)) \<and>
    whist s' = (lh_sector s ! t, memdisk s (log_start s + t + 1)) # whist s \<and>
    is_dirty s' = (is_dirty s)(lh_sector s ! t := False) \<and> clean s \<subseteq> clean s'"
proof -
  let ?l = "log_start s + t + 1" and ?x = "lh_sector s ! t"
  have t: "t < LOGSIZE" "?x < disksize s" "?x \<notin> log_region (log_start s)"
    using assms(2) by (simp_all add: entries_ok_def)
  have ok: "held s {}" "clean s \<noteq> {}" "?l < disksize s" "\<not> is_dirty s ?l" "log_dev s = 1" "?l mod 2 ^ 32 = ?l"
    using assms(1) t(1) by (auto simp: log_ok_def log_region_def)
  have ne: "?l \<noteq> ?x"
    using t by (auto simp: log_region_def)
  have av: "is_dirty s ?x \<or> (\<exists>a\<in>clean s. \<exists>b\<in>clean s. a \<noteq> b)"
    using assms(2) by (auto simp: entries_ok_def two_spare_def)
  obtain l d s1 s2 s' where r: "bread 1 ?l s = Ok l s1" "bread 1 ?x s1 = Ok d s2" "buf_data s2 l = memdisk s ?l"
    "bind (bwrite d) (\<lambda>_. bind (brelse l) (\<lambda>_. brelse d)) (put_data d (memdisk s ?l) s2) = Ok () s'"
    and s': "held s' {}" "io_frame s s'" "memdisk s' = (memdisk s)(?x := memdisk s ?l)" "whist s' = (?x, memdisk s ?l) # whist s"
    "is_dirty s' = (is_dirty s)(?x := False)" "clean s \<subseteq> clean s'"
    using bc.copy_block [OF ok(1,3) t(2) ne ok(4,2) av] by blast
  obtain s3 s4 where w: "bwrite d (put_data d (memdisk s ?l) s2) = Ok () s3" "brelse l s3 = Ok () s4" "brelse d s4 = Ok () s'"
    using r(4) by (auto simp: bind_eq_Ok)
  have "upd_buf d (\<lambda>x. x\<lparr>b_data := b_data (bcache s2 l)\<rparr>) s2 = Ok () (put_data d (memdisk s ?l) s2)"
    using r(3) by (simp add: put_data_def buf_data_def)
  then have run: "install_loop (t # ts) s = install_loop ts s'"
    using r(1,2) w ok(5,6) by (simp del: upd_buf_run)
  note f = io_frame_log [OF s'(2)]
  have "?x \<noteq> log_start s"
    using t(3) by (auto simp: log_region_def)
  then have lo: "log_ok s'"
    using assms(1) s' by (auto simp: log_ok_def f)
  have "two_spare s'" if "two_spare s"
    using that s'(6) by (auto simp: two_spare_def)
  moreover have "lh_sector s ! u \<noteq> ?x" if "u \<in> set ts" for u
    using assms(2) that by (simp add: entries_ok_def) (metis imageI)
  then have "is_dirty s' (lh_sector s ! u)" if "u \<in> set ts" "is_dirty s (lh_sector s ! u)" for u
    using that by (simp add: s'(5))
  ultimately have "entries_ok s' ts"
    using assms(2) by (auto simp: entries_ok_def f)
  then show ?thesis
    using run lo s' by blast
qed

lemma install_loop_run:
  assumes "log_ok s" "entries_ok s ts"
  shows "\<exists>s'. install_loop ts s = Ok () s' \<and> log_ok s' \<and> io_frame s s' \<and>
    memdisk s' = apply_writes (install_writes (memdisk s) (log_start s) (lh_sector s) ts) (memdisk s) \<and>
    whist s' = rev (install_writes (memdisk s) (log_start s) (lh_sector s) ts) @ whist s \<and>
    (two_spare s \<longrightarrow> two_spare s')"
  using assms
proof (induction ts arbitrary: s)
  case Nil
  then show ?case
    by (simp add: install_writes_def)
next
  case (Cons t ts)
  let ?x = "lh_sector s ! t" and ?d = "memdisk s (log_start s + t + 1)"
  obtain s1 where 1: "install_loop (t # ts) s = install_loop ts s1" "log_ok s1" "entries_ok s1 ts" "io_frame s s1"
    "memdisk s1 = (memdisk s)(?x := ?d)" "whist s1 = (?x, ?d) # whist s" "clean s \<subseteq> clean s1"
    using install_step [OF Cons.prems] by blast
  note f = io_frame_log [OF 1(4)]
  have "memdisk s1 (log_start s + u + 1) = memdisk s (log_start s + u + 1)" if "u \<in> set ts" for u
    using that Cons.prems(2) by (auto simp: 1(5) entries_ok_def log_region_def)
  then have w: "install_writes (memdisk s1) (log_start s1) (lh_sector s1) ts = install_writes (memdisk s) (log_start s) (lh_sector s) ts"
    by (simp add: install_writes_def f)
  have ts: "two_spare s1" if "two_spare s"
    using that 1(7) by (auto simp: two_spare_def)
  obtain s2 where 2: "install_loop ts s1 = Ok () s2" "log_ok s2" "io_frame s1 s2"
    "memdisk s2 = apply_writes (install_writes (memdisk s) (log_start s) (lh_sector s) ts) (memdisk s1)"
    "whist s2 = rev (install_writes (memdisk s) (log_start s) (lh_sector s) ts) @ whist s1" "two_spare s1 \<longrightarrow> two_spare s2"
    using Cons.IH [OF 1(2,3)] unfolding w by blast
  then show ?case
    using 1 ts io_frame_trans [OF 1(4) 2(3)] by (intro exI [of _ s2]) (simp add: install_writes_def)
qed

text \<open>The fields of the log do not matter to the cache.\<close>

lemma cache_log_fields [simp]:
  fixes s :: "'a klog_scheme"
  shows "held (s\<lparr>lh_n := n\<rparr>) B = held s B" "held (s\<lparr>lh_sector := x\<rparr>) B = held s B"
    "holds (s\<lparr>lh_n := n\<rparr>) b c = holds s b c" "holds (s\<lparr>lh_sector := x\<rparr>) b c = holds s b c"
    "clean (s\<lparr>lh_n := n\<rparr>) = clean s" "clean (s\<lparr>lh_sector := x\<rparr>) = clean s"
    "is_dirty (s\<lparr>lh_n := n\<rparr>) = is_dirty s" "is_dirty (s\<lparr>lh_sector := x\<rparr>) = is_dirty s"
    "view (s\<lparr>lh_n := n\<rparr>) = view s" "view (s\<lparr>lh_sector := x\<rparr>) = view s"
    "two_spare (s\<lparr>lh_n := n\<rparr>) = two_spare s" "two_spare (s\<lparr>lh_sector := x\<rparr>) = two_spare s"
  by (simp_all add: held_def cache_ok_def holds_def clean_def is_dirty_def view_def two_spare_def fun_eq_iff split: option.split)

lemma log_ok_lh_n [simp]: "log_ok (s\<lparr>lh_n := n\<rparr>) = log_ok s"
  by (simp add: log_ok_def)

lemma two_spare_mono: "two_spare s \<Longrightarrow> clean s \<subseteq> clean s' \<Longrightarrow> two_spare s'"
  by (auto simp: two_spare_def)

text \<open>Writing the header keeps the log in order.\<close>

lemma length_put_head: "n \<le> int LOGSIZE \<Longrightarrow> length d = BSIZE \<Longrightarrow> length (put_head secs n d) = BSIZE"
  using put_head_loop [of "nat n" "wr32 0 (of_int n) d" secs] by (simp add: put_head_def)

lemma write_head_keeps:
  assumes "log_ok s" "lh_n s \<le> int LOGSIZE"
  defines "d \<equiv> put_head (lh_sector s) (lh_n s) (memdisk s (log_start s))"
  shows "\<exists>s'. write_head s = Ok () s' \<and> log_ok s' \<and> io_frame s s' \<and> memdisk s' = (memdisk s)(log_start s := d) \<and>
    whist s' = (log_start s, d) # whist s \<and> is_dirty s' = is_dirty s \<and> clean s \<subseteq> clean s'"
proof -
  obtain s' where r: "write_head s = Ok () s'" "held s' {}" "io_frame s s'" "memdisk s' = (memdisk s)(log_start s := d)"
    "whist s' = (log_start s, d) # whist s" "is_dirty s' = is_dirty s" "clean s \<subseteq> clean s'"
    using write_head_run [OF assms(1)] d_def by blast
  note f = io_frame_log [OF r(3)]
  have "length d = BSIZE"
    using assms(1,2) by (simp add: d_def log_ok_def length_put_head)
  then have "log_ok s'"
    using assms(1) r by (auto simp: log_ok_def f)
  then show ?thesis
    using r by blast
qed

definition commit_writes :: "'a klog_scheme \<Rightarrow> (nat \<times> u8 list) list" where
  "commit_writes s =
     (let start = log_start s; h = put_head (lh_sector s) (lh_n s) (memdisk s start)
      in (start, h) # install_writes (memdisk s) start (lh_sector s) [0..<nat (lh_n s)] @ [(start, put_head (lh_sector s) 0 h)])"

lemma install_writes_cong:
  "(\<And>t. t \<in> set ts \<Longrightarrow> D (start + t + 1) = D' (start + t + 1)) \<Longrightarrow> install_writes D start secs ts = install_writes D' start secs ts"
  by (simp add: install_writes_def)

lemma apply_install_start:
  assumes "entries_ok s ts"
  shows "apply_writes (install_writes D' (log_start s) (lh_sector s) ts) D (log_start s) = D (log_start s)"
  using assms by (intro apply_writes_other) (auto simp: install_writes_def entries_ok_def log_region_def)

lemma commit_trans_run:
  assumes ok: "log_ok s" and en: "entries_ok s [0..<nat (lh_n s)]" and n: "0 < lh_n s" "lh_n s \<le> int LOGSIZE"
    and lk: "\<not> locked (lk s) Llog"
  shows "\<exists>s'. commit_trans s = Ok () s' \<and> memdisk s' = apply_writes (commit_writes s) (memdisk s) \<and>
    whist s' = rev (commit_writes s) @ whist s \<and> lh_n s' = 0 \<and> \<not> log_busy s' \<and> log_ok s'"
proof -
  let ?D = "memdisk s" and ?st = "log_start s" and ?secs = "lh_sector s"
  define h where "h = put_head ?secs (lh_n s) (?D ?st)"
  define ws where "ws = install_writes ?D ?st ?secs [0..<nat (lh_n s)]"
  obtain s1 where 1: "write_head s = Ok () s1" "log_ok s1" "io_frame s s1" "memdisk s1 = ?D(?st := h)"
    "whist s1 = (?st, h) # whist s" "is_dirty s1 = is_dirty s" "clean s \<subseteq> clean s1"
    using write_head_keeps [OF ok n(2)] h_def by blast
  note f1 = io_frame_log [OF 1(3)]
  have en1: "entries_ok s1 [0..<nat (lh_n s)]"
    using en two_spare_mono [OF _ 1(7)] by (auto simp: entries_ok_def f1 1(6))
  have w1: "install_writes (memdisk s1) ?st ?secs [0..<nat (lh_n s)] = ws"
    unfolding ws_def by (rule install_writes_cong) (simp add: 1(4))
  obtain s2 where 2: "install_loop [0..<nat (lh_n s)] s1 = Ok () s2" "log_ok s2" "io_frame s1 s2"
    "memdisk s2 = apply_writes ws (memdisk s1)" "whist s2 = rev ws @ whist s1"
    using install_loop_run [OF 1(2) en1] unfolding f1 w1 by blast
  note f2 = io_frame_log [OF 2(3)]
  have st: "memdisk s2 ?st = h"
    using apply_install_start [OF en, of ?D "memdisk s1"] by (simp add: 2(4) ws_def 1(4))
  define s3 where "s3 = s2\<lparr>lh_n := 0\<rparr>"
  have 3: "log_ok s3" "lh_n s3 \<le> int LOGSIZE" "log_start s3 = ?st" "lh_sector s3 = ?secs" "memdisk s3 = memdisk s2" "whist s3 = whist s2"
    "lh_n s3 = 0" "lk s3 = lk s"
    using 2(2) by (simp_all add: s3_def f1 f2)
  obtain s4 where 4: "write_head s3 = Ok () s4" "log_ok s4" "io_frame s3 s4" "memdisk s4 = (memdisk s2)(?st := put_head ?secs 0 h)"
    "whist s4 = (?st, put_head ?secs 0 h) # whist s2"
    using write_head_keeps [OF 3(1,2)] unfolding 3 st by blast
  note f4 = io_frame_log [OF 4(3)]
  have lk4: "lk s4 = lk s" "lh_n s4 = 0"
    by (simp_all add: f4 3)
  have lo: "lk_ok (lk s)" "\<not> locked (lk s) Lptable"
    using ok by (simp_all add: log_ok_def held_def cache_ok_def)
  define s5 where "s5 = s4\<lparr>log_busy := False, procs := map (wake ChLog) (procs s4)\<rparr>"
  have "install_trans s1 = Ok () s2"
    using 2(1) by (simp add: install_trans_def f1)
  then have "commit_trans s = Ok () s5"
    using 1(1) 4(1) n lk lo lk4 by (simp add: commit_trans_def s3_def acquire_Ok s5_def)
  moreover have "memdisk s5 = apply_writes (commit_writes s) ?D" "whist s5 = rev (commit_writes s) @ whist s"
    by (simp_all add: s5_def 4 2 1 commit_writes_def Let_def ws_def h_def)
  moreover have "log_ok s5"
    using 4(2) by (simp add: s5_def log_ok_def held_def cache_ok_def holds_def clean_def is_dirty_def)
  ultimately show ?thesis
    using lk4 by (intro exI [of _ s5]) (simp add: s5_def)
qed

section \<open>Recovery\<close>

lemma read_head_run:
  assumes ok: "log_ok s" and n: "n = sint (rd32 (memdisk s (log_start s)) 0)" "n \<le> int LOGSIZE"
  defines "secs \<equiv> head_sectors (memdisk s (log_start s)) (nat n)"
  shows "\<exists>s'. read_head s = Ok () s' \<and> log_ok s' \<and> lh_n s' = n \<and> take (nat n) (lh_sector s') = secs \<and>
    log_start s' = log_start s \<and> disksize s' = disksize s \<and> lk s' = lk s \<and> memdisk s' = memdisk s \<and> whist s' = whist s \<and> is_dirty s' = is_dirty s \<and> clean s \<subseteq> clean s'"
proof -
  let ?st = "log_start s"
  have h: "held s {}" "clean s \<noteq> {}" "?st < disksize s" "\<not> is_dirty s ?st" "log_dev s = 1"
    using ok by (auto simp: log_ok_def log_region_def)
  have v: "view s ?st = memdisk s ?st"
    by (rule bc.clean_view [OF h(1,4)])
  obtain b s1 where 1: "bread 1 ?st s = Ok b s1" "held s1 {b}" "holds s1 b ?st" "io_frame s s1" "memdisk s1 = memdisk s"
    "whist s1 = whist s" "view s1 = view s" "is_dirty s1 = is_dirty s" "clean s1 = clean s - {b}"
    using bc.rd_law [OF h(1,3) _ disjI2 [OF h(2)]] by auto
  note f1 = io_frame_log [OF 1(4)]
  have d: "b_data (bcache s1 b) = memdisk s ?st"
    using bc.fetch_law [OF 1(2,3)] 1(7) v by (simp add: buf_data_def)
  define s2 where "s2 = s1\<lparr>lh_n := n, lh_sector := secs @ drop (nat n) (lh_sector s1)\<rparr>"
  have 2: "held s2 {b}" "holds s2 b ?st" "is_dirty s2 = is_dirty s" "view s2 = view s" "memdisk s2 = memdisk s" "whist s2 = whist s"
    "clean s2 = clean s - {b}"
    using 1 by (simp_all add: s2_def)
  have v2: "is_dirty s2 ?st \<or> view s2 ?st = memdisk s2 ?st"
    using 2 v by simp
  obtain s3 where 3: "brelse b s2 = Ok () s3" "held s3 {}" "io_frame s2 s3" "memdisk s3 = memdisk s" "whist s3 = whist s"
    "is_dirty s3 = is_dirty s" "clean s3 = insert b (clean s - {b})"
    using bc.rel_law [OF 2(1,2) v2] 2 h(4) by auto
  note f3 = io_frame_log [OF 3(3)]
  have run: "read_head s = Ok () s3"
    using 1(1) 3(1) h(5) n d by (simp add: read_head_def Let_def secs_def s2_def)
  have l: "length secs = nat n"
    by (simp add: secs_def head_sectors_def)
  have fs: "log_start s3 = ?st" "log_dev s3 = 1" "disksize s3 = disksize s" "lk s3 = lk s" "lh_n s3 = n"
    "lh_sector s3 = secs @ drop (nat n) (lh_sector s)"
    using h(5) by (simp_all add: f3 s2_def f1)
  have "nat n \<le> LOGSIZE"
    using n(2) by simp
  then have "log_ok s3"
    using ok 3 l by (auto simp: log_ok_def fs)
  then show ?thesis
    using run 3 l fs by (intro exI [of _ s3]) auto
qed

text \<open>Recovery from a disk whose header lists valid, different sectors.\<close>

lemma recover_run:
  assumes ok: "log_ok s" and sp: "two_spare s"
    and n: "n = sint (rd32 (memdisk s (log_start s)) 0)" "0 \<le> n" "n \<le> int LOGSIZE"
    and secs: "secs = head_sectors (memdisk s (log_start s)) (nat n)" "distinct secs"
      "\<forall>x\<in>set secs. x < disksize s \<and> x \<notin> log_region (log_start s)"
  shows "\<exists>s' d. recover_from_log s = Ok () s' \<and> lh_n s' = 0 \<and>
    memdisk s' = (apply_writes (install_writes (memdisk s) (log_start s) secs [0..<nat n]) (memdisk s))(log_start s := d)"
proof -
  obtain s1 where 1: "read_head s = Ok () s1" "log_ok s1" "lh_n s1 = n" "take (nat n) (lh_sector s1) = secs"
    "log_start s1 = log_start s" "disksize s1 = disksize s" "memdisk s1 = memdisk s" "is_dirty s1 = is_dirty s" "clean s \<subseteq> clean s1"
    using read_head_run [OF ok n(1,3)] secs(1) by blast
  have len: "length secs = nat n"
    by (simp add: secs head_sectors_def)
  have nth: "lh_sector s1 ! t = secs ! t" if "t < nat n" for t
    using that 1(4) by (metis nth_take)
  have m: "map ((!) (lh_sector s1)) [0..<nat n] = secs"
    using nth len by (intro nth_equalityI) simp_all
  have "entries_ok s1 [0..<nat n]"
    unfolding entries_ok_def m using two_spare_mono [OF sp 1(9)] secs(2,3) nth n(3) len by (auto simp: 1)
  then obtain s2 where 2: "install_loop [0..<nat n] s1 = Ok () s2" "log_ok s2" "io_frame s1 s2"
    "memdisk s2 = apply_writes (install_writes (memdisk s) (log_start s) (lh_sector s1) [0..<nat n]) (memdisk s)"
    using install_loop_run [OF 1(2)] unfolding 1 by blast
  note f2 = io_frame_log [OF 2(3)]
  have w: "install_writes (memdisk s) (log_start s) (lh_sector s1) [0..<nat n] = install_writes (memdisk s) (log_start s) secs [0..<nat n]"
    using nth by (simp add: install_writes_def)
  define s3 where "s3 = s2\<lparr>lh_n := 0\<rparr>"
  have 3: "log_ok s3" "lh_n s3 \<le> int LOGSIZE" "log_start s3 = log_start s" "memdisk s3 = memdisk s2" "lh_n s3 = 0"
    using 2(2) by (simp_all add: s3_def f2 1)
  obtain s4 d where 4: "write_head s3 = Ok () s4" "io_frame s3 s4" "memdisk s4 = (memdisk s2)(log_start s := d)"
    using write_head_keeps [OF 3(1,2)] unfolding 3 by blast
  have "recover_from_log s = Ok () s4"
    using 1(1,3) 2(1) 4(1) by (simp add: recover_from_log_def install_trans_def s3_def)
  then show ?thesis
    using 4(3) io_frame_log(5) [OF 4(2)] by (auto simp: 3 2(4) w)
qed

section \<open>Crashes\<close>

text \<open>A machine that has just started: the cache is empty, whatever is on the disk.\<close>

definition booted :: "'a kbio_scheme \<Rightarrow> bool" where
  "booted t \<longleftrightarrow> (\<exists>xs. blist (bcache t) xs) \<and>
     (\<forall>b < NBUF. \<not> b_busy (bcache t b) \<and> \<not> b_valid (bcache t b) \<and> \<not> b_dirty (bcache t b) \<and> b_dev (bcache t b) \<noteq> 1) \<and>
     lk_ok (lk t) \<and> \<not> locked (lk t) Lbcache \<and> \<not> locked (lk t) Lptable"

lemma booted_cache:
  assumes "booted t"
  shows "held (t\<lparr>memdisk := D\<rparr>) {}" "clean (t\<lparr>memdisk := D\<rparr>) = {..<NBUF}" "\<not> is_dirty (t\<lparr>memdisk := D\<rparr>) x"
    "two_spare (t\<lparr>memdisk := D\<rparr>)"
proof -
  obtain xs where "blist (bcache (t\<lparr>memdisk := D\<rparr>)) xs"
    using assms by (auto simp: booted_def)
  from fresh_cache [OF this] assms
  show "held (t\<lparr>memdisk := D\<rparr>) {}" and c: "clean (t\<lparr>memdisk := D\<rparr>) = {..<NBUF}" and "\<not> is_dirty (t\<lparr>memdisk := D\<rparr>) x"
    by (simp_all add: booted_def)
  show "two_spare (t\<lparr>memdisk := D\<rparr>)"
    unfolding two_spare_def c by (rule bexI [of _ 0], rule bexI [of _ 1]) simp_all
qed

text \<open>The state of a transaction that is about to be committed.\<close>

definition trans_ok :: "'a klog_scheme \<Rightarrow> bool" where
  "trans_ok s \<longleftrightarrow> log_ok s \<and> 0 < lh_n s \<and> lh_n s \<le> int LOGSIZE \<and> entries_ok s [0..<nat (lh_n s)] \<and>
     rd32 (memdisk s (log_start s)) 0 = 0 \<and> \<not> locked (lk s) Llog"

definition reboot :: "'a klog_scheme \<Rightarrow> 'a klog_scheme \<Rightarrow> bool" where
  "reboot s t \<longleftrightarrow> booted t \<and> log_start t = log_start s \<and> log_dev t = 1 \<and> disksize t = disksize s \<and> length (lh_sector t) = LOGSIZE"

lemma reboot_log_ok:
  assumes "log_ok s" "reboot s t" "length (D (log_start s)) = BSIZE"
  shows "log_ok (t\<lparr>memdisk := D\<rparr>)" "two_spare (t\<lparr>memdisk := D\<rparr>)"
proof -
  have "clean (t\<lparr>memdisk := D\<rparr>) \<noteq> {}"
    using booted_cache(2) [of t D] assms(2) by (simp add: reboot_def lessThan_empty_iff)
  then show "log_ok (t\<lparr>memdisk := D\<rparr>)" "two_spare (t\<lparr>memdisk := D\<rparr>)"
    using assms booted_cache [of t D] by (simp_all add: reboot_def log_ok_def)
qed

text \<open>Recovery from an empty header changes only the header.\<close>

lemma recover_empty:
  assumes "log_ok s" "reboot s t" "length (D (log_start s)) = BSIZE" "rd32 (D (log_start s)) 0 = 0"
  shows "\<exists>t' d. recover_from_log (t\<lparr>memdisk := D\<rparr>) = Ok () t' \<and> memdisk t' = D(log_start s := d)"
proof -
  have st: "log_start t = log_start s"
    using assms(2) by (simp add: reboot_def)
  then show ?thesis
    using recover_run [OF reboot_log_ok [where D = D, OF assms(1-3)], of 0 "[]"] assms(4)
    by (auto simp: install_writes_def head_sectors_def)
qed

lemma apply_again:
  assumes "distinct (map fst ws)"
  shows "apply_writes ws (apply_writes (take k ws) D) x = apply_writes ws D x"
proof (cases "x \<in> fst ` set ws")
  case True
  then obtain d where "(x, d) \<in> set ws"
    by auto
  then show ?thesis
    using apply_writes_in [OF assms] by simp
next
  case False
  then have "x \<notin> fst ` set (take k ws)"
    by (meson image_mono in_mono set_take_subset)
  then show ?thesis
    using False by (simp add: apply_writes_other)
qed

lemma entries_writes:
  assumes "entries_ok s [0..<n]" "n \<le> length (lh_sector s)" "ws = install_writes D (log_start s) (lh_sector s) [0..<n]"
  shows "distinct (map fst ws)" "fst ` set ws = set (take n (lh_sector s))" "distinct (take n (lh_sector s))"
    "x \<in> set (take n (lh_sector s)) \<Longrightarrow> x < disksize s \<and> x \<notin> log_region (log_start s)"
proof -
  have m: "map fst ws = map ((!) (lh_sector s)) [0..<n]" "take n (lh_sector s) = map ((!) (lh_sector s)) [0..<n]"
    using assms(2) by (auto simp: assms(3) install_writes_def intro!: nth_equalityI)
  show "distinct (map fst ws)" "distinct (take n (lh_sector s))"
    using assms(1) unfolding m by (simp_all add: entries_ok_def)
  show "fst ` set ws = set (take n (lh_sector s))"
    unfolding m(2) m(1) [symmetric] by simp
  show "x \<in> set (take n (lh_sector s)) \<Longrightarrow> x < disksize s \<and> x \<notin> log_region (log_start s)"
    using assms(1) unfolding m by (auto simp: entries_ok_def)
qed

text \<open>Recovery after the header was written and some of the blocks.\<close>

lemma recover_committed:
  fixes s t :: "'a klog_scheme" and k :: nat
  assumes tr: "trans_ok s" and rb: "reboot s t"
  defines "st \<equiv> log_start s" and "n \<equiv> nat (lh_n s)"
  defines "ws \<equiv> install_writes (memdisk s) st (lh_sector s) [0..<n]" and "h \<equiv> put_head (lh_sector s) (lh_n s) (memdisk s st)"
  defines "D \<equiv> apply_writes (take k ws) ((memdisk s)(st := h))"
  shows "\<exists>t' d. recover_from_log (t\<lparr>memdisk := D\<rparr>) = Ok () t' \<and> memdisk t' = (apply_writes ws D)(st := d)"
proof -
  have ok: "log_ok s" and en: "entries_ok s [0..<n]" and n: "0 \<le> lh_n s" "lh_n s \<le> int LOGSIZE"
    using tr by (simp_all add: trans_ok_def n_def)
  have len: "length (lh_sector s) = LOGSIZE" "length (memdisk s st) = BSIZE" "disksize s \<le> 2 ^ 32"
    using ok by (simp_all add: log_ok_def st_def)
  have nl: "n \<le> length (lh_sector s)"
    using n len by (simp add: n_def)
  have "ws = install_writes (memdisk s) (log_start s) (lh_sector s) [0..<n]"
    by (simp add: ws_def st_def)
  note e = entries_writes [OF en nl this]
  have small: "lh_sector s ! i < 2 ^ 32" if "i < n" for i
  proof -
    have "lh_sector s ! i < disksize s"
      using that en by (auto simp: entries_ok_def)
    then show ?thesis
      using len(3) by linarith
  qed
  note ph = put_head_read [OF n len(2) small [unfolded n_def] nl [unfolded n_def], folded n_def h_def]
  have out: "x \<notin> fst ` set (take k ws)" if "x \<in> log_region st" for x
  proof
    assume "x \<in> fst ` set (take k ws)"
    then have "x \<in> fst ` set ws"
      by (meson image_mono in_mono set_take_subset)
    then show False
      using that e(2) e(4) [of x] by (simp add: ws_def st_def)
  qed
  have Dr: "D x = ((memdisk s)(st := h)) x" if "x \<in> log_region st" for x
    unfolding D_def by (rule apply_writes_other [OF out [OF that]])
  have Dst: "D st = h"
    using Dr [of st] by (simp add: log_region_def)
  have Dl: "D (st + i + 1) = memdisk s (st + i + 1)" if "i < n" for i
    using Dr [of "st + i + 1"] that n by (simp add: log_region_def n_def)
  have st: "log_start t = st" "disksize t = disksize s"
    using rb by (simp_all add: reboot_def st_def)
  have lo: "log_ok (t\<lparr>memdisk := D\<rparr>)" "two_spare (t\<lparr>memdisk := D\<rparr>)"
    using reboot_log_ok [OF ok rb, of D] ph(1) Dst by (simp_all add: st_def)
  have S: "head_sectors (D st) n = take n (lh_sector s)"
    using ph(3) Dst by simp
  have "install_writes D st (take n (lh_sector s)) [0..<n] = ws"
    using Dl by (simp add: ws_def install_writes_def)
  then show ?thesis
    using recover_run [OF lo, of "lh_n s" "take n (lh_sector s)"] n ph(2) Dst S e(3,4) by (auto simp: st n_def st_def)
qed

text \<open>
  C28: a transaction survives a crash as a whole or not at all. \<^verbatim>\<open>commit_trans\<close> returns, having
  copied every logged block from the log to its place and touched nothing else outside
  the log. If the machine stops after any number \<open>k\<close> of the disk writes it makes, then
  \<^verbatim>\<open>recover_from_log\<close> on the restarted machine returns and leaves, outside the log, the disk
  as it was before the transaction if not even the header had been written, and as it is
  after the transaction in every other case.
\<close>

theorem commit_crash_safe:
  fixes s t :: "'a klog_scheme"
  assumes "trans_ok s" and "reboot s t"
  shows "\<exists>s'. commit_trans s = Ok () s' \<and> whist s' = rev (commit_writes s) @ whist s \<and> lh_n s' = 0 \<and> \<not> log_busy s' \<and>
    (\<forall>i < nat (lh_n s). memdisk s' (lh_sector s ! i) = memdisk s (log_start s + i + 1)) \<and>
    (\<forall>x. x \<notin> log_region (log_start s) \<longrightarrow> x \<notin> set (take (nat (lh_n s)) (lh_sector s)) \<longrightarrow> memdisk s' x = memdisk s x) \<and>
    (\<forall>k \<le> length (commit_writes s). \<exists>t'.
       recover_from_log (t\<lparr>memdisk := apply_writes (take k (commit_writes s)) (memdisk s)\<rparr>) = Ok () t' \<and>
       (\<forall>x. x \<notin> log_region (log_start s) \<longrightarrow> memdisk t' x = (if k = 0 then memdisk s x else memdisk s' x)))"
proof -
  let ?st = "log_start s" and ?D = "memdisk s" and ?secs = "lh_sector s"
  define n where "n = nat (lh_n s)"
  define ws where "ws = install_writes ?D ?st ?secs [0..<n]"
  define h where "h = put_head ?secs (lh_n s) (?D ?st)"
  define h0 where "h0 = put_head ?secs 0 h"
  have ok: "log_ok s" and en: "entries_ok s [0..<n]" and nn: "0 < lh_n s" "lh_n s \<le> int LOGSIZE"
    and hd0: "rd32 (?D ?st) 0 = 0" and lk: "\<not> locked (lk s) Llog"
    using assms(1) by (simp_all add: trans_ok_def n_def)
  have len: "length ?secs = LOGSIZE" "length (?D ?st) = BSIZE"
    using ok by (simp_all add: log_ok_def)
  have nl: "n \<le> length ?secs"
    using nn len by (simp add: n_def)
  note e = entries_writes [OF en nl ws_def]
  have lh: "length h = BSIZE" "length h0 = BSIZE"
    using len nn by (simp_all add: h_def h0_def length_put_head)
  have h00: "rd32 h0 0 = 0"
    using lh by (simp add: h0_def put_head_def)
  have W: "commit_writes s = (?st, h) # ws @ [(?st, h0)]"
    by (simp add: commit_writes_def Let_def ws_def h_def h0_def n_def)
  obtain s' where s': "commit_trans s = Ok () s'" "memdisk s' = apply_writes (commit_writes s) ?D"
    "whist s' = rev (commit_writes s) @ whist s" "lh_n s' = 0" "\<not> log_busy s'"
    using commit_trans_run [OF ok en [unfolded n_def] nn lk] by blast
  have ms: "memdisk s' x = apply_writes ws (?D(?st := h)) x" if "x \<noteq> ?st" for x
    using that by (simp add: s'(2) W)
  have 1: "memdisk s' (?secs ! i) = ?D (?st + i + 1)" if "i < n" for i
  proof -
    have "(?secs ! i, ?D (?st + i + 1)) \<in> set ws"
      using that by (auto simp: ws_def install_writes_def)
    moreover from this have "?secs ! i \<in> fst ` set ws"
      by force
    then have "?secs ! i \<noteq> ?st"
      using e(2) e(4) [of ?st] by (auto simp: log_region_def)
    ultimately show ?thesis
      using apply_writes_in [OF e(1)] ms by simp
  qed
  have 2: "memdisk s' x = ?D x" if "x \<notin> log_region ?st" "x \<notin> set (take n ?secs)" for x
  proof -
    have "x \<noteq> ?st"
      using that(1) by (auto simp: log_region_def)
    then show ?thesis
      using that(2) e(2) ms [of x] by (simp add: apply_writes_other)
  qed
  have 3: "\<exists>t'. recover_from_log (t\<lparr>memdisk := apply_writes (take k (commit_writes s)) ?D\<rparr>) = Ok () t' \<and>
       (\<forall>x. x \<notin> log_region ?st \<longrightarrow> memdisk t' x = (if k = 0 then ?D x else memdisk s' x))"
    if k: "k \<le> length (commit_writes s)" for k
  proof -
    have st: "?st \<in> log_region ?st"
      by (simp add: log_region_def)
    consider (none) "k = 0" | (some) "0 < k" "k \<le> Suc (length ws)" | (all) "k = length (commit_writes s)"
      using k W by fastforce
    then show ?thesis
    proof cases
      case none
      then show ?thesis
        using recover_empty [where D = ?D, OF ok assms(2) len(2) hd0] st by fastforce
    next
      case some
      then have tk: "apply_writes (take k (commit_writes s)) ?D = apply_writes (take (k - 1) ws) (?D(?st := h))"
        using W by (cases k) simp_all
      obtain t' d where r: "recover_from_log (t\<lparr>memdisk := apply_writes (take k (commit_writes s)) ?D\<rparr>) = Ok () t'"
        "memdisk t' = (apply_writes ws (apply_writes (take k (commit_writes s)) ?D))(?st := d)"
        using recover_committed [OF assms, of "k - 1"] unfolding tk ws_def n_def h_def by blast
      have "memdisk t' x = memdisk s' x" if "x \<notin> log_region ?st" for x
      proof -
        have "x \<noteq> ?st"
          using that st by blast
        then show ?thesis
          using ms by (simp add: r(2) tk apply_again [OF e(1)])
      qed
      then show ?thesis
        using r(1) some(1) by auto
    next
      case all
      let ?E = "apply_writes (commit_writes s) ?D"
      have E: "?E ?st = h0"
        by (simp add: W)
      obtain t' d where "recover_from_log (t\<lparr>memdisk := ?E\<rparr>) = Ok () t'" "memdisk t' = ?E(?st := d)"
        using recover_empty [where D = ?E, OF ok assms(2)] lh(2) h00 unfolding E by blast
      moreover have "k \<noteq> 0"
        using all W by simp
      ultimately show ?thesis
        using st all by (auto simp: s'(2))
    qed
  qed
  show ?thesis
    using s' 1 2 3 unfolding n_def by blast
qed

text \<open>A transaction with one block, sector 5, whose new contents are in the first block of the log.\<close>

definition demo_klog :: klog where
  "demo_klog = kbio.extend (demo_kbio\<lparr>memdisk := (\<lambda>_. replicate BSIZE 0)(901 := replicate BSIZE 7)\<rparr>)
     (klog.fields 900 11 True 1 1 [5, 0, 0, 0, 0, 0, 0, 0, 0, 0])"

lemma demo_klog_fields [simp]:
  "lk demo_klog = no_locks" "disksize demo_klog = 1000" "log_start demo_klog = 900" "log_dev demo_klog = 1" "lh_n demo_klog = 1"
  "lh_sector demo_klog = [5, 0, 0, 0, 0, 0, 0, 0, 0, 0]" "memdisk demo_klog = (\<lambda>_. replicate BSIZE 0)(901 := replicate BSIZE 7)"
  "bcache demo_klog = bcache demo_kbio" "log_size demo_klog = 11" "log_busy demo_klog"
  by (simp_all add: demo_klog_def kbio.defs klog.defs)

lemma rd32_zeros [simp]: "i + 3 < n \<Longrightarrow> rd32 (replicate n 0) i = 0"
  by (simp add: rd32_def)

lemma demo_booted: "booted demo_klog"
proof -
  have "b_busy (bcache demo_kbio b) = False \<and> b_valid (bcache demo_kbio b) = False \<and> b_dirty (bcache demo_kbio b) = False \<and>
      b_dev (bcache demo_kbio b) = - 1" if "b < NBUF" for b
    using payload_fields [OF demo_payload [OF that]] by (simp add: zero_buf_def)
  then show ?thesis
    using demo_blist by (auto simp: booted_def)
qed

lemma demo_klog_cache:
  "held demo_klog {}" "clean demo_klog = {..<NBUF}" "\<not> is_dirty demo_klog x" "two_spare demo_klog"
proof -
  have d: "demo_klog = demo_klog\<lparr>memdisk := memdisk demo_klog\<rparr>"
    by simp
  show "held demo_klog {}" "clean demo_klog = {..<NBUF}" "\<not> is_dirty demo_klog x" "two_spare demo_klog"
    by (subst d, rule booted_cache [OF demo_booted])+
qed

lemma demo_trans_ok: "trans_ok demo_klog" "reboot demo_klog demo_klog"
proof -
  have "log_ok demo_klog"
    using demo_klog_cache by (simp add: log_ok_def lessThan_empty_iff)
  moreover have "entries_ok demo_klog [0..<nat (lh_n demo_klog)]"
    using demo_klog_cache(4) by (simp add: entries_ok_def log_region_def)
  ultimately show "trans_ok demo_klog"
    by (simp add: trans_ok_def)
  show "reboot demo_klog demo_klog"
    using demo_booted by (simp add: reboot_def)
qed

theorem commit_crash_safe_witness:
  "\<exists>s' t'. commit_trans demo_klog = Ok () s' \<and> memdisk s' 5 = replicate BSIZE 7 \<and> memdisk s' 6 = replicate BSIZE 0 \<and>
     recover_from_log (demo_klog\<lparr>memdisk := apply_writes (take 1 (commit_writes demo_klog)) (memdisk demo_klog)\<rparr>) = Ok () t' \<and>
     memdisk t' 5 = replicate BSIZE 7"
proof -
  obtain s' where s': "commit_trans demo_klog = Ok () s'"
    and a: "\<forall>i < nat (lh_n demo_klog). memdisk s' (lh_sector demo_klog ! i) = memdisk demo_klog (log_start demo_klog + i + 1)"
    and b: "\<forall>x. x \<notin> log_region (log_start demo_klog) \<longrightarrow> x \<notin> set (take (nat (lh_n demo_klog)) (lh_sector demo_klog)) \<longrightarrow>
       memdisk s' x = memdisk demo_klog x"
    and c: "\<forall>k \<le> length (commit_writes demo_klog). \<exists>t'.
       recover_from_log (demo_klog\<lparr>memdisk := apply_writes (take k (commit_writes demo_klog)) (memdisk demo_klog)\<rparr>) = Ok () t' \<and>
       (\<forall>x. x \<notin> log_region (log_start demo_klog) \<longrightarrow> memdisk t' x = (if k = 0 then memdisk demo_klog x else memdisk s' x))"
    using commit_crash_safe [OF demo_trans_ok] by blast
  have "1 \<le> length (commit_writes demo_klog)"
    by (simp add: commit_writes_def Let_def)
  with c obtain t' where t': "recover_from_log (demo_klog\<lparr>memdisk := apply_writes (take 1 (commit_writes demo_klog)) (memdisk demo_klog)\<rparr>) = Ok () t'"
    "\<forall>x. x \<notin> log_region (log_start demo_klog) \<longrightarrow> memdisk t' x = (if (1 :: nat) = 0 then memdisk demo_klog x else memdisk s' x)"
    by blast
  have 5: "memdisk s' 5 = replicate BSIZE 7"
    using a [rule_format, of 0] by simp
  moreover have "memdisk s' 6 = replicate BSIZE 0"
    using b [rule_format, of 6] by (simp add: log_region_def)
  moreover have "memdisk t' 5 = replicate BSIZE 7"
    using t'(2) [rule_format, of 5] 5 by (simp add: log_region_def)
  ultimately show ?thesis
    using s' t'(1) by blast
qed

section \<open>Logging a block\<close>

lemma log_index_le: "log_index x xs \<le> length xs"
  by (induction xs) auto

lemma log_index_nth: "log_index x xs < length xs \<Longrightarrow> xs ! log_index x xs = x"
  by (induction xs) auto

lemma log_index_new: "log_index x xs = length xs \<longleftrightarrow> x \<notin> set xs"
  using log_index_le by (induction xs) (auto simp: not_less_eq_eq)

text \<open>
  \<open>logged_ok s X\<close>: the sectors in the header are different and outside the log, and for
  each one that is not in \<open>X\<close> the log has its current contents and the buffer is dirty, so
  that it stays in the cache.
\<close>

definition logged_ok :: "'a klog_scheme \<Rightarrow> nat set \<Rightarrow> bool" where
  "logged_ok s X \<longleftrightarrow> 0 \<le> lh_n s \<and> lh_n s \<le> int LOGSIZE \<and> length (lh_sector s) = LOGSIZE \<and> log_dev s = 1 \<and>
     log_start s + LOGSIZE < disksize s \<and> disksize s \<le> 2 ^ 32 \<and> distinct (take (nat (lh_n s)) (lh_sector s)) \<and>
     (\<forall>i < nat (lh_n s). lh_sector s ! i < disksize s \<and> lh_sector s ! i \<notin> log_region (log_start s) \<and>
        (lh_sector s ! i \<notin> X \<longrightarrow> is_dirty s (lh_sector s ! i) \<and> memdisk s (log_start s + i + 1) = view s (lh_sector s ! i))) \<and>
     (\<forall>x \<in> log_region (log_start s). \<not> is_dirty s x)"

lemma mark_dirty:
  assumes "held s B" "holds s b sec" "s' = s\<lparr>bcache := (bcache s)(b := (bcache s b)\<lparr>b_dirty := True\<rparr>)\<rparr>"
  shows "held s' B" "holds s' b sec" "view s' = view s" "is_dirty s' = (is_dirty s)(sec := True)" "memdisk s' = memdisk s"
proof -
  have ok: "cache_ok s B" and all: "\<forall>b\<in>B. \<exists>sec. holds s b sec"
    using assms(1) by (simp_all add: held_def)
  have s': "bcache s' = (bcache s)(b := (bcache s b)\<lparr>b_dirty := True\<rparr>)" "memdisk s' = memdisk s" "lk s' = lk s"
    by (simp_all add: assms(3))
  have y: "b_dev (bcache s' b) = 1" "b_sector (bcache s' b) = sec" "b_valid (bcache s' b)" "b_busy (bcache s' b)"
    "b_dirty (bcache s' b)" "b_data (bcache s' b) = view s sec"
    using assms(2) holds_view [OF ok assms(2)] by (simp_all add: holds_def s')
  have oth: "payload (bcache s' b') = payload (bcache s b')" if "b' \<noteq> b" for b'
    using that by (simp add: s')
  have disk: "memdisk s' x = memdisk s x" for x
    by (simp add: s')
  have bl: "\<exists>xs. blist (bcache s') xs"
    unfolding s' by (rule cache_ok_blist [OF ok]) simp_all
  have hs: "holds s' b' sec' = holds s b' sec'" for b' sec'
    by (auto simp: holds_def s')
  note u = upd_held [OF ok assms(2) oth y(1-3) disk notE [OF _ y(4)] bl s'(3)]
  show "held s' B" "view s' = view s" "is_dirty s' = (is_dirty s)(sec := True)"
    using u y(4-6) all hs by (simp_all add: held_def fun_upd_idem)
  show "holds s' b sec" "memdisk s' = memdisk s"
    using hs assms(2) s' by simp_all
qed

lemma log_entries_update:
  assumes "i = log_index x (take n xs)" "n < length xs" "distinct (take n xs)"
  defines "n' \<equiv> (if i = n then n + 1 else n)"
  shows "i < n'" "i \<le> n" "set (take n' (xs[i := x])) = insert x (set (take n xs))" "distinct (take n' (xs[i := x]))"
    "\<And>j. j < n' \<Longrightarrow> xs[i := x] ! j = (if j = i then x else xs ! j)" "\<And>j. j < n' \<Longrightarrow> j \<noteq> i \<Longrightarrow> j < n \<and> xs ! j \<noteq> x"
proof -
  have len: "length (take n xs) = n"
    using assms(2) by simp
  show le: "i \<le> n"
    using log_index_le [of x "take n xs"] assms(1) len by simp
  then show "i < n'"
    by (auto simp: n'_def)
  have t: "take n' (xs[i := x]) = (if i = n then take n xs @ [x] else take n xs)"
  proof (cases "i = n")
    case True
    then show ?thesis
      using assms(2) by (simp add: n'_def take_Suc_conv_app_nth)
  next
    case False
    then have "i < n"
      using le by simp
    then have "take n xs ! i = x"
      using log_index_nth [of x "take n xs"] assms(1) len by simp
    then show ?thesis
      using False by (simp add: n'_def take_update_swap list_update_same_conv)
        (metis \<open>i < n\<close> len list_update_id)
  qed
  have new: "i = n \<longleftrightarrow> x \<notin> set (take n xs)"
    using log_index_new [of x "take n xs"] assms(1) len by simp
  then show "set (take n' (xs[i := x])) = insert x (set (take n xs))" "distinct (take n' (xs[i := x]))"
    unfolding t using assms(3) by auto
  show "xs[i := x] ! j = (if j = i then x else xs ! j)" if "j < n'" for j
    using that le assms(2) by (auto simp: n'_def nth_list_update split: if_splits)
  show "j < n \<and> xs ! j \<noteq> x" if j: "j < n'" "j \<noteq> i" for j
  proof -
    have jn: "j < n"
      using j by (auto simp: n'_def split: if_splits)
    have "xs ! j \<noteq> x"
    proof (cases "i = n")
      case True
      then show ?thesis
        using new jn len by (metis nth_mem nth_take)
    next
      case False
      then have i: "i < n" "take n xs ! i = x"
        using le log_index_nth [of x "take n xs"] assms(1) len by auto
      then show ?thesis
        using assms(3) jn j(2) len by (metis nth_eq_iff_index_eq nth_take)
    qed
    then show ?thesis
      using jn by simp
  qed
qed

text \<open>What the operations in a transaction may change: the cache, the disk, the log and who sleeps.\<close>

definition log_frame :: "'a klog_scheme \<Rightarrow> 'a klog_scheme \<Rightarrow> bool" where
  "log_frame s s' \<longleftrightarrow> (\<exists>c m w ps n xs. s' = s\<lparr>bcache := c, memdisk := m, whist := w, procs := ps, lh_n := n, lh_sector := xs\<rparr>)"

lemma log_frame_fields:
  assumes "log_frame s s'"
  shows "log_start s' = log_start s" "log_size s' = log_size s" "log_busy s' = log_busy s" "log_dev s' = log_dev s"
    "lk s' = lk s" "disksize s' = disksize s"
  using assms by (auto simp: log_frame_def)

lemma log_frame_trans: "log_frame s s' \<Longrightarrow> log_frame s' s'' \<Longrightarrow> log_frame s s''"
  unfolding log_frame_def by clarsimp blast

lemma io_log_frame:
  fixes s :: "'a klog_scheme"
  assumes "io_frame s s'"
  shows "log_frame s s'"
proof -
  obtain c m w ps where "s' = s\<lparr>bcache := c, memdisk := m, whist := w, procs := ps\<rparr>"
    using assms by (auto simp: io_frame_def)
  then have "s' = s\<lparr>bcache := c, memdisk := m, whist := w, procs := ps, lh_n := lh_n s, lh_sector := lh_sector s\<rparr>"
    by simp
  then show ?thesis
    unfolding log_frame_def by blast
qed

lemma log_frame_upd [simp]:
  "log_frame s s" "log_frame s (s\<lparr>lh_n := n\<rparr>)" "log_frame s (s\<lparr>lh_sector := xs\<rparr>)" "log_frame s (s\<lparr>bcache := c\<rparr>)"
proof -
  have "s\<lparr>lh_n := n\<rparr> = s\<lparr>bcache := bcache s, memdisk := memdisk s, whist := whist s, procs := procs s, lh_n := n, lh_sector := lh_sector s\<rparr>"
    "s\<lparr>lh_sector := xs\<rparr> = s\<lparr>bcache := bcache s, memdisk := memdisk s, whist := whist s, procs := procs s, lh_n := lh_n s, lh_sector := xs\<rparr>"
    by simp_all
  then show "log_frame s (s\<lparr>lh_n := n\<rparr>)" "log_frame s (s\<lparr>lh_sector := xs\<rparr>)"
    unfolding log_frame_def by blast+
  show "log_frame s s" "log_frame s (s\<lparr>bcache := c\<rparr>)"
    by (rule io_log_frame, simp)+
qed

lemma log_write_run:
  fixes s :: "'a klog_scheme"
  assumes lo: "logged_ok s {sec}" and h: "held s B" "holds s b sec" "b \<in> B" "\<forall>b'\<in>B. \<forall>x\<in>log_region (log_start s). \<not> holds s b' x" and sec: "sec < disksize s" "sec \<notin> log_region (log_start s)"
    and cl: "clean s \<noteq> {}" and room: "lh_n s < int LOGSIZE" "lh_n s < log_size s - 1" and busy: "log_busy s"
  shows "\<exists>s'. log_write b s = Ok () s' \<and> logged_ok s' {} \<and> held s' B \<and> holds s' b sec \<and>
    set (take (nat (lh_n s')) (lh_sector s')) = insert sec (set (take (nat (lh_n s)) (lh_sector s))) \<and>
    (\<forall>x. x \<notin> log_region (log_start s) \<longrightarrow> view s' x = view s x \<and> memdisk s' x = memdisk s x) \<and>
    log_frame s s' \<and> lh_n s' \<le> lh_n s + 1 \<and> clean s \<subseteq> clean s' \<and> is_dirty s' sec \<and> (\<forall>b'\<in>B. \<forall>x. holds s' b' x = holds s b' x)"
proof -
  let ?st = "log_start s" and ?secs = "lh_sector s"
  define n where "n = nat (lh_n s)"
  define i where "i = log_index sec (take n ?secs)"
  define n' where "n' = (if i = n then n + 1 else n)"
  define d where "d = view s sec"
  have lg: "0 \<le> lh_n s" "length ?secs = LOGSIZE" "?st + LOGSIZE < disksize s" "disksize s \<le> 2 ^ 32" "distinct (take n ?secs)"
    using lo by (simp_all add: logged_ok_def n_def)
  have nl: "n < LOGSIZE" "lh_n s = int n"
    using room lg by (simp_all add: n_def)
  have nlx: "n < length ?secs"
    using nl lg by simp
  note e = log_entries_update [OF i_def nlx lg(5), folded n'_def]
  let ?l = "?st + i + 1"
  have il: "i < LOGSIZE"
    using e(2) nl(1) by linarith
  then have lr: "?l \<in> log_region ?st" and ll: "?l < disksize s"
    using lg(3) by (simp_all add: log_region_def)
  have "?l < 2 ^ 32"
    using ll lg(4) by (rule less_le_trans)
  then have lm: "?l mod 2 ^ 32 = ?l"
    by (rule mod_less)
  have ln: "sec \<noteq> ?l"
    using lr sec(2) by blast
  define s1 where "s1 = s\<lparr>lh_sector := ?secs[i := sec]\<rparr>"
  have h1: "held s1 B" "\<forall>b'\<in>B. \<not> holds s1 b' ?l" "?l < disksize s1" "is_dirty s1 ?l \<or> clean s1 \<noteq> {}"
    using h(1,4) lr ll cl by (auto simp: s1_def)
  obtain lb s2 s3 where u: "bread 1 ?l s1 = Ok lb s2" "bind (bwrite lb) (\<lambda>_. brelse lb) (put_data lb d s2) = Ok () s3"
    "held s3 B" "io_frame s1 s3" "memdisk s3 = (memdisk s1)(?l := d)" "view s3 = (view s1)(?l := d)"
    "is_dirty s3 = (is_dirty s1)(?l := False)" "lb \<notin> B" "\<And>b' sec'. b' \<noteq> lb \<Longrightarrow> holds s3 b' sec' = holds s1 b' sec'" "clean s1 \<subseteq> clean s3"
    using bc.update_block [OF h1(1,3,2,4), of d] by blast
  note f = io_frame_log [OF u(4)]
  define s4 where "s4 = s3\<lparr>lh_n := int n'\<rparr>"
  have f4: "lh_n s3 = int n" "lh_sector s3 = ?secs[i := sec]" "log_start s3 = ?st" "disksize s3 = disksize s" "log_dev s3 = log_dev s"
    by (simp_all add: f s1_def nl(2))
  have "s3 = s3\<lparr>lh_n := int n\<rparr>"
    using f4(1) by simp
  then have n4: "(if int i = int n then modify (\<lambda>s. s\<lparr>lh_n := int n + 1\<rparr>) else ret ()) s3 = Ok () s4"
    by (auto simp: s4_def n'_def)
  have h4: "held s4 B" "holds s4 b sec"
    using u(3,8) u(9) [of b] h(2,3) by (auto simp: s4_def s1_def)
  define s5 where "s5 = s4\<lparr>bcache := (bcache s4)(b := (bcache s4 b)\<lparr>b_dirty := True\<rparr>)\<rparr>"
  note m = mark_dirty [OF h4 s5_def]
  have dt: "b_data (bcache s b) = d"
    using bc.fetch_law [OF h(1,2)] by (simp add: buf_data_def d_def)
  obtain s2' where w: "bwrite lb (put_data lb d s2) = Ok () s2'" "brelse lb s2' = Ok () s3"
    using u(2) by (auto simp: bind_eq_Ok)
  have up: "upd_buf lb (\<lambda>y. y\<lparr>b_data := b_data (bcache s b)\<rparr>) s2 = Ok () (put_data lb d s2)"
    by (simp add: put_data_def dt)
  have hb: "b_sector (bcache s b) = sec" "b_dev (bcache s b) = 1"
    using h(2) by (simp_all add: holds_def)
  have dy: "upd_buf b (\<lambda>y. y\<lparr>b_dirty := True\<rparr>) s4 = Ok () s5"
    by (simp add: s5_def)
  have run: "log_write b s = Ok () s5"
    using room busy u(1) w up n4 lm dy unfolding log_write_def
    by (simp add: hb nl(2) i_def [symmetric] s1_def [symmetric] del: upd_buf_run)
  have f5: "lh_n s5 = int n'" "lh_sector s5 = ?secs[i := sec]" "log_start s5 = ?st" "disksize s5 = disksize s" "log_dev s5 = log_dev s"
    "memdisk s5 = (memdisk s)(?l := d)" "view s5 = (view s)(?l := d)" "is_dirty s5 = (is_dirty s)(?l := False, sec := True)"
    using f4 m(3-5) u(5-7) by (simp_all add: s5_def s4_def s1_def)
  have ent: "?secs[i := sec] ! j < disksize s \<and> ?secs[i := sec] ! j \<notin> log_region ?st \<and> is_dirty s5 (?secs[i := sec] ! j) \<and>
      memdisk s5 (?st + j + 1) = view s5 (?secs[i := sec] ! j)" if j: "j < n'" for j
  proof (cases "j = i")
    case True
    then show ?thesis
      using e(5) [OF j] sec ln by (simp add: f5 d_def)
  next
    case False
    then have jn: "j < n" "?secs ! j \<noteq> sec"
      using e(6) [OF j] by blast+
    then have o: "?secs ! j < disksize s" "?secs ! j \<notin> log_region ?st" "is_dirty s (?secs ! j)" "memdisk s (?st + j + 1) = view s (?secs ! j)"
      using lo by (simp_all add: logged_ok_def n_def)
    moreover from this have "?secs ! j \<noteq> ?l"
      using lr by metis
    ultimately show ?thesis
      using e(5) [OF j] False jn by (simp add: f5)
  qed
  have "n' \<le> LOGSIZE"
    using nl(1) by (simp add: n'_def)
  moreover have "\<not> is_dirty s5 x" if "x \<in> log_region ?st" for x
    using that lo sec(2) by (auto simp: f5 logged_ok_def)
  ultimately have "logged_ok s5 {}"
    unfolding logged_ok_def f5(1-5) using ent e(4) lg lo by (simp add: logged_ok_def)
  moreover have "\<forall>x. x \<notin> log_region ?st \<longrightarrow> view s5 x = view s x \<and> memdisk s5 x = memdisk s x"
    using lr by (auto simp: f5)
  moreover have "set (take (nat (lh_n s5)) (lh_sector s5)) = insert sec (set (take (nat (lh_n s)) ?secs))"
    using e(3) by (simp add: f5 nl(2))
  moreover have "clean s5 = clean s4"
    using h4(2) by (auto simp: clean_def s5_def holds_def)
  then have "clean s \<subseteq> clean s5"
    using u(10) by (simp add: s4_def s1_def)
  moreover have "log_frame s1 s3" "log_frame s3 s5"
    using io_log_frame [OF u(4)] log_frame_trans [of s3 s4 s5] by (simp_all add: s5_def s4_def)
  then have "log_frame s s5"
    using log_frame_trans [of s s1] log_frame_trans [of s s3] by (auto simp: s1_def)
  moreover have "holds s5 b' x = holds s b' x" if "b' \<in> B" for b' x
    using u(9) [of b'] that u(8) by (auto simp: s5_def s4_def s1_def holds_def)
  moreover have "lh_n s5 \<le> lh_n s + 1" "is_dirty s5 sec"
    by (simp_all add: f5 nl(2) n'_def)
  ultimately show ?thesis
    using run m(1,2) by blast
qed

text \<open>When every logged block is up to date and released, the transaction can be committed.\<close>

lemma logged_trans_ok:
  assumes "logged_ok s {}" "held s {}" "clean s \<noteq> {}" "0 < lh_n s" "rd32 (memdisk s (log_start s)) 0 = 0"
    "length (memdisk s (log_start s)) = BSIZE" "\<not> locked (lk s) Llog"
  shows "trans_ok s" "\<And>i. i < nat (lh_n s) \<Longrightarrow> memdisk s (log_start s + i + 1) = view s (lh_sector s ! i)"
proof -
  have n: "nat (lh_n s) \<le> LOGSIZE" "nat (lh_n s) \<le> length (lh_sector s)"
    using assms(1) by (auto simp: logged_ok_def)
  then have m: "map ((!) (lh_sector s)) [0..<nat (lh_n s)] = take (nat (lh_n s)) (lh_sector s)"
    by (intro nth_equalityI) simp_all
  have "entries_ok s [0..<nat (lh_n s)]"
    unfolding entries_ok_def m using assms(1) n by (auto simp: logged_ok_def)
  then show "trans_ok s" "\<And>i. i < nat (lh_n s) \<Longrightarrow> memdisk s (log_start s + i + 1) = view s (lh_sector s ! i)"
    using assms by (simp_all add: trans_ok_def log_ok_def logged_ok_def)
qed

text \<open>
  C29: \<^verbatim>\<open>log_write\<close> keeps the log up to date. Called in a transaction with a buffer that is held
  and whose contents may have changed, it writes only to the log: afterwards the header
  in memory lists the sector once, besides those it listed before, the log holds the
  current contents of every sector it lists, and their buffers are dirty, so that none of
  them leaves the cache before the commit. A full log and a call outside a transaction
  are panics.
\<close>

theorem log_write_correct:
  fixes s :: "'a klog_scheme"
  assumes "logged_ok s {sec}" and "held s {b}" and "holds s b sec" and "sec < disksize s" and "sec \<notin> log_region (log_start s)"
    and "clean s \<noteq> {}"
  shows "if lh_n s \<ge> int LOGSIZE \<or> lh_n s \<ge> log_size s - 1 then log_write b s = Panic ''too big a transaction''
    else if \<not> log_busy s then log_write b s = Panic ''write outside of trans''
    else \<exists>s'. log_write b s = Ok () s' \<and> logged_ok s' {} \<and> held s' {b} \<and> holds s' b sec \<and>
      set (take (nat (lh_n s')) (lh_sector s')) = insert sec (set (take (nat (lh_n s)) (lh_sector s))) \<and>
      (\<forall>x. x \<notin> log_region (log_start s) \<longrightarrow> view s' x = view s x \<and> memdisk s' x = memdisk s x)"
proof -
  have "\<forall>b'\<in>{b}. \<forall>x\<in>log_region (log_start s). \<not> holds s b' x"
    using bc.holds_sector [OF assms(3)] assms(5) by auto
  note run = log_write_run [OF assms(1-3) singletonI this assms(4-6)]
  show ?thesis
  proof (cases "lh_n s < int LOGSIZE \<and> lh_n s < log_size s - 1 \<and> log_busy s")
    case True
    then have r: "lh_n s < int LOGSIZE" "lh_n s < log_size s - 1" "log_busy s"
      by blast+
    then show ?thesis
      using run [OF r] by auto
  next
    case False
    then show ?thesis
      by (auto simp: log_write_def)
  qed
qed

theorem log_write_correct_witness:
  "\<exists>b s s'. bread 1 5 demo_klog = Ok b s \<and> log_write b s = Ok () s' \<and> logged_ok s' {} \<and>
     set (take (nat (lh_n s')) (lh_sector s')) = {5} \<and> memdisk s' 5 = replicate BSIZE 0"
proof -
  have ok: "log_ok demo_klog"
    using demo_trans_ok(1) by (simp add: trans_ok_def)
  have nd: "\<not> is_dirty demo_klog x" and cl: "clean demo_klog = {..<NBUF}" for x
    by (rule demo_klog_cache)+
  have h: "held demo_klog {}" "5 < disksize demo_klog" "is_dirty demo_klog 5 \<or> clean demo_klog \<noteq> {}"
    using ok by (simp_all add: log_ok_def)
  obtain b s where s: "bread 1 5 demo_klog = Ok b s" "held s {b}" "holds s b 5" "io_frame demo_klog s" "memdisk s = memdisk demo_klog"
    "is_dirty s = is_dirty demo_klog" "clean s = clean demo_klog - {b}"
    using bc.rd_law [OF h(1,2) _ h(3)] by auto
  note f = io_frame_log [OF s(4)]
  have "logged_ok s {5}" "5 < disksize s" "5 \<notin> log_region (log_start s)"
    using nd by (simp_all add: logged_ok_def f s(5,6) log_region_def)
  moreover have "(if b = 0 then 1 else 0) \<in> clean s"
    by (simp add: s(7) cl)
  then have "clean s \<noteq> {}"
    by blast
  ultimately obtain s' where "log_write b s = Ok () s'" "logged_ok s' {}"
    "set (take (nat (lh_n s')) (lh_sector s')) = insert 5 (set (take (nat (lh_n s)) (lh_sector s)))"
    "\<forall>x. x \<notin> log_region (log_start s) \<longrightarrow> view s' x = view s x \<and> memdisk s' x = memdisk s x"
    using log_write_correct [OF _ s(2,3)] by (auto simp: f)
  then show ?thesis
    using s(1,5) by (intro exI [of _ b] exI conjI) (auto simp: f log_region_def)
qed

end
