(* ===== verification/Demo.thy ===== *)
theory Demo
  imports Trap Recovery
begin

text \<open>
  A machine at rest, on which the theorems about the upper layers are exercised: it
  extends the concrete states of the lower layers (free pages, an address space, an empty
  buffer cache) by an empty file table, no pipes and a console without input.
\<close>

definition no_inode :: inode where
  "no_inode = \<lparr>i_dev = 0, i_inum = 0, i_ref = 0, i_busy = False, i_valid = False, i_type = 0, i_major = 0, i_minor = 0,
     i_nlink = 0, i_size = 0, i_addrs = replicate 13 0\<rparr>"

definition no_file :: file_st where
  "no_file = \<lparr>f_type = FD_NONE, f_ref = 0, f_readable = False, f_writable = False, f_pipe = 0, f_ip = 0, f_off = 0\<rparr>"

definition empty_pipe :: pipe where
  "empty_pipe = \<lparr>p_data = replicate 512 0, nread = 0, nwrite = 0, readopen = True, writeopen = True\<rparr>"

definition machine :: ktrap where
  "machine =
     kker.extend (kfile.extend (kcons.extend (kinode.extend (klog.extend demo_klog
       (kinode.fields (replicate 50 no_inode)))
       (kcons.fields True False [] True (\<lambda>_. 0) 0 (replicate 128 0) 0 0 0 True))
       (kfile.fields (replicate 100 no_file) (\<lambda>_. empty_pipe)))
       (kker.fields False 0))
       (ktrap.fields [] 0)"

lemma machine_fields [simp]:
  "lk machine = no_locks" "cur machine = Some 0" "procs machine = procs demo_kproc"
  "kbytes machine = kbytes demo_uvm" "kend machine = kend demo_uvm" "freelist machine = freelist demo_uvm"
  "bcache machine = bcache demo_kbio" "memdisk machine = memdisk demo_klog" "disksize machine = 1000"
  "icache machine = replicate 50 no_inode" "ftable machine = replicate 100 no_file" "pipes machine = (\<lambda>_. empty_pipe)"
  "panicked machine = False" "in_buf machine = replicate 128 0" "in_r machine = 0" "in_w machine = 0" "in_e machine = 0"
  "crt_pos machine = 0" "initproc machine = 0" "ticks machine = 0"
  by (simp_all add: machine_def kker.defs kfile.defs kcons.defs kinode.defs klog.defs ktrap.defs
      demo_klog_def kbio.defs demo_kbio_def kvm.defs kmemory.defs demo_uvm_def demo_kmemory_def kproc.defs demo_kproc_def)

lemma demo_procs: "procs demo_kproc = demo_proc\<lparr>pstate := RUNNING\<rparr> # replicate 63 (demo_proc\<lparr>pid := 0, pstate := UNUSED\<rparr>)"
  "length (procs demo_kproc) = 64" "procs demo_kproc ! 0 = demo_proc\<lparr>pstate := RUNNING\<rparr>"
  by (simp_all add: demo_kproc_def)

end
