(* ===== verification/Ring.thy ===== *)
theory Ring
  imports Prelude
begin

text \<open>
  Ring buffers indexed by two 32-bit counters that only ever grow and wrap around: the
  pipes of \<^verbatim>\<open>pipe.c\<close> and the input line of \<^verbatim>\<open>console.c\<close>. \<open>ring d r w\<close> is the sequence of
  bytes between the counters \<open>r\<close> and \<open>w\<close>; the operations of the code on the array and the
  counters are those of a queue on this sequence. The length of the array divides
  \<open>2 ^ 32\<close>, without which the wrap-around of a counter would lose the position. The locale
  \<open>byte_queue\<close> is what the clients of such a buffer rely on.
\<close>

section \<open>The sequence a ring buffer holds\<close>

definition ring :: "u8 list \<Rightarrow> u32 \<Rightarrow> u32 \<Rightarrow> u8 list" where
  "ring d r w = map (\<lambda>i. d ! (unat (r + of_nat i) mod length d)) [0..<unat (w - r)]"

definition ring_ok :: "u8 list \<Rightarrow> u32 \<Rightarrow> u32 \<Rightarrow> bool" where
  "ring_ok d r w \<longleftrightarrow> length d dvd 2 ^ 32 \<and> length d < 2 ^ 32 \<and> unat (w - r) \<le> length d"

lemma length_ring [simp]: "length (ring d r w) = unat (w - r)"
  by (simp add: ring_def)

lemma ring_empty_iff [simp]: "ring d r w = [] \<longleftrightarrow> r = w"
  by (metis length_0_conv length_ring right_minus_eq unat_eq_zero)

lemma ring_ok_pos: "ring_ok d r w \<Longrightarrow> 0 < length d"
  by (auto simp: ring_ok_def intro: gr0I)

lemma unat_add_mod:
  assumes "n dvd 2 ^ 32"
  shows "unat (r + of_nat i :: u32) mod n = (unat r + i) mod n"
proof -
  have "unat (r + of_nat i :: u32) = (unat r + i) mod 2 ^ 32"
    by (simp add: unat_word_ariths unat_of_nat mod_add_right_eq)
  then show ?thesis
    using assms by (simp add: mod_mod_cancel)
qed

lemma mod_add_inj_le:
  assumes "(a + i) mod n = (a + j) mod n" "i \<le> j" "j < (n :: nat)"
  shows "i = j"
proof -
  have "n dvd (a + j) - (a + i)"
    using assms by (subst mod_eq_dvd_iff_nat [symmetric]) simp_all
  then show ?thesis
    using assms nat_dvd_not_less [of "j - i" n] by (cases "i = j") simp_all
qed

lemma mod_add_inj:
  assumes "(a + i) mod n = (a + j) mod n" "i < n" "j < (n :: nat)"
  shows "i = j"
proof (cases "i \<le> j")
  case True
  then show ?thesis
    by (rule mod_add_inj_le [OF assms(1) _ assms(3)])
next
  case False
  then show ?thesis
    using mod_add_inj_le [OF assms(1) [symmetric] _ assms(2)] by linarith
qed

lemma ring_index_inj:
  assumes "n dvd 2 ^ 32" "i < n" "j < n"
    "unat (r + of_nat i :: u32) mod n = unat (r + of_nat j) mod n"
  shows "i = j"
  by (rule mod_add_inj [OF assms(4) [unfolded unat_add_mod [OF assms(1)]] assms(2,3)])

lemma of_nat_unat_diff: "r + of_nat (unat (w - r)) = (w :: u32)"
  by simp

lemma unat_plus_1: "unat x < 2 ^ 32 - 1 \<Longrightarrow> unat (x + 1 :: u32) = Suc (unat x)"
  by (simp add: unat_word_ariths)

lemma unat_minus_1: "x \<noteq> 0 \<Longrightarrow> unat (x - 1 :: u32) = unat x - 1"
  by (metis add_diff_cancel_left' diff_add_cancel less_imp_Suc_add unat_gt_0 unat_minus_one)

lemma Suc_unat_minus_1: "x \<noteq> 0 \<Longrightarrow> unat x = Suc (unat (x - 1 :: u32))"
  using unat_gt_0 [of x] by (simp add: unat_minus_1)

lemma ring_full_iff: "n < 2 ^ 32 \<Longrightarrow> w = r + of_nat n \<longleftrightarrow> unat (w - r) = n" for w r :: u32
proof -
  assume n: "n < 2 ^ 32"
  have "w = r + of_nat n \<longleftrightarrow> w - r = of_nat n"
    by (simp add: diff_eq_eq add.commute)
  also have "\<dots> \<longleftrightarrow> unat (w - r) = n"
    using n by (simp add: word_unat_eq_iff unat_of_nat take_bit_nat_eq_self)
  finally show ?thesis .
qed

lemma ring_ok_put: "ring_ok d r w \<Longrightarrow> unat (w - r) < length d \<Longrightarrow> ring_ok (d[i := c]) r (w + 1)"
  using unat_plus_1 [of "w - r"] by (simp add: ring_ok_def diff_add_eq)

lemma ring_put:
  assumes "ring_ok d r w" "unat (w - r) < length d"
  shows "ring (d[unat w mod length d := c]) r (w + 1) = ring d r w @ [c]"
proof -
  define n where "n = unat (w - r)"
  have dv: "length d dvd 2 ^ 32" and len: "n < length d" "length d < 2 ^ 32"
    using assms by (simp_all add: ring_ok_def n_def)
  have w: "w = r + of_nat n"
    by (simp add: n_def)
  have n: "unat (w + 1 - r) = Suc n"
    using len unat_plus_1 [of "w - r"] by (simp add: n_def diff_add_eq)
  have "unat w mod length d \<noteq> unat (r + of_nat i) mod length d" if "i < n" for i
  proof
    assume "unat w mod length d = unat (r + of_nat i) mod length d"
    then have "unat (r + of_nat n) mod length d = unat (r + of_nat i) mod length d"
      by (subst w [symmetric])
    with that len(1) show False
      using ring_index_inj [OF dv, of n i r] by linarith
  qed
  then have "map (\<lambda>i. d[unat w mod length d := c] ! (unat (r + of_nat i) mod length d)) [0..<n] = ring d r w"
    unfolding ring_def n_def [symmetric] by (intro map_cong refl nth_list_update_neq) simp
  moreover have "unat w mod length d < length d"
    using len(1) by (intro mod_less_divisor) linarith
  then have "d[unat w mod length d := c] ! (unat (r + of_nat n) mod length d) = c"
    by (simp only: w [symmetric] nth_list_update_eq)
  ultimately show ?thesis
    by (simp only: ring_def [of "d[unat w mod length d := c]"] n length_list_update upt_Suc_append le0 map_append list.map)
qed

lemma ring_Cons:
  assumes "r \<noteq> w"
  shows "ring d r w = d ! (unat r mod length d) # ring d (r + 1) w"
proof -
  have "unat (w - r) = Suc (unat (w - (r + 1)))"
    using assms Suc_unat_minus_1 [of "w - r"] by (simp add: diff_diff_add)
  moreover have "[0..<Suc n] = 0 # map Suc [0..<n]" for n
    by (simp add: upt_conv_Cons map_Suc_upt del: upt_Suc)
  ultimately show ?thesis
    by (simp add: ring_def add.assoc del: upt_Suc)
qed

lemma ring_ok_drop: "ring_ok d r w \<Longrightarrow> r \<noteq> w \<Longrightarrow> ring_ok d (r + 1) w"
  using unat_minus_1 [of "w - r"] by (auto simp: ring_ok_def diff_diff_add)

lemma ring_butlast:
  assumes "r \<noteq> w"
  shows "ring d r w = ring d r (w - 1) @ [d ! (unat (w - 1) mod length d)]"
proof -
  have n: "unat (w - r) = Suc (unat (w - 1 - r))"
    using assms Suc_unat_minus_1 [of "w - r"] by (simp add: diff_right_commute)
  have w: "r + of_nat (unat (w - 1 - r)) = w - 1"
    by (rule of_nat_unat_diff)
  show ?thesis
    unfolding ring_def n upt_Suc_append [OF le0] map_append list.map w ..
qed

lemma ring_ok_back: "ring_ok d r w \<Longrightarrow> r \<noteq> w \<Longrightarrow> ring_ok d r (w - 1)"
  using unat_minus_1 [of "w - r"] by (auto simp: ring_ok_def diff_right_commute)

section \<open>The interface of a bounded queue of bytes\<close>

text \<open>
  \<open>put\<close> may be used on a queue that is not full, \<open>front\<close> and \<open>advance\<close> on one that is not
  empty. Writers put the bytes of a list one after the other, readers take bytes until
  they have enough or the queue is empty.
\<close>

locale byte_queue =
  fixes contents :: "'q \<Rightarrow> u8 list" and ok :: "'q \<Rightarrow> bool" and capacity :: nat
    and put :: "u8 \<Rightarrow> 'q \<Rightarrow> 'q" and is_full :: "'q \<Rightarrow> bool"
    and front :: "'q \<Rightarrow> u8" and advance :: "'q \<Rightarrow> 'q" and is_empty :: "'q \<Rightarrow> bool"
  assumes put_ok: "ok q \<Longrightarrow> \<not> is_full q \<Longrightarrow> ok (put c q)"
    and put_contents: "ok q \<Longrightarrow> \<not> is_full q \<Longrightarrow> contents (put c q) = contents q @ [c]"
    and is_full_iff: "ok q \<Longrightarrow> is_full q \<longleftrightarrow> length (contents q) = capacity"
    and bounded: "ok q \<Longrightarrow> length (contents q) \<le> capacity"
    and advance_ok: "ok q \<Longrightarrow> \<not> is_empty q \<Longrightarrow> ok (advance q)"
    and advance_contents: "ok q \<Longrightarrow> \<not> is_empty q \<Longrightarrow> contents q = front q # contents (advance q)"
    and is_empty_iff: "ok q \<Longrightarrow> is_empty q \<longleftrightarrow> contents q = []"
begin

lemma put_all:
  "ok q \<Longrightarrow> length (contents q) + length cs \<le> capacity \<Longrightarrow>
     ok (fold put cs q) \<and> contents (fold put cs q) = contents q @ cs"
  by (induction cs arbitrary: q) (auto simp: put_ok put_contents is_full_iff)

lemma advance_all:
  "ok q \<Longrightarrow> n \<le> length (contents q) \<Longrightarrow>
     ok ((advance ^^ n) q) \<and> contents ((advance ^^ n) q) = drop n (contents q)"
proof (induction n)
  case (Suc n)
  then have "\<not> is_empty ((advance ^^ n) q)" and ok: "ok ((advance ^^ n) q)"
    by (auto simp: is_empty_iff)
  then have "contents (advance ((advance ^^ n) q)) = tl (contents ((advance ^^ n) q))"
    using advance_contents [OF ok] by (metis list.sel(3))
  with Suc show ?case
    using advance_ok [OF ok \<open>\<not> is_empty _\<close>] by (simp add: drop_Suc tl_drop)
qed simp

end

end
