(* ===== verification/Pipe.thy ===== *)
theory Pipe
  imports Demo Ring
begin

text \<open>
  The pipes of \<^verbatim>\<open>pipe.c\<close> implement a bounded queue of bytes. The abstract pipe is the
  sequence of bytes written and not yet read, with the two flags that say which ends
  are open; a write hands over as many bytes as fit, a read takes what is there.
\<close>

section \<open>The abstract pipe\<close>

record apipe =
  queue :: "u8 list"
  r_open :: bool
  w_open :: bool

definition pipe_abs :: "pipe \<Rightarrow> apipe" where
  "pipe_abs x = \<lparr>queue = ring (p_data x) (nread x) (nwrite x), r_open = readopen x, w_open = writeopen x\<rparr>"

definition pipe_ok :: "pipe \<Rightarrow> bool" where
  "pipe_ok x \<longleftrightarrow> length (p_data x) = PIPESIZE \<and> ring_ok (p_data x) (nread x) (nwrite x)"

text \<open>What a write leaves in the pipe, and which of its bytes are still to be written.\<close>

definition apipe_write :: "u8 list \<Rightarrow> apipe \<Rightarrow> apipe \<times> u8 list" where
  "apipe_write cs a =
     (let free = PIPESIZE - length (queue a) in (a\<lparr>queue := queue a @ take free cs\<rparr>, drop free cs))"

definition apipe_read :: "nat \<Rightarrow> apipe \<Rightarrow> apipe \<times> u8 list" where
  "apipe_read n a = (a\<lparr>queue := drop n (queue a)\<rparr>, take n (queue a))"

definition pipe_advance :: "pipe \<Rightarrow> pipe" where
  "pipe_advance x = x\<lparr>nread := nread x + 1\<rparr>"

interpretation pq: byte_queue "\<lambda>x. queue (pipe_abs x)" pipe_ok PIPESIZE
  pipe_put "\<lambda>x. nwrite x = nread x + of_nat PIPESIZE" pipe_front pipe_advance "\<lambda>x. nread x = nwrite x"
proof
  fix q :: pipe and c
  assume ok: "pipe_ok q"
  then have len: "length (p_data q) = PIPESIZE" and r: "ring_ok (p_data q) (nread q) (nwrite q)"
    by (simp_all add: pipe_ok_def)
  show full: "nwrite q = nread q + of_nat PIPESIZE \<longleftrightarrow> length (queue (pipe_abs q)) = PIPESIZE"
    using ring_full_iff [of PIPESIZE] by (simp add: pipe_abs_def)
  show "length (queue (pipe_abs q)) \<le> PIPESIZE"
    using r len by (simp add: pipe_abs_def ring_ok_def)
  show "nread q = nwrite q \<longleftrightarrow> queue (pipe_abs q) = []"
    by (simp add: pipe_abs_def)
  show "pipe_ok (pipe_advance q)" "queue (pipe_abs q) = pipe_front q # queue (pipe_abs (pipe_advance q))"
    if "nread q \<noteq> nwrite q"
    using that len r by (simp_all add: pipe_ok_def pipe_advance_def ring_ok_drop pipe_abs_def ring_Cons [of "nread q"] pipe_front_def)
  show "pipe_ok (pipe_put c q)" "queue (pipe_abs (pipe_put c q)) = queue (pipe_abs q) @ [c]"
    if "nwrite q \<noteq> nread q + of_nat PIPESIZE"
  proof -
    have "unat (nwrite q - nread q) < length (p_data q)"
      using that full r len by (simp add: pipe_abs_def ring_ok_def)
    then show "pipe_ok (pipe_put c q)" "queue (pipe_abs (pipe_put c q)) = queue (pipe_abs q) @ [c]"
      using len ring_ok_put [OF r] ring_put [OF r] by (simp_all add: pipe_ok_def pipe_put_def pipe_abs_def)
  qed
qed

lemma pipe_put_open [simp]:
  "readopen (fold pipe_put cs x) = readopen x" "writeopen (fold pipe_put cs x) = writeopen x"
  by (induction cs arbitrary: x) (simp_all add: pipe_put_def)

lemma pipe_advance_open [simp]:
  "readopen ((pipe_advance ^^ n) x) = readopen x" "writeopen ((pipe_advance ^^ n) x) = writeopen x"
  by (induction n) (simp_all add: pipe_advance_def)

lemma pipe_put_all:
  assumes "pipe_ok x" "length (queue (pipe_abs x)) + length cs \<le> PIPESIZE"
  shows "pipe_ok (fold pipe_put cs x)" "pipe_abs (fold pipe_put cs x) = (pipe_abs x)\<lparr>queue := queue (pipe_abs x) @ cs\<rparr>"
  using pq.put_all [OF assms] by (simp_all add: pipe_abs_def)

lemma pipe_advance_all:
  assumes "pipe_ok x" "n \<le> length (queue (pipe_abs x))"
  shows "pipe_ok ((pipe_advance ^^ n) x)"
    "pipe_abs ((pipe_advance ^^ n) x) = (pipe_abs x)\<lparr>queue := drop n (queue (pipe_abs x))\<rparr>"
  using pq.advance_all [OF assms] by (simp_all add: pipe_abs_def)

section \<open>The operations\<close>

lemma get_pipe_run [simp]: "get_pipe p s = Ok (pipes s p) s"
  by (simp add: get_pipe_def)

lemma upd_pipe_run [simp]: "upd_pipe p f s = Ok () (s\<lparr>pipes := (pipes s)(p := f (pipes s p))\<rparr>)"
  by (simp add: upd_pipe_def)

lemma killed_wake [simp]: "killed (wake ch p) = killed p"
  by (simp add: wake_def)

text \<open>Sleeping on a channel while holding just the lock \<open>l\<close>.\<close>

lemma suspend_Switch:
  assumes "lk s = acq l k" "lk_ok k" "ncli k (me k) = 0" "\<not> locked k l" "\<not> locked k Lptable" "l \<noteq> Lptable"
    "cur s = Some i" "i < length (procs s)"
  shows "suspend ch l s = Switch (s\<lparr>lk := rel l (acq Lptable (acq l k)),
       procs := (procs s)[i := (procs s ! i)\<lparr>chan := Some ch, pstate := SLEEPING, kcontext := InSched\<rparr>]\<rparr>)"
proof -
  have "sleep ch l s = Switch (s\<lparr>lk := rel l (acq Lptable (lk s)),
       procs := (procs s)[i := (procs s ! i)\<lparr>chan := Some ch, pstate := SLEEPING, kcontext := InSched\<rparr>]\<rparr>)"
    using assms by (intro sleep_Switch) simp_all
  then show ?thesis
    using assms(1) by (simp add: suspend_def)
qed

lemma pipewrite_loop_put:
  assumes "pipe_ok (pipes s p)" "length (queue (pipe_abs (pipes s p))) + length cs \<le> PIPESIZE"
  shows "pipewrite_loop p n (cs @ ds) s =
    pipewrite_loop p n ds (s\<lparr>pipes := (pipes s)(p := fold pipe_put cs (pipes s p))\<rparr>)"
  using assms
proof (induction cs arbitrary: s)
  case (Cons c cs)
  let ?s = "s\<lparr>pipes := (pipes s)(p := pipe_put c (pipes s p))\<rparr>"
  have "nwrite (pipes s p) \<noteq> nread (pipes s p) + of_nat PIPESIZE"
    using Cons.prems by (subst pq.is_full_iff) simp_all
  then have "pipewrite_loop p n ((c # cs) @ ds) s = pipewrite_loop p n (cs @ ds) ?s"
    by simp
  also have "\<dots> = pipewrite_loop p n ds (?s\<lparr>pipes := (pipes ?s)(p := fold pipe_put cs (pipes ?s p))\<rparr>)"
    using Cons.prems \<open>nwrite _ \<noteq> _\<close> by (intro Cons.IH) (simp_all add: pq.put_ok pq.put_contents)
  also have "?s\<lparr>pipes := (pipes ?s)(p := fold pipe_put cs (pipes ?s p))\<rparr> =
      s\<lparr>pipes := (pipes s)(p := fold pipe_put (c # cs) (pipes s p))\<rparr>"
    by simp
  finally show ?case .
qed simp

lemma pipewrite_loop_full:
  assumes "pipe_ok (pipes s p)" "length (queue (pipe_abs (pipes s p))) = PIPESIZE" "ds \<noteq> []"
    "lk s = acq (Lpipe p) k" "lk_ok k" "ncli k (me k) = 0" "\<not> locked k (Lpipe p)" "\<not> locked k Lptable"
    "cur s = Some i" "i < length (procs s)"
  shows "pipewrite_loop p n ds s =
    (if \<not> readopen (pipes s p) \<or> killed (procs s ! i) then Ok (- 1) (s\<lparr>lk := k\<rparr>)
     else Switch (s\<lparr>lk := rel (Lpipe p) (acq Lptable (acq (Lpipe p) k)),
       procs := (map (wake (ChPipeRead p)) (procs s))[i := (wake (ChPipeRead p) (procs s ! i))
         \<lparr>chan := Some (ChPipeWrite p), pstate := SLEEPING, kcontext := InSched\<rparr>]\<rparr>))"
proof -
  obtain c cs where ds: "ds = c # cs"
    using assms(3) by (cases ds) auto
  have full: "nwrite (pipes s p) = nread (pipes s p) + of_nat PIPESIZE"
    using assms(1,2) by (subst pq.is_full_iff) simp_all
  let ?s = "s\<lparr>procs := map (wake (ChPipeRead p)) (procs s)\<rparr>"
  have "wakeup (ChPipeRead p) s = Ok () ?s"
    using assms by (intro wakeup_Ok) simp_all
  then show ?thesis
    using assms by (simp add: ds full [simplified] myproc_def suspend_Switch [where k = k and i = i])
qed

lemma pipewrite_refines:
  assumes "pipe_ok (pipes s p)" "lk_ok (lk s)" "ncli (lk s) (me (lk s)) = 0"
    "\<not> locked (lk s) (Lpipe p)" "\<not> locked (lk s) Lptable" "cur s = Some i" "i < length (procs s)"
    "apipe_write cs (pipe_abs (pipes s p)) = (a, rest)"
  shows "\<exists>s'. pipe_ok (pipes s' p) \<and> pipe_abs (pipes s' p) = a \<and> (\<forall>q. q \<noteq> p \<longrightarrow> pipes s' q = pipes s q) \<and>
    (if rest = [] then pipewrite p cs n s = Ok n s' \<and> lk s' = lk s \<and> procs s' = map (wake (ChPipeRead p)) (procs s)
     else if \<not> r_open a \<or> killed (procs s ! i) then pipewrite p cs n s = Ok (- 1) s' \<and> lk s' = lk s
     else pipewrite p cs n s = Switch s' \<and> \<not> locked (lk s') (Lpipe p) \<and>
       chan (procs s' ! i) = Some (ChPipeWrite p) \<and> pstate (procs s' ! i) = SLEEPING)"
proof -
  let ?x = "pipes s p" and ?k = "acq (Lpipe p) (lk s)"
  define free where "free = PIPESIZE - length (queue (pipe_abs ?x))"
  define x where "x = fold pipe_put (take free cs) ?x"
  define s1 where "s1 = s\<lparr>lk := ?k, pipes := (pipes s)(p := x)\<rparr>"
  have a: "a = (pipe_abs ?x)\<lparr>queue := queue (pipe_abs ?x) @ take free cs\<rparr>" and rest: "rest = drop free cs"
    using assms(8) by (auto simp: apipe_write_def free_def Let_def)
  have fit: "length (queue (pipe_abs ?x)) + length (take free cs) \<le> PIPESIZE"
    using pq.bounded [OF assms(1)] by (simp add: free_def)
  then have x: "pipe_ok x" "pipe_abs x = a"
    using pipe_put_all [OF assms(1) fit] by (simp_all add: x_def a)
  then have ro: "readopen x = r_open a"
    by (auto simp: pipe_abs_def)
  have s1: "pipes s1 p = x" "lk s1 = ?k" "cur s1 = Some i" "procs s1 = procs s" "\<And>q. q \<noteq> p \<Longrightarrow> pipes s1 q = pipes s q"
    using assms(6) by (simp_all add: s1_def)
  have "pipewrite p cs n s = pipewrite_loop p n (take free cs @ rest) (s\<lparr>lk := ?k\<rparr>)"
    using assms(4) by (simp add: pipewrite_def acquire_Ok rest)
  also have "\<dots> = pipewrite_loop p n rest s1"
    using assms(1) fit by (subst pipewrite_loop_put) (simp_all add: s1_def x_def)
  finally have run: "pipewrite p cs n s = pipewrite_loop p n rest s1" .
  show ?thesis
  proof (cases "rest = []")
    case True
    then show ?thesis
      using run s1 x assms by (intro exI [of _ "s1\<lparr>procs := map (wake (ChPipeRead p)) (procs s), lk := lk s\<rparr>"]) simp
  next
    case False
    then have full: "length (queue (pipe_abs (pipes s1 p))) = PIPESIZE"
      using fit rest x by (simp add: s1 a free_def)
    show ?thesis
      using run s1 x ro assms False pipewrite_loop_full [OF _ full False s1(2), of i n]
      by (cases "\<not> r_open a \<or> killed (procs s ! i)") auto
  qed
qed

lemma piperead_copy_Ok:
  assumes "pipe_ok (pipes s p)"
  shows "piperead_copy p n s = Ok (take n (queue (pipe_abs (pipes s p))))
    (s\<lparr>pipes := (pipes s)(p := (pipe_advance ^^ min n (length (queue (pipe_abs (pipes s p))))) (pipes s p))\<rparr>)"
  using assms
proof (induction n arbitrary: s)
  case (Suc n)
  let ?x = "pipes s p" and ?s = "s\<lparr>pipes := (pipes s)(p := pipe_advance (pipes s p))\<rparr>"
  show ?case
  proof (cases "nread ?x = nwrite ?x")
    case True
    then have "queue (pipe_abs ?x) = []"
      using Suc.prems by (simp add: pq.is_empty_iff)
    then show ?thesis
      using True by simp
  next
    case False
    note adv = pq.advance_contents [OF Suc.prems False] and ok = pq.advance_ok [OF Suc.prems False]
    have u: "upd_pipe p (\<lambda>x. x\<lparr>nread := nread x + 1\<rparr>) s = Ok () ?s"
      by (simp add: pipe_advance_def)
    have "piperead_copy p n ?s = Ok (take n (queue (pipe_abs (pipes ?s p))))
       (?s\<lparr>pipes := (pipes ?s)(p := (pipe_advance ^^ min n (length (queue (pipe_abs (pipes ?s p))))) (pipes ?s p))\<rparr>)"
      using ok by (intro Suc.IH) simp
    then have "piperead_copy p n ?s = Ok (take n (queue (pipe_abs (pipe_advance ?x))))
       (s\<lparr>pipes := (pipes s)(p := (pipe_advance ^^ min n (length (queue (pipe_abs (pipe_advance ?x))))) (pipe_advance ?x))\<rparr>)"
      by simp
    with u False have "piperead_copy p (Suc n) s = Ok (pipe_front ?x # take n (queue (pipe_abs (pipe_advance ?x))))
       (s\<lparr>pipes := (pipes s)(p := (pipe_advance ^^ min n (length (queue (pipe_abs (pipe_advance ?x))))) (pipe_advance ?x))\<rparr>)"
      by (simp del: upd_pipe_run)
    moreover have "(pipe_advance ^^ min (Suc n) (length (queue (pipe_abs ?x)))) ?x =
        (pipe_advance ^^ min n (length (queue (pipe_abs (pipe_advance ?x))))) (pipe_advance ?x)"
      by (subst adv) (simp add: funpow_swap1)
    moreover have "take (Suc n) (queue (pipe_abs ?x)) = pipe_front ?x # take n (queue (pipe_abs (pipe_advance ?x)))"
      by (subst adv) simp
    ultimately show ?thesis
      by (simp only:)
  qed
qed simp

lemma piperead_refines:
  assumes "pipe_ok (pipes s p)" "lk_ok (lk s)" "ncli (lk s) (me (lk s)) = 0"
    "\<not> locked (lk s) (Lpipe p)" "\<not> locked (lk s) Lptable" "cur s = Some i" "i < length (procs s)"
    "apipe_read (nat m) (pipe_abs (pipes s p)) = (a, out)"
  shows "\<exists>s'. pipe_ok (pipes s' p) \<and> pipe_abs (pipes s' p) = a \<and> (\<forall>q. q \<noteq> p \<longrightarrow> pipes s' q = pipes s q) \<and>
    (if queue (pipe_abs (pipes s p)) \<noteq> [] \<or> \<not> w_open a
     then piperead p m s = Ok (int (length out), out) s' \<and> lk s' = lk s \<and> procs s' = map (wake (ChPipeWrite p)) (procs s)
     else if killed (procs s ! i) then piperead p m s = Ok (- 1, []) s' \<and> lk s' = lk s
     else piperead p m s = Switch s' \<and> \<not> locked (lk s') (Lpipe p) \<and>
       chan (procs s' ! i) = Some (ChPipeRead p) \<and> pstate (procs s' ! i) = SLEEPING)"
proof -
  let ?x = "pipes s p" and ?k = "acq (Lpipe p) (lk s)"
  define x where "x = (pipe_advance ^^ min (nat m) (length (queue (pipe_abs ?x)))) ?x"
  have a: "a = (pipe_abs ?x)\<lparr>queue := drop (nat m) (queue (pipe_abs ?x))\<rparr>" and out: "out = take (nat m) (queue (pipe_abs ?x))"
    using assms(8) by (auto simp: apipe_read_def)
  have x: "pipe_ok x" "pipe_abs x = a"
    using pipe_advance_all [OF assms(1), of "min (nat m) (length (queue (pipe_abs ?x)))"]
    by (auto simp: x_def a min_def)
  have w: "w_open a = writeopen ?x"
    by (simp add: a pipe_abs_def)
  have run: "piperead p m s = piperead_loop p m (s\<lparr>lk := ?k\<rparr>)"
    using assms(4) by (simp add: piperead_def acquire_Ok)
  show ?thesis
  proof (cases "queue (pipe_abs ?x) \<noteq> [] \<or> \<not> w_open a")
    case True
    then have "\<not> (nread ?x = nwrite ?x \<and> writeopen ?x)"
      using assms(1) w by (simp add: pq.is_empty_iff)
    then have "piperead p m s = Ok (int (length out), out)
        (s\<lparr>lk := lk s, pipes := (pipes s)(p := x), procs := map (wake (ChPipeWrite p)) (procs s)\<rparr>)"
      using assms unfolding run by (auto simp: piperead_loop_def piperead_copy_Ok x_def out)
    then show ?thesis
      using True x by (intro exI [of _ "s\<lparr>lk := lk s, pipes := (pipes s)(p := x), procs := map (wake (ChPipeWrite p)) (procs s)\<rparr>"]) simp
  next
    case False
    then have e: "nread ?x = nwrite ?x" "writeopen ?x" and x': "pipe_abs ?x = a"
      using assms(1) w a by (auto simp: pq.is_empty_iff)
    show ?thesis
      using False e x' assms unfolding run
      by (cases "killed (procs s ! i)")
        (auto simp: piperead_loop_def myproc_def suspend_Switch [where k = "lk s" and i = i])
  qed
qed

section \<open>Properties\<close>

text \<open>
  C32: a pipe is a bounded queue of bytes. \<^verbatim>\<open>pipewrite\<close> appends as many bytes as there is room
  for. When that was all of them it returns and wakes the readers; otherwise it fails if
  there is no reader left or the process has been killed, and else goes to sleep until a
  reader has made room. \<^verbatim>\<open>piperead\<close> takes up to \<open>m\<close> bytes from the front and wakes the writers;
  on an empty pipe it returns 0 when there is no writer left, fails when the process has
  been killed, and otherwise goes to sleep. The lock is given back in every case, and
  no other pipe is touched. The counters may wrap around.
\<close>

theorem pipe_refines_queue:
  fixes s :: "'a kfile_scheme"
  assumes "pipe_ok (pipes s p)" and "lk_ok (lk s)" and "ncli (lk s) (me (lk s)) = 0"
    and "\<not> locked (lk s) (Lpipe p)" and "\<not> locked (lk s) Lptable" and "cur s = Some i" and "i < length (procs s)"
    and "apipe_write cs (pipe_abs (pipes s p)) = (a, rest)" and "apipe_read (nat m) (pipe_abs (pipes s p)) = (r, out)"
  shows "(\<exists>s'. pipe_ok (pipes s' p) \<and> pipe_abs (pipes s' p) = a \<and> (\<forall>q. q \<noteq> p \<longrightarrow> pipes s' q = pipes s q) \<and>
      (if rest = [] then pipewrite p cs n s = Ok n s' \<and> lk s' = lk s \<and> procs s' = map (wake (ChPipeRead p)) (procs s)
       else if \<not> r_open a \<or> killed (procs s ! i) then pipewrite p cs n s = Ok (- 1) s' \<and> lk s' = lk s
       else pipewrite p cs n s = Switch s' \<and> \<not> locked (lk s') (Lpipe p) \<and>
         chan (procs s' ! i) = Some (ChPipeWrite p) \<and> pstate (procs s' ! i) = SLEEPING)) \<and>
    (\<exists>s'. pipe_ok (pipes s' p) \<and> pipe_abs (pipes s' p) = r \<and> (\<forall>q. q \<noteq> p \<longrightarrow> pipes s' q = pipes s q) \<and>
      (if queue (pipe_abs (pipes s p)) \<noteq> [] \<or> \<not> w_open r
       then piperead p m s = Ok (int (length out), out) s' \<and> lk s' = lk s \<and> procs s' = map (wake (ChPipeWrite p)) (procs s)
       else if killed (procs s ! i) then piperead p m s = Ok (- 1, []) s' \<and> lk s' = lk s
       else piperead p m s = Switch s' \<and> \<not> locked (lk s') (Lpipe p) \<and>
         chan (procs s' ! i) = Some (ChPipeRead p) \<and> pstate (procs s' ! i) = SLEEPING))"
  using pipewrite_refines [OF assms(1-8)] piperead_refines [OF assms(1-7,9)] by (rule conjI)

lemma empty_pipe_ok: "pipe_ok empty_pipe" "queue (pipe_abs empty_pipe) = []" "r_open (pipe_abs empty_pipe)"
  by (simp_all add: pipe_ok_def pipe_abs_def empty_pipe_def ring_ok_def ring_def)

theorem pipe_refines_queue_witness:
  "\<exists>s' s''. pipewrite 8 [104, 105] 2 machine = Ok 2 s' \<and> queue (pipe_abs (pipes s' 8)) = [104, 105] \<and>
     piperead 8 10 machine = Switch s'' \<and> pstate (procs s'' ! 0) = SLEEPING"
proof -
  have "apipe_write [104, 105] (pipe_abs (pipes machine 8)) = ((pipe_abs empty_pipe)\<lparr>queue := [104, 105]\<rparr>, [])"
    "apipe_read (nat 10) (pipe_abs (pipes machine 8)) = (pipe_abs empty_pipe, [])"
    using empty_pipe_ok(2) by (simp_all add: apipe_write_def apipe_read_def Let_def)
  note t = pipe_refines_queue [OF _ _ _ _ _ _ _ this, of 0 2]
  show ?thesis
    using t empty_pipe_ok by (auto simp: demo_procs demo_proc_def pipe_abs_def empty_pipe_def)
qed

end
