(* ===== verification/Line.thy ===== *)
theory Line
  imports Demo Ring
begin

text \<open>
  The line discipline of \<^verbatim>\<open>console.c\<close>. The ring buffer with its three counters is a pair of
  byte sequences: what has been entered and can be read, and the line that is still being
  edited.
\<close>

section \<open>The abstract editor\<close>

record aline =
  entered :: "u8 list"
  editing :: "u8 list"

definition line_abs :: "'a kcons_scheme \<Rightarrow> aline" where
  "line_abs s = \<lparr>entered = ring (in_buf s) (in_r s) (in_w s), editing = ring (in_buf s) (in_w s) (in_e s)\<rparr>"

definition line_ok :: "'a kcons_scheme \<Rightarrow> bool" where
  "line_ok s \<longleftrightarrow> length (in_buf s) = INPUT_BUF \<and> ring_ok (in_buf s) (in_r s) (in_e s) \<and>
     unat (in_w s - in_r s) + unat (in_e s - in_w s) = unat (in_e s - in_r s)"

text \<open>
  What a character does: control-U kills the line, back to the last newline, control-H
  and delete take back one character, 0 is nothing. Any other character is dropped when
  the buffer is full; else it is added to the line, and newline, control-D and the last
  free place enter the line.
\<close>

definition edit :: "nat \<Rightarrow> aline \<Rightarrow> aline" where
  "edit c a =
     (if c = 21 then a\<lparr>editing := rev (dropWhile (\<lambda>c. c \<noteq> 10) (rev (editing a)))\<rparr>
      else if c = 8 \<or> c = 127 then a\<lparr>editing := butlast (editing a)\<rparr>
      else if c = 0 \<or> length (entered a) + length (editing a) \<ge> INPUT_BUF then a
      else let b = (if c = 13 then 10 else of_nat c); l = editing a @ [b] in
        if b = 10 \<or> b = 4 \<or> length (entered a) + length l = INPUT_BUF
        then a\<lparr>entered := entered a @ l, editing := []\<rparr> else a\<lparr>editing := l\<rparr>)"

lemma ring_self [simp]: "ring d r r = []"
  by simp

lemma ring_append:
  assumes "unat (w - r) + unat (e - w) = unat (e - r)"
  shows "ring d r w @ ring d w e = ring d r e"
proof (rule nth_equalityI)
  show "length (ring d r w @ ring d w e) = length (ring d r e)"
    using assms by simp
  fix i assume "i < length (ring d r w @ ring d w e)"
  then have i: "i < unat (w - r) + unat (e - w)"
    by simp
  show "(ring d r w @ ring d w e) ! i = ring d r e ! i"
  proof (cases "i < unat (w - r)")
    case True
    then show ?thesis
      using i assms by (simp add: nth_append ring_def)
  next
    case False
    then have "w + of_nat (i - unat (w - r)) = r + of_nat i"
      by (simp add: of_nat_diff)
    then show ?thesis
      using False i assms by (simp add: nth_append ring_def add.commute [of r])
  qed
qed

text \<open>Output does not touch the input buffer.\<close>

definition same_input :: "'a kcons_scheme \<Rightarrow> 'a kcons_scheme \<Rightarrow> bool" where
  "same_input s s' \<longleftrightarrow> in_buf s' = in_buf s \<and> in_r s' = in_r s \<and> in_w s' = in_w s \<and> in_e s' = in_e s \<and>
     lk s' = lk s \<and> panicked s' = panicked s \<and> procs s' = procs s \<and> cur s' = cur s \<and> icache s' = icache s"

lemma consputc_input:
  assumes "\<not> panicked s"
  shows "\<exists>s'. consputc c s = Ok () s' \<and> same_input s s'"
  using assms by (auto simp: consputc_def uartputc_def cgaputc_def same_input_def split_def Let_def)

lemma line_ok_append: "line_ok s \<Longrightarrow> entered (line_abs s) @ editing (line_abs s) = ring (in_buf s) (in_r s) (in_e s)"
  by (simp add: line_abs_def line_ok_def ring_append)

lemma same_input_line: "same_input s s' \<Longrightarrow> line_abs s' = line_abs s \<and> line_ok s' = line_ok s"
  by (simp add: same_input_def line_abs_def line_ok_def)

text \<open>Taking back one character.\<close>

lemma rub_out:
  assumes "line_ok s" "in_e s \<noteq> in_w s" "s' = s\<lparr>in_e := in_e s - 1\<rparr>"
  shows "line_ok s'" "line_abs s' = (line_abs s)\<lparr>editing := butlast (editing (line_abs s))\<rparr>"
    "editing (line_abs s) = editing (line_abs s') @ [in_at s (in_e s - 1)]"
proof -
  let ?r = "in_r s" and ?w = "in_w s" and ?e = "in_e s" and ?d = "in_buf s"
  have b: "ring ?d ?w ?e = ring ?d ?w (?e - 1) @ [?d ! (unat (?e - 1) mod length ?d)]"
    using assms(2) by (intro ring_butlast) simp
  have u: "unat (?w - ?r) + unat (?e - ?w) = unat (?e - ?r)" "length ?d = INPUT_BUF"
    using assms(1) by (simp_all add: line_ok_def)
  have p: "unat (?e - ?w) = Suc (unat (?e - ?w - 1))" 
    using assms(2) by (intro Suc_unat_minus_1) simp
  then have ne: "?e - ?r \<noteq> 0"
    using u(1) by (metis add_is_0 nat.distinct(1) unat_0)
  then have "unat (?e - ?r) = Suc (unat (?e - ?r - 1))"
    by (rule Suc_unat_minus_1)
  then have "unat (?w - ?r) + unat (?e - 1 - ?w) = unat (?e - 1 - ?r)"
    using u(1) p by (simp add: diff_right_commute)
  then show "line_ok s'"
    using assms(1,3) ne ring_ok_back [of ?d ?r ?e] by (auto simp: line_ok_def)
  show "editing (line_abs s) = editing (line_abs s') @ [in_at s (?e - 1)]"
    using b u(2) by (simp add: line_abs_def assms(3) in_at_def)
  then show "line_abs s' = (line_abs s)\<lparr>editing := butlast (editing (line_abs s))\<rparr>"
    by (simp add: line_abs_def assms(3))
qed

lemma kill_line_run:
  assumes "line_ok s" "\<not> panicked s" "n = unat (in_e s - in_w s)"
  shows "\<exists>s'. kill_line n s = Ok () s' \<and> line_ok s' \<and> \<not> panicked s' \<and> lk s' = lk s \<and> procs s' = procs s \<and>
    line_abs s' = (line_abs s)\<lparr>editing := rev (dropWhile (\<lambda>c. c \<noteq> 10) (rev (editing (line_abs s))))\<rparr>"
  using assms
proof (induction n arbitrary: s)
  case 0
  then have "editing (line_abs s) = []"
    by (simp add: line_abs_def unat_eq_zero)
  then show ?case
    using 0 ring_self by (simp add: line_abs_def)
next
  case (Suc n)
  then have ne: "in_e s \<noteq> in_w s"
    by auto
  define s1 where "s1 = s\<lparr>in_e := in_e s - 1\<rparr>"
  note r = rub_out [OF Suc.prems(1) ne s1_def]
  show ?case
  proof (cases "in_at s (in_e s - 1) = 10")
    case True
    then have "rev (dropWhile (\<lambda>c. c \<noteq> 10) (rev (editing (line_abs s)))) = editing (line_abs s)"
      using r(3) by simp
    then show ?thesis
      using True Suc.prems(1,2) by simp
  next
    case False
    obtain s2 where 2: "consputc BACKSPACE s1 = Ok () s2" "same_input s1 s2"
      using consputc_input [of s1] Suc.prems(2) by (auto simp: s1_def)
    note l2 = same_input_line [OF 2(2)]
    have "unat (in_e s - in_w s) = Suc (unat (in_e s - in_w s - 1))"
      using ne by (intro Suc_unat_minus_1) simp
    then have "n = unat (in_e s2 - in_w s2)"
      using Suc.prems(3) 2(2) by (simp add: same_input_def s1_def diff_right_commute)
    moreover have "line_ok s2" "\<not> panicked s2"
      using r(1) l2 2(2) Suc.prems(2) by (simp_all add: same_input_def s1_def)
    ultimately obtain s3 where 3: "kill_line n s2 = Ok () s3" "line_ok s3" "\<not> panicked s3" "lk s3 = lk s2" "procs s3 = procs s2"
      "line_abs s3 = (line_abs s2)\<lparr>editing := rev (dropWhile (\<lambda>c. c \<noteq> 10) (rev (editing (line_abs s2))))\<rparr>"
      using Suc.IH [of s2] by blast
    have "kill_line (Suc n) s = Ok () s3"
      using 2(1) 3(1) ne False by (simp add: s1_def)
    moreover define l where "l = editing (line_abs s1)"
    have "line_abs s1 = (line_abs s)\<lparr>editing := l\<rparr>" "editing (line_abs s) = l @ [in_at s (in_e s - 1)]"
      using r(2,3) by (simp_all add: l_def)
    then have "line_abs s3 = (line_abs s)\<lparr>editing := rev (dropWhile (\<lambda>c. c \<noteq> 10) (rev (editing (line_abs s))))\<rparr>"
      using 3(6) l2 False by simp
    ultimately show ?thesis
      using 3 2(2) by (auto simp: same_input_def s1_def)
  qed
qed

text \<open>Typing one character.\<close>

lemma type_char:
  assumes "line_ok s" "unat (in_e s - in_r s) < INPUT_BUF"
    "s' = s\<lparr>in_buf := (in_buf s)[unat (in_e s) mod INPUT_BUF := b], in_e := in_e s + 1\<rparr>"
  shows "line_ok s'" "line_abs s' = (line_abs s)\<lparr>editing := editing (line_abs s) @ [b]\<rparr>"
proof -
  let ?r = "in_r s" and ?w = "in_w s" and ?e = "in_e s" and ?d = "in_buf s"
  let ?d' = "?d[unat ?e mod INPUT_BUF := b]"
  have ok: "length ?d = INPUT_BUF" "ring_ok ?d ?r ?e" "unat (?w - ?r) + unat (?e - ?w) = unat (?e - ?r)"
    using assms(1) by (simp_all add: line_ok_def)
  have okw: "ring_ok ?d ?w ?e" "unat (?e - ?w) < length ?d"
    using ok assms(2) by (auto simp: ring_ok_def)
  have re: "ring ?d' ?r (?e + 1) = ring ?d ?r ?e @ [b]" and we: "ring ?d' ?w (?e + 1) = ring ?d ?w ?e @ [b]"
    using ring_put [OF ok(2)] ring_put [OF okw] ok(1) assms(2) by simp_all
  have S: "unat (?e + 1 - x) = Suc (unat (?e - x))" if "unat (?e - x) < INPUT_BUF" for x
    using unat_plus_1 [of "?e - x"] that by (simp add: diff_add_eq)
  have sum: "unat (?w - ?r) + unat (?e + 1 - ?w) = unat (?e + 1 - ?r)"
    using S [of ?w] S [of ?r] ok(1,3) okw(2) assms(2) by simp
  have "ring ?d' ?r ?w @ ring ?d' ?w (?e + 1) = (ring ?d ?r ?w @ ring ?d ?w ?e) @ [b]"
    unfolding ring_append [OF sum] ring_append [OF ok(3)] by (rule re)
  then have rw: "ring ?d' ?r ?w = ring ?d ?r ?w"
    unfolding we by simp
  show "line_ok s'"
    using ok sum ring_ok_put [OF ok(2)] assms(2) by (simp add: line_ok_def assms(3))
  show "line_abs s' = (line_abs s)\<lparr>editing := editing (line_abs s) @ [b]\<rparr>"
    using rw we by (simp add: line_abs_def assms(3))
qed

lemma enter_line:
  assumes "line_ok s" "s' = s\<lparr>in_w := in_e s\<rparr>"
  shows "line_ok s'" "line_abs s' = \<lparr>entered = entered (line_abs s) @ editing (line_abs s), editing = []\<rparr>"
  using assms line_ok_append [OF assms(1)] by (simp_all add: line_ok_def line_abs_def)

lemma line_length: "line_ok s \<Longrightarrow> length (entered (line_abs s)) + length (editing (line_abs s)) = unat (in_e s - in_r s)"
  by (simp add: line_ok_def line_abs_def)

lemma of_nat_u8_eq: "c < 256 \<Longrightarrow> n < 256 \<Longrightarrow> (of_nat c :: u8) = of_nat n \<longleftrightarrow> c = n"
  by (auto simp: word_unat_eq_iff unat_of_nat take_bit_nat_eq_self)

text \<open>The result of handling one character.\<close>

definition edited :: "nat \<Rightarrow> 'a kcons_scheme \<Rightarrow> 'a kcons_scheme \<Rightarrow> bool" where
  "edited c s s' \<longleftrightarrow> line_ok s' \<and> \<not> panicked s' \<and> lk s' = lk s \<and> line_abs s' = edit c (line_abs s) \<and>
     procs s' = (if entered (line_abs s') = entered (line_abs s) then procs s else map (wake ChInput) (procs s))"

lemma edit_kill:
  assumes "line_ok s" "\<not> panicked s"
  shows "\<exists>s'. consoleintr_char pcs 21 s = Ok () s' \<and> edited 21 s s'"
proof -
  obtain s' where "kill_line (unat (in_e s - in_w s)) s = Ok () s'" "line_ok s'" "\<not> panicked s'" "lk s' = lk s" "procs s' = procs s"
    "line_abs s' = (line_abs s)\<lparr>editing := rev (dropWhile (\<lambda>c. c \<noteq> 10) (rev (editing (line_abs s))))\<rparr>"
    using kill_line_run [OF assms refl] by blast
  then show ?thesis
    by (simp add: consoleintr_char_def edited_def edit_def)
qed

lemma edit_rub:
  assumes "line_ok s" "\<not> panicked s" "c = 8 \<or> c = 127"
  shows "\<exists>s'. consoleintr_char pcs c s = Ok () s' \<and> edited c s s'"
proof (cases "in_e s = in_w s")
  case True
  then have "editing (line_abs s) = []"
    by (simp add: line_abs_def)
  then have "edit c (line_abs s) = line_abs s"
    using assms(3) by (auto simp: edit_def)
  moreover have "consoleintr_char pcs c s = Ok () s"
    using True assms(3) by (auto simp: consoleintr_char_def)
  ultimately show ?thesis
    using assms(1,2) by (simp add: edited_def)
next
  case False
  define s1 where "s1 = s\<lparr>in_e := in_e s - 1\<rparr>"
  note r = rub_out [OF assms(1) False s1_def]
  obtain s2 where 2: "consputc BACKSPACE s1 = Ok () s2" "same_input s1 s2"
    using consputc_input [of s1] assms(2) by (auto simp: s1_def)
  have "consoleintr_char pcs c s = Ok () s2"
    using assms(3) False 2(1) by (auto simp: consoleintr_char_def s1_def)
  moreover have "edit c (line_abs s) = line_abs s1"
    using assms(3) r(2) by (auto simp: edit_def)
  ultimately show ?thesis
    using r(1,2) same_input_line [OF 2(2)] 2(2) assms(2) by (auto simp: edited_def same_input_def s1_def)
qed

lemma edit_char:
  fixes s :: "'a kcons_scheme"
  assumes "line_ok s" "\<not> panicked s" "c < 256" "c \<notin> {0, 8, 16, 21, 127}" "unat (in_e s - in_r s) < INPUT_BUF"
    "lk_ok (lk s)" "\<not> locked (lk s) Lptable"
  shows "\<exists>s'. consoleintr_char pcs c s = Ok () s' \<and> edited c s s'"
proof -
  define d where "d = (if c = 13 then 10 else c)"
  define b :: u8 where "b = of_nat d"
  define s1 where "s1 = s\<lparr>in_buf := (in_buf s)[unat (in_e s) mod INPUT_BUF := b], in_e := in_e s + 1\<rparr>"
  note t = type_char [OF assms(1,5) s1_def]
  obtain s2 where 2: "consputc d s1 = Ok () s2" "same_input s1 s2"
    using consputc_input [of s1] assms(2) by (auto simp: s1_def)
  note l2 = same_input_line [OF 2(2)]
  have f2: "line_ok s2" "line_abs s2 = (line_abs s)\<lparr>editing := editing (line_abs s) @ [b]\<rparr>" "\<not> panicked s2" "lk s2 = lk s" "procs s2 = procs s"
    using t l2 2(2) assms(2) by (simp_all add: same_input_def s1_def)
  have d: "d < 256" "b = (if c = 13 then 10 else of_nat c)" "b = 10 \<longleftrightarrow> d = 10" "b = 4 \<longleftrightarrow> d = 4"
    using assms(3) of_nat_u8_eq [of d 10] of_nat_u8_eq [of d 4] by (auto simp: d_def b_def)
  have full: "in_e s2 = in_r s2 + of_nat INPUT_BUF \<longleftrightarrow>
      length (entered (line_abs s)) + length (editing (line_abs s) @ [b]) = INPUT_BUF"
    using line_length [OF f2(1)] ring_full_iff [of INPUT_BUF "in_e s2" "in_r s2"] by (simp add: f2(2))
  define fin where "fin \<longleftrightarrow> d = 10 \<or> d = 4 \<or> in_e s2 = in_r s2 + of_nat INPUT_BUF"
  have ed: "edit c (line_abs s) = (if fin then \<lparr>entered = entered (line_abs s) @ editing (line_abs s) @ [b], editing = []\<rparr>
      else (line_abs s)\<lparr>editing := editing (line_abs s) @ [b]\<rparr>)"
    using assms(4,5) line_length [OF assms(1)] unfolding fin_def full d(3,4) [symmetric] d(2)
    by (simp add: edit_def Let_def)
  have "in_e s - in_r s < of_nat INPUT_BUF"
    using assms(5) by (simp add: word_less_nat_alt)
  then have run: "consoleintr_char pcs c s = (if fin then andthen (modify (\<lambda>s. s\<lparr>in_w := in_e s\<rparr>)) (wakeup ChInput) else ret ()) s2"
    using assms(4) 2(1) unfolding consoleintr_char_def by (simp add: d_def [symmetric] b_def [symmetric] s1_def fin_def)
  show ?thesis
  proof (cases fin)
    case True
    let ?s3 = "s2\<lparr>in_w := in_e s2\<rparr>"
    note e = enter_line [OF f2(1) refl]
    have "consoleintr_char pcs c s = Ok () (?s3\<lparr>procs := map (wake ChInput) (procs s)\<rparr>)"
      using run True f2(4,5) assms(6,7) by simp
    moreover have "line_abs (?s3\<lparr>procs := ps\<rparr>) = line_abs ?s3" "line_ok (?s3\<lparr>procs := ps\<rparr>) = line_ok ?s3" for ps
      by (simp_all add: line_abs_def line_ok_def)
    ultimately show ?thesis
      using e f2 ed True by (simp add: edited_def)
  next
    case False
    then show ?thesis
      using run f2 ed by (simp add: edited_def)
  qed
qed

lemma consoleintr_char_edit:
  fixes s :: "'a kcons_scheme"
  assumes "line_ok s" "\<not> panicked s" "c < 256" "c \<noteq> 16" "lk_ok (lk s)" "\<not> locked (lk s) Lptable"
  shows "\<exists>s'. consoleintr_char pcs c s = Ok () s' \<and> edited c s s'"
proof (cases "c = 21")
  case True
  then show ?thesis
    using edit_kill [OF assms(1,2)] by simp
next
  case k: False
  show ?thesis
  proof (cases "c = 8 \<or> c = 127")
    case True
    then show ?thesis
      by (rule edit_rub [OF assms(1,2)])
  next
    case b: False
    show ?thesis
    proof (cases "c \<noteq> 0 \<and> unat (in_e s - in_r s) < INPUT_BUF")
      case True
      then show ?thesis
        using k b assms by (intro edit_char) auto
    next
      case False
      then have "consoleintr_char pcs c s = Ok () s"
        using k b assms(4) by (auto simp: consoleintr_char_def word_less_nat_alt)
      moreover have "edit c (line_abs s) = line_abs s"
        using False k b line_length [OF assms(1)] by (auto simp: edit_def)
      ultimately show ?thesis
        using assms(1,2) by (simp add: edited_def)
    qed
  qed
qed

lemma consoleintr_loop_edit:
  fixes s :: "'a kcons_scheme"
  assumes "line_ok s" "\<not> panicked s" "\<forall>c\<in>set cs. c < 256 \<and> c \<noteq> 16" "lk_ok (lk s)" "\<not> locked (lk s) Lptable"
  shows "\<exists>s'. consoleintr_loop pcs cs s = Ok () s' \<and> line_ok s' \<and> \<not> panicked s' \<and> lk s' = lk s \<and> line_abs s' = fold edit cs (line_abs s)"
  using assms
proof (induction cs arbitrary: s)
  case (Cons c cs)
  obtain s1 where 1: "consoleintr_char pcs c s = Ok () s1" "edited c s s1"
    using consoleintr_char_edit [of s c pcs] Cons.prems by auto
  then obtain s2 where "consoleintr_loop pcs cs s1 = Ok () s2" "line_ok s2" "\<not> panicked s2" "lk s2 = lk s1"
    "line_abs s2 = fold edit cs (line_abs s1)"
    using Cons.IH [of s1] Cons.prems by (auto simp: edited_def)
  then show ?case
    using 1 by (auto simp: edited_def)
qed simp

section \<open>Reading a line\<close>

text \<open>
  What \<^verbatim>\<open>read\<close> of \<open>n\<close> bytes takes from the entered bytes: up to \<open>n\<close> bytes, not beyond a newline
  or a control-D. A control-D at the beginning is consumed, one after other bytes stays.
  \<open>None\<close> means that more input is needed.
\<close>

fun take_line :: "bool \<Rightarrow> nat \<Rightarrow> u8 list \<Rightarrow> (u8 list \<times> u8 list) option" where
  "take_line started 0 q = Some ([], q)"
| "take_line started (Suc n) [] = None"
| "take_line started (Suc n) (c # q) =
     (if c = 4 then Some ([], if started then c # q else q)
      else if c = 10 then Some ([c], q)
      else map_option (\<lambda>(l, r). (c # l, r)) (take_line True n q))"

lemma read_char:
  assumes "line_ok s" "in_r s \<noteq> in_w s" "s' = s\<lparr>in_r := in_r s + 1\<rparr>"
  shows "line_ok s'" "entered (line_abs s) = in_at s (in_r s) # entered (line_abs s')"
    "line_abs s' = (line_abs s)\<lparr>entered := tl (entered (line_abs s))\<rparr>"
proof -
  let ?r = "in_r s" and ?w = "in_w s" and ?e = "in_e s" and ?d = "in_buf s"
  have ok: "length ?d = INPUT_BUF" "ring_ok ?d ?r ?e" "unat (?w - ?r) + unat (?e - ?w) = unat (?e - ?r)"
    using assms(1) by (simp_all add: line_ok_def)
  have w: "unat (?w - ?r) = Suc (unat (?w - ?r - 1))"
    using assms(2) by (intro Suc_unat_minus_1) simp
  then have ne: "?e - ?r \<noteq> 0"
    using ok(3) by (metis add_is_0 nat.distinct(1) unat_0)
  then have "unat (?e - ?r) = Suc (unat (?e - ?r - 1))"
    by (rule Suc_unat_minus_1)
  then have "unat (?w - (?r + 1)) + unat (?e - ?w) = unat (?e - (?r + 1))"
    using w ok(3) by (simp add: diff_diff_add)
  then show "line_ok s'"
    using ok ne ring_ok_drop [OF ok(2)] by (auto simp: line_ok_def assms(3))
  show e: "entered (line_abs s) = in_at s (in_r s) # entered (line_abs s')"
    using ring_Cons [OF assms(2)] ok(1) by (simp add: line_abs_def assms(3) in_at_def)
  show "line_abs s' = (line_abs s)\<lparr>entered := tl (entered (line_abs s))\<rparr>"
    using e by (simp add: line_abs_def assms(3))
qed

lemma ret_eq: "ret a = Ok a"
  by (rule ext) simp

lemma consoleread_loop_take:
  assumes "line_ok s" "lk s = acq Linput k" "lk_ok k" "\<not> locked k Linput"
    "take_line (acc \<noteq> []) n (entered (line_abs s)) = Some (l, q)" "target = n + length acc"
  shows "\<exists>s'. consoleread_loop ip target n acc s = andthen (ilock ip) (ret (int (length (acc @ l)), acc @ l)) s' \<and>
    line_ok s' \<and> line_abs s' = (line_abs s)\<lparr>entered := q\<rparr> \<and> lk s' = k \<and> icache s' = icache s \<and> procs s' = procs s"
  using assms
proof (induction n arbitrary: s acc l)
  case 0
  then show ?case
    by (intro exI [of _ "s\<lparr>lk := k\<rparr>"]) (simp add: line_ok_def line_abs_def ret_eq)
next
  case (Suc n)
  have ne: "in_r s \<noteq> in_w s"
    using Suc.prems(5) by (auto simp: line_abs_def)
  define s1 where "s1 = s\<lparr>in_r := in_r s + 1\<rparr>"
  define rest where "rest = entered (line_abs s1)"
  let ?c = "in_at s (in_r s)"
  have r: "line_ok s1" "entered (line_abs s) = ?c # rest" "line_abs s1 = (line_abs s)\<lparr>entered := rest\<rparr>"
    using read_char [OF Suc.prems(1) ne s1_def] by (simp_all add: rest_def)
  note tk = Suc.prems(5) [unfolded r(2)]
  have run: "consoleread_loop ip target (Suc n) acc s =
      (if ?c = 4
       then andthen (if Suc n < target then modify (\<lambda>s. s\<lparr>in_r := in_r s - 1\<rparr>) else ret ())
         (andthen (release Linput) (andthen (ilock ip) (ret (int target - int (Suc n), acc))))
       else if ?c = 10
       then andthen (release Linput) (andthen (ilock ip) (ret (int target - int n, acc @ [?c])))
       else consoleread_loop ip target n (acc @ [?c])) s1"
    using ne by (simp add: s1_def)
  have rel: "release Linput x = Ok () (x\<lparr>lk := k\<rparr>)" if "lk x = acq Linput k" for x :: "'a kcons_scheme"
    using Suc.prems(3,4) that by simp
  have keep: "line_abs (x\<lparr>lk := k\<rparr>) = line_abs x" "line_ok (x\<lparr>lk := k\<rparr>) = line_ok x" for x :: "'a kcons_scheme"
    by (simp_all add: line_abs_def line_ok_def)
  have s1: "lk s1 = acq Linput k" "icache s1 = icache s" "procs s1 = procs s" "s1\<lparr>in_r := in_r s1 - 1\<rparr> = s"
    using Suc.prems(2) by (simp_all add: s1_def)
  consider (eof) "?c = 4" | (newline) "?c = 10" | (more) "?c \<noteq> 4" "?c \<noteq> 10"
    by blast
  then show ?case
  proof cases
    case eof
    define s2 where "s2 = (if acc = [] then s1 else s)"
    have lq: "l = []" "q = (if acc = [] then rest else ?c # rest)"
      using tk eof by auto
    have t: "(Suc n < target) = (acc \<noteq> [])" "int target - int (Suc n) = int (length acc)"
      using Suc.prems(6) by auto
    have "consoleread_loop ip target (Suc n) acc s = andthen (ilock ip) (ret (int (length acc), acc)) (s2\<lparr>lk := k\<rparr>)"
      unfolding run t using eof rel [of s2] s1 Suc.prems(2) by (cases "acc = []") (simp_all add: s2_def ret_eq)
    moreover have "line_ok s2" "line_abs s2 = (line_abs s)\<lparr>entered := q\<rparr>"
      using r Suc.prems(1) by (auto simp: s2_def lq simp flip: r(2))
    moreover have "icache s2 = icache s" "procs s2 = procs s"
      using s1(2,3) by (simp_all add: s2_def)
    ultimately show ?thesis
      by (intro exI [of _ "s2\<lparr>lk := k\<rparr>"]) (simp add: keep lq(1) ret_eq)
  next
    case newline
    then have lq: "l = [?c]" "q = rest"
      using tk by auto
    have t: "int target - int n = int (length (acc @ [?c]))"
      using Suc.prems(6) by simp
    have "consoleread_loop ip target (Suc n) acc s = andthen (ilock ip) (ret (int (length (acc @ [?c])), acc @ [?c])) (s1\<lparr>lk := k\<rparr>)"
      unfolding run t using newline rel [OF s1(1)] by (simp add: ret_eq)
    then show ?thesis
      using s1(2,3) r(1,3) by (intro exI [of _ "s1\<lparr>lk := k\<rparr>"]) (simp add: keep lq ret_eq)
  next
    case more
    then obtain l' where l': "take_line (acc @ [?c] \<noteq> []) n (entered (line_abs s1)) = Some (l', q)" "l = ?c # l'"
      using tk by (auto simp: rest_def)
    have p: "target = n + length (acc @ [?c])"
      using Suc.prems(6) by simp
    obtain s2 where "consoleread_loop ip target n (acc @ [?c]) s1 = andthen (ilock ip) (ret (int (length ((acc @ [?c]) @ l')), (acc @ [?c]) @ l')) s2"
      "line_ok s2" "line_abs s2 = (line_abs s1)\<lparr>entered := q\<rparr>" "lk s2 = k" "icache s2 = icache s1" "procs s2 = procs s1"
      using Suc.IH [OF r(1) s1(1) Suc.prems(3,4) l'(1) p] by blast
    then show ?thesis
      unfolding run using more l'(2) s1(2,3) by (intro exI [of _ s2]) (simp add: r(3) ret_eq)
  qed
qed

text \<open>Giving up and taking back an inode that has been read from the disk.\<close>

lemma get_inode_run [simp]: "get_inode ip s = Ok (icache s ! ip) s"
  by (simp add: get_inode_def)

lemma upd_inode_run [simp]: "upd_inode ip f s = Ok () (s\<lparr>icache := (icache s)[ip := f (icache s ! ip)]\<rparr>)"
  by (simp add: upd_inode_def)

lemma iunlock_Ok:
  assumes "i_busy (icache s ! ip)" "1 \<le> i_ref (icache s ! ip)" "lk_ok (lk s)" "\<not> locked (lk s) Licache" "\<not> locked (lk s) Lptable"
  shows "iunlock ip s = Ok () (s\<lparr>icache := (icache s)[ip := (icache s ! ip)\<lparr>i_busy := False\<rparr>], procs := map (wake (ChInode ip)) (procs s)\<rparr>)"
  using assms by (simp add: iunlock_def acquire_Ok)

lemma ilock_Ok:
  assumes "\<not> i_busy (icache s ! ip)" "1 \<le> i_ref (icache s ! ip)" "i_valid (icache s ! ip)" "lk_ok (lk s)" "\<not> locked (lk s) Licache"
  shows "ilock ip s = Ok () (s\<lparr>icache := (icache s)[ip := (icache s ! ip)\<lparr>i_busy := True\<rparr>]\<rparr>)"
  using assms by (simp add: ilock_def ilock_loop_def acquire_Ok)

lemma consoleread_line:
  fixes s :: "'a kcons_scheme"
  assumes "line_ok s" "lk_ok (lk s)" "\<not> locked (lk s) Linput" "\<not> locked (lk s) Licache" "\<not> locked (lk s) Lptable"
    "ip < length (icache s)" "i_busy (icache s ! ip)" "i_valid (icache s ! ip)" "1 \<le> i_ref (icache s ! ip)"
    "0 < n" "take_line False (nat n) (entered (line_abs s)) = Some (l, q)"
  shows "\<exists>s'. consoleread ip n s = Ok (int (length l), l) s' \<and> line_ok s' \<and> line_abs s' = (line_abs s)\<lparr>entered := q\<rparr> \<and>
    lk s' = lk s \<and> icache s' = icache s"
proof -
  let ?x = "icache s ! ip"
  define s1 where "s1 = s\<lparr>icache := (icache s)[ip := ?x\<lparr>i_busy := False\<rparr>], procs := map (wake (ChInode ip)) (procs s)\<rparr>"
  define s2 where "s2 = s1\<lparr>lk := acq Linput (lk s)\<rparr>"
  have 1: "iunlock ip s = Ok () s1"
    using assms by (simp add: iunlock_Ok s1_def)
  have 2: "acquire Linput s1 = Ok () s2"
    using assms(3) by (simp add: acquire_Ok s1_def s2_def)
  have f2: "line_ok s2" "line_abs s2 = line_abs s" "lk s2 = acq Linput (lk s)" "icache s2 = (icache s)[ip := ?x\<lparr>i_busy := False\<rparr>]"
    using assms(1) by (simp_all add: s2_def s1_def line_ok_def line_abs_def)
  have "take_line ([] \<noteq> []) (nat n) (entered (line_abs s2)) = Some (l, q)" "nat n = nat n + length []"
    using assms(11) by (simp_all add: f2(2))
  from consoleread_loop_take [OF f2(1,3) assms(2,3) this, of ip]
  obtain s3 where 3: "consoleread_loop ip (nat n) (nat n) [] s2 = andthen (ilock ip) (ret (int (length l), l)) s3"
    "line_ok s3" "line_abs s3 = (line_abs s)\<lparr>entered := q\<rparr>" "lk s3 = lk s" "icache s3 = icache s2"
    by (auto simp: f2(2))
  let ?s4 = "s3\<lparr>icache := (icache s3)[ip := (icache s3 ! ip)\<lparr>i_busy := True\<rparr>]\<rparr>"
  have "ilock ip s3 = Ok () ?s4"
    using assms(2,4,6,8,9) by (intro ilock_Ok) (simp_all add: 3 f2)
  then have "consoleread ip n s = Ok (int (length l), l) ?s4"
    using 1 2 3(1) assms(10) by (simp add: consoleread_def)
  moreover have "?x\<lparr>i_busy := True\<rparr> = ?x"
    using assms(7) by simp
  then have "icache ?s4 = icache s"
    using assms(6) by (simp add: 3 f2)
  moreover have "line_ok ?s4" "line_abs ?s4 = line_abs s3" "lk ?s4 = lk s"
    using 3 by (simp_all add: line_ok_def line_abs_def)
  ultimately show ?thesis
    using 3(3) by (intro exI [of _ ?s4]) simp
qed

section \<open>Properties\<close>

text \<open>
  C33: the console is a line editor. The interrupt handler, given the characters that have
  been typed, changes the entered bytes and the line being edited as the abstract editor
  does, and a \<^verbatim>\<open>read\<close> for which enough has been entered returns the next line, or its
  first \<open>n\<close> bytes, and leaves the rest. The locks, and the inode that \<^verbatim>\<open>consoleread\<close> unlocks
  meanwhile, are as before. (Control-P, which prints the process table, is left out.)
\<close>

theorem console_line:
  fixes s :: "'a kcons_scheme"
  assumes "line_ok s" and "\<not> panicked s" and "lk_ok (lk s)" and "\<not> locked (lk s) Linput" and "\<not> locked (lk s) Licache"
    and "\<not> locked (lk s) Lptable" and "\<forall>c\<in>set cs. c < 256 \<and> c \<noteq> 16"
  shows "(\<exists>s'. consoleintr pcs cs s = Ok () s' \<and> line_ok s' \<and> lk s' = lk s \<and> line_abs s' = fold edit cs (line_abs s)) \<and>
    (\<forall>ip n l q. ip < length (icache s) \<longrightarrow> i_busy (icache s ! ip) \<longrightarrow> i_valid (icache s ! ip) \<longrightarrow> 1 \<le> i_ref (icache s ! ip) \<longrightarrow>
       0 < n \<longrightarrow> take_line False (nat n) (entered (line_abs s)) = Some (l, q) \<longrightarrow>
       (\<exists>s'. consoleread ip n s = Ok (int (length l), l) s' \<and> line_ok s' \<and> line_abs s' = (line_abs s)\<lparr>entered := q\<rparr> \<and>
         lk s' = lk s \<and> icache s' = icache s))"
proof -
  let ?s = "s\<lparr>lk := acq Linput (lk s)\<rparr>"
  have "line_ok ?s" "line_abs ?s = line_abs s"
    using assms(1) by (simp_all add: line_ok_def line_abs_def)
  then obtain s1 where 1: "consoleintr_loop pcs cs ?s = Ok () s1" "line_ok s1" "lk s1 = acq Linput (lk s)" "line_abs s1 = fold edit cs (line_abs s)"
    using consoleintr_loop_edit [of ?s cs pcs] assms by auto
  have "consoleintr pcs cs s = Ok () (s1\<lparr>lk := lk s\<rparr>)"
    using assms(3,4) 1 by (simp add: consoleintr_def acquire_Ok)
  moreover have "line_ok (s1\<lparr>lk := lk s\<rparr>)" "line_abs (s1\<lparr>lk := lk s\<rparr>) = line_abs s1"
    using 1(2) by (simp_all add: line_ok_def line_abs_def)
  ultimately have "\<exists>s'. consoleintr pcs cs s = Ok () s' \<and> line_ok s' \<and> lk s' = lk s \<and> line_abs s' = fold edit cs (line_abs s)"
    using 1(4) by auto
  then show ?thesis
    using consoleread_line [OF assms(1,3-6)] by blast
qed

text \<open>Typing \<^verbatim>\<open>ho\<close>, a backspace, \<^verbatim>\<open>i\<close> and return; and reading when \<^verbatim>\<open>hi\<close> and return have been entered.\<close>

definition typed :: ktrap where
  "typed = machine\<lparr>in_buf := [104, 105, 10] @ replicate 125 0, in_w := 3, in_e := 3,
     icache := [no_inode\<lparr>i_busy := True, i_valid := True, i_ref := 1\<rparr>]\<rparr>"

theorem console_line_witness:
  "(\<exists>s'. consoleintr (\<lambda>_. []) [104, 111, 8, 105, 13] machine = Ok () s' \<and> entered (line_abs s') = [104, 105, 10]) \<and>
   (\<exists>s'. consoleread 0 100 typed = Ok (3, [104, 105, 10]) s' \<and> entered (line_abs s') = [])"
proof -
  have m: "line_ok machine" "line_abs machine = \<lparr>entered = [], editing = []\<rparr>"
    by (simp_all add: line_ok_def line_abs_def ring_ok_def)
  have u: "unat (3 :: u32) = 3"
    by simp
  have t: "line_ok typed" "line_abs typed = \<lparr>entered = [104, 105, 10], editing = []\<rparr>"
    by (simp_all add: line_ok_def line_abs_def ring_ok_def typed_def ring_def u upt_conv_Cons)
  have "fold edit [104, 111, 8, 105, 13] \<lparr>entered = [], editing = []\<rparr> = \<lparr>entered = [104, 105, 10], editing = []\<rparr>"
    by (simp add: edit_def Let_def)
  then have 1: "\<exists>s'. consoleintr (\<lambda>_. []) [104, 111, 8, 105, 13] machine = Ok () s' \<and> entered (line_abs s') = [104, 105, 10]"
    using console_line [of machine "[104, 111, 8, 105, 13]" "\<lambda>_. []"] m by auto
  have f: "\<not> panicked typed" "lk typed = no_locks" "icache typed = [no_inode\<lparr>i_busy := True, i_valid := True, i_ref := 1\<rparr>]"
    by (simp_all add: typed_def)
  have "take_line False (nat 100) [104, 105, 10] = Some ([104, 105, 10], [])"
    by code_simp
  with console_line [of typed "[]" "\<lambda>_. []", THEN conjunct2, rule_format, of 0 100 "[104, 105, 10]" "[]"] t f
  obtain s' where "consoleread 0 100 typed = Ok (int (length [104, 105, 10 :: u8]), [104, 105, 10]) s'"
    "line_abs s' = (line_abs typed)\<lparr>entered := []\<rparr>"
    by auto
  then show ?thesis
    using 1 t(2) by simp
qed

end
