(* ===== verification/Spec2Isabelle.thy ===== *)
theory Spec2Isabelle
  imports Prelude Grep Umalloc Uthread Sh Pipe Line
begin

text \<open>
  Verification library for the xv6 derivative in this repository. Skeleton.
\<close>

end
